theory Spec2Isabelle
  imports Complex_Main "HOL-Library.Word"
begin

section \<open>The token tape\<close>

text \<open>
  The loader of web-ifc (\<^verbatim>\<open>src/wasm/include/web-ifc.h\<close>, class \<^verbatim>\<open>IfcLoader\<close>) reads a
  packed byte tape of tagged tokens. The tag values are the constants of
  \<^verbatim>\<open>web-ifc-api.ts\<close> (\<^verbatim>\<open>UNKNOWN = 0\<close> up to \<^verbatim>\<open>LINE_END = 9\<close>).
\<close>

type_synonym byte = "8 word"

datatype error =
    TapeReadPastEnd   \<comment> \<open>a read of the tape beyond its last byte\<close>
  | AssertionFailed   \<comment> \<open>\<^verbatim>\<open>assert(false)\<close>\<close>
  | IndexOutOfRange   \<comment> \<open>\<^verbatim>\<open>operator[]\<close> of a \<^verbatim>\<open>std::vector\<close> beyond its size\<close>

datatype IfcTokenType =
    UNKNOWN | STRING | LABEL | ENUM | REAL | REF | EMPTY | SET_BEGIN | SET_END | LINE_END

fun token_code :: "IfcTokenType \<Rightarrow> byte" where
  "token_code UNKNOWN = 0"
| "token_code STRING = 1"
| "token_code LABEL = 2"
| "token_code ENUM = 3"
| "token_code REAL = 4"
| "token_code REF = 5"
| "token_code EMPTY = 6"
| "token_code SET_BEGIN = 7"
| "token_code SET_END = 8"
| "token_code LINE_END = 9"

text \<open>
  \<^verbatim>\<open>static_cast<IfcTokenType>(c)\<close>: a byte that is no enumerator is \<open>None\<close>; it takes
  the \<^verbatim>\<open>default\<close> branch of a switch and the last \<^verbatim>\<open>else\<close> of an if-chain.
\<close>

definition token_of_byte :: "byte \<Rightarrow> IfcTokenType option" where
  "token_of_byte c =
     (if c = 0 then Some UNKNOWN else if c = 1 then Some STRING
      else if c = 2 then Some LABEL else if c = 3 then Some ENUM
      else if c = 4 then Some REAL else if c = 5 then Some REF
      else if c = 6 then Some EMPTY else if c = 7 then Some SET_BEGIN
      else if c = 8 then Some SET_END else if c = 9 then Some LINE_END
      else None)"

text \<open>
  Modelled from the spec: the class \<^verbatim>\<open>DynamicTape\<close> (\<^verbatim>\<open>parsing/tokenizer.h\<close>) is
  not among the sources. Section 4.1 of the specification gives its contract: one
  growable byte array with a movable read cursor; \<^verbatim>\<open>Read<T>\<close> decodes a value at the
  cursor and advances it, a read past the end is an assertion failure; \<^verbatim>\<open>MoveTo\<close>
  sets the cursor, \<^verbatim>\<open>GetReadOffset\<close> returns it, \<^verbatim>\<open>Reverse\<close> backs it up by one
  tag byte, \<^verbatim>\<open>AtEnd\<close> reports exhaustion, \<^verbatim>\<open>GetTotalSize\<close> is the number of
  bytes written. Multi-byte values are little-endian, as on the WebAssembly target.
\<close>

record DynamicTape =
  bytes :: "byte list"
  readPtr :: nat

definition ReadBytes :: "nat \<Rightarrow> DynamicTape \<Rightarrow> error + (byte list \<times> DynamicTape)" where
  "ReadBytes n tp =
     (if readPtr tp + n \<le> length (bytes tp)
      then Inr (take n (drop (readPtr tp) (bytes tp)), tp\<lparr>readPtr := readPtr tp + n\<rparr>)
      else Inl TapeReadPastEnd)"

definition Read_char :: "DynamicTape \<Rightarrow> error + (byte \<times> DynamicTape)" where
  "Read_char tp =
     (if readPtr tp < length (bytes tp)
      then Inr (bytes tp ! readPtr tp, tp\<lparr>readPtr := readPtr tp + 1\<rparr>)
      else Inl TapeReadPastEnd)"

definition Read_uint8 :: "DynamicTape \<Rightarrow> error + (nat \<times> DynamicTape)" where
  "Read_uint8 tp =
     (case Read_char tp of Inl e \<Rightarrow> Inl e | Inr (c, tp') \<Rightarrow> Inr (unat c, tp'))"

fun le_nat :: "byte list \<Rightarrow> nat" where
  "le_nat [] = 0"
| "le_nat (b # bs) = unat b + 256 * le_nat bs"

definition Read_uint32 :: "DynamicTape \<Rightarrow> error + (nat \<times> DynamicTape)" where
  "Read_uint32 tp =
     (case ReadBytes 4 tp of Inl e \<Rightarrow> Inl e | Inr (bs, tp') \<Rightarrow> Inr (le_nat bs, tp'))"

text \<open>A \<^verbatim>\<open>double\<close> is kept as the eight bytes of its IEEE-754 representation.\<close>

definition Read_double :: "DynamicTape \<Rightarrow> error + (byte list \<times> DynamicTape)" where
  "Read_double tp = ReadBytes 8 tp"

definition AdvanceRead :: "nat \<Rightarrow> DynamicTape \<Rightarrow> DynamicTape" where
  "AdvanceRead n tp = tp\<lparr>readPtr := readPtr tp + n\<rparr>"

definition ReadStringView :: "DynamicTape \<Rightarrow> error + (byte list \<times> DynamicTape)" where
  "ReadStringView tp =
     (case Read_uint8 tp of Inl e \<Rightarrow> Inl e | Inr (len, tp') \<Rightarrow> ReadBytes len tp')"

definition MoveTo :: "nat \<Rightarrow> DynamicTape \<Rightarrow> DynamicTape" where
  "MoveTo offset tp = tp\<lparr>readPtr := offset\<rparr>"

definition GetReadOffset :: "DynamicTape \<Rightarrow> nat" where
  "GetReadOffset tp = readPtr tp"

definition Reverse :: "DynamicTape \<Rightarrow> DynamicTape" where
  "Reverse tp = tp\<lparr>readPtr := readPtr tp - 1\<rparr>"

definition AtEnd :: "DynamicTape \<Rightarrow> bool" where
  "AtEnd tp = (length (bytes tp) \<le> readPtr tp)"

definition GetTotalSize :: "DynamicTape \<Rightarrow> nat" where
  "GetTotalSize tp = length (bytes tp)"

definition push :: "byte list \<Rightarrow> DynamicTape \<Rightarrow> DynamicTape" where
  "push data tp = tp\<lparr>bytes := bytes tp @ data\<rparr>"

section \<open>Lines and the argument cursor\<close>

text \<open>
  Modelled from the spec: the struct \<^verbatim>\<open>IfcLine\<close> (\<^verbatim>\<open>ifc-meta-data.h\<close>) is not
  among the sources; its fields are those \<^verbatim>\<open>UpdateLineTape\<close> assigns. All are
  \<^verbatim>\<open>uint32_t\<close>.
\<close>

record IfcLine =
  expressID :: nat
  lineIndex :: nat
  ifcType :: nat
  tapeOffset :: nat
  tapeEnd :: nat

text \<open>
  One pass of the \<^verbatim>\<open>while (true)\<close> loop of \<^verbatim>\<open>MoveToArgumentOffset\<close>: either the
  function returns (the inner \<open>Inl\<close>, with the tape) or the loop goes on with the new cursor,
  \<^verbatim>\<open>movedOver\<close> and \<^verbatim>\<open>setDepth\<close>. \<^verbatim>\<open>assert(false)\<close> on \<^verbatim>\<open>LINE_END\<close> is the error
  \<open>AssertionFailed\<close>.
\<close>

definition MoveToArgumentOffset_body ::
  "int \<Rightarrow> DynamicTape \<Rightarrow> int \<Rightarrow> int \<Rightarrow> error + (DynamicTape + DynamicTape \<times> int \<times> int)" where
  "MoveToArgumentOffset_body argumentIndex tp movedOver setDepth =
     (let movedOver' = (if setDepth = 1 then movedOver + 1 else movedOver) in
      if setDepth = 1 \<and> movedOver' = argumentIndex then Inr (Inl tp)
      else
        (case Read_char tp of
           Inl e \<Rightarrow> Inl e
         | Inr (c, tp1) \<Rightarrow>
             (let t = token_of_byte c in
              if t = Some LINE_END then Inl AssertionFailed
              else if t = Some UNKNOWN \<or> t = Some EMPTY then Inr (Inr (tp1, movedOver', setDepth))
              else if t = Some SET_BEGIN then Inr (Inr (tp1, movedOver', setDepth + 1))
              else if t = Some SET_END then
                (if setDepth - 1 = 0 then Inr (Inl tp1)
                 else Inr (Inr (tp1, movedOver', setDepth - 1)))
              else if t = Some STRING \<or> t = Some ENUM \<or> t = Some LABEL then
                (case Read_uint8 tp1 of
                   Inl e \<Rightarrow> Inl e
                 | Inr (len, tp2) \<Rightarrow> Inr (Inr (AdvanceRead len tp2, movedOver', setDepth)))
              else if t = Some REF then
                (case Read_uint32 tp1 of
                   Inl e \<Rightarrow> Inl e
                 | Inr (r, tp2) \<Rightarrow> Inr (Inr (tp2, movedOver', setDepth)))
              else if t = Some REAL then
                (case Read_double tp1 of
                   Inl e \<Rightarrow> Inl e
                 | Inr (d, tp2) \<Rightarrow> Inr (Inr (tp2, movedOver', setDepth)))
              else Inr (Inr (tp1, movedOver', setDepth)))))"

lemma Read_char_next:
  "Read_char tp = Inr (c, tp') \<Longrightarrow>
     bytes tp' = bytes tp \<and> readPtr tp' = readPtr tp + 1 \<and> readPtr tp < length (bytes tp)"
  by (auto simp: Read_char_def split: if_splits)

lemma ReadBytes_next:
  "ReadBytes n tp = Inr (bs, tp') \<Longrightarrow> bytes tp' = bytes tp \<and> readPtr tp' = readPtr tp + n"
  by (auto simp: ReadBytes_def split: if_splits)

lemma Read_uint8_next:
  "Read_uint8 tp = Inr (n, tp') \<Longrightarrow> bytes tp' = bytes tp \<and> readPtr tp' = readPtr tp + 1"
  by (auto simp: Read_uint8_def split: sum.splits dest: Read_char_next)

lemma Read_uint32_next:
  "Read_uint32 tp = Inr (n, tp') \<Longrightarrow> bytes tp' = bytes tp \<and> readPtr tp' = readPtr tp + 4"
  by (auto simp: Read_uint32_def split: sum.splits dest: ReadBytes_next)

lemma MoveToArgumentOffset_body_next:
  assumes "MoveToArgumentOffset_body i tp m d = Inr (Inr (tp', m', d'))"
  shows "bytes tp' = bytes tp \<and> readPtr tp < readPtr tp' \<and> readPtr tp < length (bytes tp)"
  using assms
  by (auto simp: MoveToArgumentOffset_body_def Let_def AdvanceRead_def Read_double_def
      split: if_splits sum.splits prod.splits
      dest!: Read_char_next Read_uint8_next Read_uint32_next ReadBytes_next)

function MoveToArgumentOffset_loop :: "int \<Rightarrow> DynamicTape \<Rightarrow> int \<Rightarrow> int \<Rightarrow> error + DynamicTape" where
  "MoveToArgumentOffset_loop argumentIndex tp movedOver setDepth =
     (case MoveToArgumentOffset_body argumentIndex tp movedOver setDepth of
        Inl e \<Rightarrow> Inl e
      | Inr (Inl tp') \<Rightarrow> Inr tp'
      | Inr (Inr (tp', movedOver', setDepth')) \<Rightarrow>
          MoveToArgumentOffset_loop argumentIndex tp' movedOver' setDepth')"
  by pat_completeness auto
termination
  by (relation "measure (\<lambda>(i, tp, m, d). length (bytes tp) - readPtr tp)")
     (auto dest!: MoveToArgumentOffset_body_next)

definition MoveToArgumentOffset :: "DynamicTape \<Rightarrow> IfcLine \<Rightarrow> int \<Rightarrow> error + DynamicTape" where
  "MoveToArgumentOffset tp line argumentIndex =
     MoveToArgumentOffset_loop argumentIndex (MoveTo (tapeOffset line) tp) (- 1) 0"

text \<open>
  One pass of the loop of \<^verbatim>\<open>GetSetArgument\<close>. The offset is a \<^verbatim>\<open>uint32_t\<close>; every
  token that is neither \<^verbatim>\<open>SET_BEGIN\<close> nor \<^verbatim>\<open>SET_END\<close> has its offset recorded,
  at any depth.
\<close>

definition GetSetArgument_body ::
  "DynamicTape \<Rightarrow> int \<Rightarrow> nat list \<Rightarrow> error + (DynamicTape \<times> int \<times> nat list)" where
  "GetSetArgument_body tp depth tapeOffsets =
     (let offset = GetReadOffset tp mod 2 ^ 32 in
      case Read_char tp of
        Inl e \<Rightarrow> Inl e
      | Inr (c, tp1) \<Rightarrow>
          (let t = token_of_byte c in
           if t = Some SET_BEGIN then Inr (tp1, depth + 1, tapeOffsets)
           else if t = Some SET_END then Inr (tp1, depth - 1, tapeOffsets)
           else
             (let tapeOffsets' = tapeOffsets @ [offset] in
              if t = Some REAL then
                (case Read_double tp1 of
                   Inl e \<Rightarrow> Inl e
                 | Inr (d, tp2) \<Rightarrow> Inr (tp2, depth, tapeOffsets'))
              else if t = Some REF then
                (case Read_uint32 tp1 of
                   Inl e \<Rightarrow> Inl e
                 | Inr (r, tp2) \<Rightarrow> Inr (tp2, depth, tapeOffsets'))
              else if t = Some STRING then
                (case Read_uint8 tp1 of
                   Inl e \<Rightarrow> Inl e
                 | Inr (len, tp2) \<Rightarrow> Inr (AdvanceRead len tp2, depth, tapeOffsets'))
              else if t = Some LABEL then
                (case Read_uint8 tp1 of
                   Inl e \<Rightarrow> Inl e
                 | Inr (len, tp2) \<Rightarrow> Inr (AdvanceRead len tp2, depth, tapeOffsets'))
              else Inl AssertionFailed)))"

lemma GetSetArgument_body_next:
  assumes "GetSetArgument_body tp d acc = Inr (tp', d', acc')"
  shows "bytes tp' = bytes tp \<and> readPtr tp < readPtr tp' \<and> readPtr tp < length (bytes tp)"
  using assms
  by (auto simp: GetSetArgument_body_def Let_def AdvanceRead_def Read_double_def
      split: if_splits sum.splits prod.splits
      dest!: Read_char_next Read_uint8_next Read_uint32_next ReadBytes_next)

function GetSetArgument_loop :: "DynamicTape \<Rightarrow> int \<Rightarrow> nat list \<Rightarrow> error + (nat list \<times> DynamicTape)" where
  "GetSetArgument_loop tp depth tapeOffsets =
     (case GetSetArgument_body tp depth tapeOffsets of
        Inl e \<Rightarrow> Inl e
      | Inr (tp', depth', tapeOffsets') \<Rightarrow>
          if depth' = 0 then Inr (tapeOffsets', tp')
          else GetSetArgument_loop tp' depth' tapeOffsets')"
  by pat_completeness auto
termination
  by (relation "measure (\<lambda>(tp, d, acc). length (bytes tp) - readPtr tp)")
     (auto dest!: GetSetArgument_body_next)

definition GetSetArgument :: "DynamicTape \<Rightarrow> error + (nat list \<times> DynamicTape)" where
  "GetSetArgument tp =
     (case Read_char tp of
        Inl e \<Rightarrow> Inl e
      | Inr (c, tp1) \<Rightarrow> GetSetArgument_loop tp1 1 [])"

section \<open>Token streams of argument lists\<close>

text \<open>
  Modelled from the spec: the tokenizer and the write path that put tokens on the tape
  are not among the sources. Section 3 of the specification gives the encoding: a tag
  byte, then for \<^verbatim>\<open>STRING\<close>, \<^verbatim>\<open>LABEL\<close> and \<^verbatim>\<open>ENUM\<close> a \<^verbatim>\<open>u8\<close> length and that many
  bytes, for \<^verbatim>\<open>REAL\<close> the eight bytes of an \<^verbatim>\<open>f64\<close>, for \<^verbatim>\<open>REF\<close> a \<^verbatim>\<open>u32\<close>. An
  argument is a token or a set of arguments between \<^verbatim>\<open>SET_BEGIN\<close> and \<^verbatim>\<open>SET_END\<close>.
\<close>

datatype arg =
    AUnknown | AString "byte list" | ALabel "byte list" | AEnum "byte list"
  | AReal "byte list" | ARef nat | AEmpty | ASet "arg list"

fun nat_le :: "nat \<Rightarrow> nat \<Rightarrow> byte list" where
  "nat_le 0 v = []"
| "nat_le (Suc n) v = of_nat (v mod 256) # nat_le n (v div 256)"

fun arg_bytes :: "arg \<Rightarrow> byte list" where
  "arg_bytes AUnknown = [token_code UNKNOWN]"
| "arg_bytes (AString s) = token_code STRING # of_nat (length s) # s"
| "arg_bytes (ALabel s) = token_code LABEL # of_nat (length s) # s"
| "arg_bytes (AEnum s) = token_code ENUM # of_nat (length s) # s"
| "arg_bytes (AReal d) = token_code REAL # d"
| "arg_bytes (ARef r) = token_code REF # nat_le 4 r"
| "arg_bytes AEmpty = [token_code EMPTY]"
| "arg_bytes (ASet xs) = token_code SET_BEGIN # concat (map arg_bytes xs) @ [token_code SET_END]"

definition args_bytes :: "arg list \<Rightarrow> byte list" where
  "args_bytes xs = concat (map arg_bytes xs)"

text \<open>Payloads that fit their fields: lengths fit a \<^verbatim>\<open>u8\<close>, handles a \<^verbatim>\<open>u32\<close>.\<close>

fun wf_arg :: "arg \<Rightarrow> bool" where
  "wf_arg (AString s) = (length s < 256)"
| "wf_arg (ALabel s) = (length s < 256)"
| "wf_arg (AEnum s) = (length s < 256)"
| "wf_arg (AReal d) = (length d = 8)"
| "wf_arg (ARef r) = (r < 2 ^ 32)"
| "wf_arg (ASet xs) = list_all wf_arg xs"
| "wf_arg _ = True"

fun is_leaf :: "arg \<Rightarrow> bool" where
  "is_leaf (ASet xs) = False"
| "is_leaf _ = True"

text \<open>
  A line on the tape at offset \<open>off\<close>: leaf tokens \<open>hdr\<close> before the argument list
  (none when the offset is that of the opening \<^verbatim>\<open>SET_BEGIN\<close>, the handle and the label
  when it is the start of the statement), then the arguments between \<^verbatim>\<open>SET_BEGIN\<close>
  and \<^verbatim>\<open>SET_END\<close>.
\<close>

definition line_at :: "byte list \<Rightarrow> nat \<Rightarrow> arg list \<Rightarrow> arg list \<Rightarrow> bool" where
  "line_at bs off hdr args \<longleftrightarrow>
     list_all is_leaf hdr \<and> list_all wf_arg hdr \<and> list_all wf_arg args \<and>
     off + length (args_bytes hdr @ arg_bytes (ASet args)) \<le> length bs \<and>
     take (length (args_bytes hdr @ arg_bytes (ASet args))) (drop off bs) =
       args_bytes hdr @ arg_bytes (ASet args)"

text \<open>The offset of the tag byte of argument \<open>k\<close>; for \<open>k = length args\<close>, of the closing \<^verbatim>\<open>SET_END\<close>.\<close>

definition arg_offset :: "nat \<Rightarrow> arg list \<Rightarrow> arg list \<Rightarrow> nat \<Rightarrow> nat" where
  "arg_offset off hdr args k = off + length (args_bytes hdr) + 1 + length (args_bytes (take k args))"

definition counted :: "int \<Rightarrow> int \<Rightarrow> int" where
  "counted d m = (if d = 1 then m + 1 else m)"


text \<open>The tokens whose payload \<^verbatim>\<open>GetSetArgument\<close> skips; every other one hits \<^verbatim>\<open>assert(false)\<close>.\<close>

fun getset_ok :: "arg \<Rightarrow> bool" where
  "getset_ok (AReal d) = True"
| "getset_ok (ARef r) = True"
| "getset_ok (AString s) = True"
| "getset_ok (ALabel s) = True"
| "getset_ok (ASet xs) = list_all getset_ok xs"
| "getset_ok _ = False"

text \<open>The offsets of the top-level elements of a set whose first element starts at \<open>p\<close>.\<close>

fun top_offsets :: "nat \<Rightarrow> arg list \<Rightarrow> nat list" where
  "top_offsets p [] = []"
| "top_offsets p (x # xs) = p # top_offsets (p + length (arg_bytes x)) xs"

text \<open>The offsets of all tokens that are no set delimiters, at every depth, in tape order.\<close>

function leaf_offsets :: "nat \<Rightarrow> arg list \<Rightarrow> nat list" where
  "leaf_offsets p [] = []"
| "leaf_offsets p (x # xs) =
     (case x of
        ASet ys \<Rightarrow> leaf_offsets (p + 1) ys
      | _ \<Rightarrow> [p]) @ leaf_offsets (p + length (arg_bytes x)) xs"
  by pat_completeness auto
termination
  by (relation "measure (\<lambda>(p, xs). size_list size xs)") auto

section \<open>The loader and its indices\<close>

text \<open>
  Sequencing of calls that may fail: the first error ends the run, as an assertion
  failure or an out-of-range access ends the program.
\<close>

definition ebind :: "error + 'a \<Rightarrow> ('a \<Rightarrow> error + 'b) \<Rightarrow> error + 'b" where
  "ebind m f = (case m of Inl e \<Rightarrow> Inl e | Inr x \<Rightarrow> f x)"

fun for_each :: "('a \<Rightarrow> 's \<Rightarrow> error + 's) \<Rightarrow> 'a list \<Rightarrow> 's \<Rightarrow> error + 's" where
  "for_each f [] s = Inr s"
| "for_each f (x # xs) s = ebind (f x s) (for_each f xs)"

record LoaderSettings =
  COORDINATE_TO_ORIGIN :: bool
  USE_FAST_BOOLS :: bool
  DUMP_CSG_MESHES :: bool
  CIRCLE_SEGMENTS_LOW :: int
  CIRCLE_SEGMENTS_MEDIUM :: int
  CIRCLE_SEGMENTS_HIGH :: int
  MESH_CACHE :: bool

text \<open>
  Modelled from the spec: the struct \<^verbatim>\<open>IfcMetaData\<close> (\<^verbatim>\<open>ifc-meta-data.h\<close>) is not
  among the sources. Its members are those the loader uses: the line table, the vector
  from handles to line IDs (0 where a handle has no line), the type index and the five
  relationship maps (an \<^verbatim>\<open>unordered_map\<close> whose \<^verbatim>\<open>operator[]\<close> yields an empty vector
  for a new key is a total function), and the scaling factor, 1 by default (section 3).
\<close>

record IfcMetaData =
  lines :: "IfcLine list"
  expressIDToLine :: "nat list"
  ifcTypeToLineID :: "nat \<Rightarrow> nat list"
  relVoids :: "nat \<Rightarrow> nat list"
  relAggregates :: "nat \<Rightarrow> nat list"
  styledItems :: "nat \<Rightarrow> (nat \<times> nat) list"
  relMaterials :: "nat \<Rightarrow> (nat \<times> nat) list"
  materialDefinitions :: "nat \<Rightarrow> (nat \<times> nat) list"
  linearScalingFactor :: real

definition IfcMetaData_init :: IfcMetaData where
  "IfcMetaData_init =
     \<lparr>lines = [], expressIDToLine = [], ifcTypeToLineID = (\<lambda>t. []),
      relVoids = (\<lambda>h. []), relAggregates = (\<lambda>h. []), styledItems = (\<lambda>h. []),
      relMaterials = (\<lambda>h. []), materialDefinitions = (\<lambda>h. []), linearScalingFactor = 1\<rparr>"

text \<open>The class \<^verbatim>\<open>IfcLoader\<close>: its four private members (\<open>open_flag\<close> is \<^verbatim>\<open>_open\<close>).\<close>

record IfcLoader =
  open_flag :: bool
  tape :: DynamicTape
  settings :: LoaderSettings
  metaData :: IfcMetaData

definition IfcLoader_init :: "LoaderSettings \<Rightarrow> IfcLoader" where
  "IfcLoader_init s =
     \<lparr>open_flag = False, tape = \<lparr>bytes = [], readPtr = 0\<rparr>, settings = s,
      metaData = IfcMetaData_init\<rparr>"

definition IsOpen :: "IfcLoader \<Rightarrow> bool" where
  "IsOpen s = open_flag s"

definition ExpressIDToLineID :: "IfcLoader \<Rightarrow> nat \<Rightarrow> error + nat" where
  "ExpressIDToLineID s eid =
     (if eid < length (expressIDToLine (metaData s))
      then Inr (expressIDToLine (metaData s) ! eid) else Inl IndexOutOfRange)"

definition GetLine :: "IfcLoader \<Rightarrow> nat \<Rightarrow> error + IfcLine" where
  "GetLine s lineID =
     (if lineID < length (lines (metaData s))
      then Inr (lines (metaData s) ! lineID) else Inl IndexOutOfRange)"

definition GetLineIDsWithType :: "IfcLoader \<Rightarrow> nat \<Rightarrow> nat list" where
  "GetLineIDsWithType s type = ifcTypeToLineID (metaData s) type"

fun transform :: "('a \<Rightarrow> error + 'b) \<Rightarrow> 'a list \<Rightarrow> error + 'b list" where
  "transform f [] = Inr []"
| "transform f (x # xs) = ebind (f x) (\<lambda>y. ebind (transform f xs) (\<lambda>ys. Inr (y # ys)))"

definition GetExpressIDsWithType :: "IfcLoader \<Rightarrow> nat \<Rightarrow> error + nat list" where
  "GetExpressIDsWithType s type =
     transform (\<lambda>lineID. ebind (GetLine s lineID) (\<lambda>line. Inr (expressID line)))
       (ifcTypeToLineID (metaData s) type)"

text \<open>\<^verbatim>\<open>std::vector::resize\<close>: cut or filled with zeros.\<close>

definition resize :: "nat \<Rightarrow> nat list \<Rightarrow> nat list" where
  "resize n xs = take n xs @ replicate (n - length xs) 0"

text \<open>
  \<^verbatim>\<open>UpdateLineTape\<close>. The handle is a \<^verbatim>\<open>uint32_t\<close>, so \<^verbatim>\<open>expressID * 2\<close> wraps at
  \<open>2 ^ 32\<close>; an index beyond the size of a vector is the error \<open>IndexOutOfRange\<close>.
\<close>

definition UpdateLineTape :: "nat \<Rightarrow> nat \<Rightarrow> nat \<Rightarrow> nat \<Rightarrow> IfcLoader \<Rightarrow> error + IfcLoader" where
  "UpdateLineTape eid type start end s =
     (let md = metaData s in
      ebind
        (if eid \<ge> length (expressIDToLine md) \<or> expressIDToLine md ! eid = 0 then
           (let tbl = resize ((eid * 2) mod 2 ^ 32) (expressIDToLine md);
                lineID = length (lines md);
                line = \<lparr>expressID = eid, lineIndex = lineID, ifcType = type,
                        tapeOffset = 0, tapeEnd = 0\<rparr>
            in if eid < length tbl
               then Inr (md\<lparr>expressIDToLine := tbl[eid := lineID],
                           lines := lines md @ [line],
                           ifcTypeToLineID := (ifcTypeToLineID md)
                             (type := ifcTypeToLineID md type @ [lineID])\<rparr>)
               else Inl IndexOutOfRange)
         else Inr md)
        (\<lambda>md1.
           let lineID = expressIDToLine md1 ! eid in
           if lineID < length (lines md1)
           then Inr (s\<lparr>metaData := md1\<lparr>lines := (lines md1)
                       [lineID := (lines md1 ! lineID)\<lparr>tapeOffset := start, tapeEnd := end\<rparr>]\<rparr>\<rparr>)
           else Inl IndexOutOfRange))"

text \<open>The default member initialisers of \<^verbatim>\<open>LoaderSettings\<close>.\<close>

definition default_settings :: LoaderSettings where
  "default_settings =
     \<lparr>COORDINATE_TO_ORIGIN = False, USE_FAST_BOOLS = False, DUMP_CSG_MESHES = False,
      CIRCLE_SEGMENTS_LOW = 5, CIRCLE_SEGMENTS_MEDIUM = 8, CIRCLE_SEGMENTS_HIGH = 12,
      MESH_CACHE = False\<rparr>"

text \<open>A run of \<^verbatim>\<open>UpdateLineTape\<close> calls, each given as (handle, type, start, end).\<close>

definition UpdateLineTape_calls :: "(nat \<times> nat \<times> nat \<times> nat) list \<Rightarrow> IfcLoader \<Rightarrow> error + IfcLoader" where
  "UpdateLineTape_calls = for_each (\<lambda>(eid, type, start, end). UpdateLineTape eid type start end)"

text \<open>The type index lists, for every type, the line IDs of the lines of that type, in order.\<close>

definition type_index_ok :: "IfcMetaData \<Rightarrow> bool" where
  "type_index_ok md \<longleftrightarrow>
     (\<forall>T. ifcTypeToLineID md T =
        filter (\<lambda>i. ifcType (lines md ! i) = T) [0..<length (lines md)])"


section \<open>The typed readers and the relationship passes\<close>

text \<open>The typed readers consume one tag byte, which they do not check, and the payload.\<close>

definition GetTokenType :: "DynamicTape \<Rightarrow> error + (IfcTokenType option \<times> DynamicTape)" where
  "GetTokenType tp = ebind (Read_char tp) (\<lambda>(c, tp1). Inr (token_of_byte c, tp1))"

definition string_of_bytes :: "byte list \<Rightarrow> string" where
  "string_of_bytes bs = map (\<lambda>b. char_of (unat b)) bs"

definition GetStringArgument :: "DynamicTape \<Rightarrow> error + (string \<times> DynamicTape)" where
  "GetStringArgument tp =
     ebind (Read_char tp) (\<lambda>(c, tp1).
     ebind (ReadStringView tp1) (\<lambda>(view, tp2). Inr (string_of_bytes view, tp2)))"

definition GetDoubleArgument :: "DynamicTape \<Rightarrow> error + (byte list \<times> DynamicTape)" where
  "GetDoubleArgument tp = ebind (Read_char tp) (\<lambda>(c, tp1). Read_double tp1)"

definition GetRefArgument :: "DynamicTape \<Rightarrow> error + (nat \<times> DynamicTape)" where
  "GetRefArgument tp = ebind (Read_char tp) (\<lambda>(c, tp1). Read_uint32 tp1)"

definition GetRefArgument_at :: "nat \<Rightarrow> DynamicTape \<Rightarrow> error + (nat \<times> DynamicTape)" where
  "GetRefArgument_at offset tp = GetRefArgument (MoveTo offset tp)"

text \<open>
  The type codes of \<^verbatim>\<open>ifc2x4.h\<close>, which is not among the sources, are parameters of
  the passes.
\<close>

record ifc2x4 =
  IFCPROJECT :: nat
  IFCSIUNIT :: nat
  IFCRELVOIDSELEMENT :: nat
  IFCRELAGGREGATES :: nat
  IFCSTYLEDITEM :: nat
  IFCRELASSOCIATESMATERIAL :: nat
  IFCMATERIALDEFINITIONREPRESENTATION :: nat

definition PopulateRelVoidsMap_line :: "nat \<Rightarrow> IfcLoader \<Rightarrow> error + IfcLoader" where
  "PopulateRelVoidsMap_line relVoidID s =
     ebind (ExpressIDToLineID s relVoidID) (\<lambda>lineID.
     ebind (GetLine s lineID) (\<lambda>line.
     ebind (MoveToArgumentOffset (tape s) line 4) (\<lambda>tp1.
     ebind (GetRefArgument tp1) (\<lambda>(relatingBuildingElement, tp2).
     ebind (GetRefArgument tp2) (\<lambda>(relatedOpeningElement, tp3).
       Inr (s\<lparr>tape := tp3,
              metaData := (metaData s)\<lparr>relVoids := (relVoids (metaData s))
                (relatingBuildingElement :=
                   relVoids (metaData s) relatingBuildingElement @ [relatedOpeningElement])\<rparr>\<rparr>))))))"

definition PopulateRelVoidsMap :: "ifc2x4 \<Rightarrow> IfcLoader \<Rightarrow> error + IfcLoader" where
  "PopulateRelVoidsMap codes s =
     ebind (GetExpressIDsWithType s (IFCRELVOIDSELEMENT codes)) (\<lambda>relVoids.
       for_each PopulateRelVoidsMap_line relVoids s)"

definition PopulateRelAggregatesMap_line :: "nat \<Rightarrow> IfcLoader \<Rightarrow> error + IfcLoader" where
  "PopulateRelAggregatesMap_line relVoidID s =
     ebind (ExpressIDToLineID s relVoidID) (\<lambda>lineID.
     ebind (GetLine s lineID) (\<lambda>line.
     ebind (MoveToArgumentOffset (tape s) line 4) (\<lambda>tp1.
     ebind (GetRefArgument tp1) (\<lambda>(relatingBuildingElement, tp2).
     ebind (GetSetArgument tp2) (\<lambda>(aggregates, tp3).
       for_each (\<lambda>aggregate s1.
           ebind (GetRefArgument_at aggregate (tape s1)) (\<lambda>(aggregateID, tp4).
             Inr (s1\<lparr>tape := tp4,
                     metaData := (metaData s1)\<lparr>relAggregates := (relAggregates (metaData s1))
                       (relatingBuildingElement :=
                          relAggregates (metaData s1) relatingBuildingElement @ [aggregateID])\<rparr>\<rparr>)))
         aggregates (s\<lparr>tape := tp3\<rparr>))))))"

definition PopulateRelAggregatesMap :: "ifc2x4 \<Rightarrow> IfcLoader \<Rightarrow> error + IfcLoader" where
  "PopulateRelAggregatesMap codes s =
     ebind (GetExpressIDsWithType s (IFCRELAGGREGATES codes)) (\<lambda>relVoids.
       for_each PopulateRelAggregatesMap_line relVoids s)"

text \<open>
  The body of the loop of \<^verbatim>\<open>PopulateStyledItemMap\<close>. After the handle of the
  representation item is read, its line is looked up (and not used), and the set is read
  where the cursor stands.
\<close>

definition PopulateStyledItemMap_line :: "nat \<Rightarrow> IfcLoader \<Rightarrow> error + IfcLoader" where
  "PopulateStyledItemMap_line styledItemID s =
     ebind (ExpressIDToLineID s styledItemID) (\<lambda>lineID.
     ebind (GetLine s lineID) (\<lambda>line.
     ebind (MoveToArgumentOffset (tape s) line 0) (\<lambda>tp1.
     ebind (GetTokenType tp1) (\<lambda>(t, tp2).
       if t = Some REF then
         ebind (GetRefArgument (Reverse tp2)) (\<lambda>(representationItem, tp3).
         ebind (ExpressIDToLineID s representationItem) (\<lambda>lineID'.
         ebind (GetLine s lineID') (\<lambda>line'.
         ebind (GetSetArgument tp3) (\<lambda>(styleAssignments, tp4).
           for_each (\<lambda>styleAssignment s1.
               ebind (GetRefArgument_at styleAssignment (tape s1)) (\<lambda>(styleAssignmentID, tp5).
                 Inr (s1\<lparr>tape := tp5,
                         metaData := (metaData s1)\<lparr>styledItems := (styledItems (metaData s1))
                           (representationItem :=
                              styledItems (metaData s1) representationItem @
                                [(styledItemID, styleAssignmentID)])\<rparr>\<rparr>)))
             styleAssignments (s\<lparr>tape := tp4\<rparr>)))))
       else Inr (s\<lparr>tape := tp2\<rparr>)))))"

definition PopulateStyledItemMap :: "ifc2x4 \<Rightarrow> IfcLoader \<Rightarrow> error + IfcLoader" where
  "PopulateStyledItemMap codes s =
     ebind (GetExpressIDsWithType s (IFCSTYLEDITEM codes)) (\<lambda>styledItems.
       for_each PopulateStyledItemMap_line styledItems s)"

definition PopulateRelMaterialsMap_line :: "nat \<Rightarrow> IfcLoader \<Rightarrow> error + IfcLoader" where
  "PopulateRelMaterialsMap_line styledItemID s =
     ebind (ExpressIDToLineID s styledItemID) (\<lambda>lineID.
     ebind (GetLine s lineID) (\<lambda>line.
     ebind (MoveToArgumentOffset (tape s) line 5) (\<lambda>tp1.
     ebind (GetRefArgument tp1) (\<lambda>(materialSelect, tp2).
     ebind (MoveToArgumentOffset tp2 line 4) (\<lambda>tp3.
     ebind (GetSetArgument tp3) (\<lambda>(RelatedObjects, tp4).
       for_each (\<lambda>ifcRoot s1.
           ebind (GetRefArgument_at ifcRoot (tape s1)) (\<lambda>(ifcRootID, tp5).
             Inr (s1\<lparr>tape := tp5,
                     metaData := (metaData s1)\<lparr>relMaterials := (relMaterials (metaData s1))
                       (ifcRootID :=
                          relMaterials (metaData s1) ifcRootID @ [(styledItemID, materialSelect)])\<rparr>\<rparr>)))
         RelatedObjects (s\<lparr>tape := tp4\<rparr>)))))))"

definition PopulateMaterialDefinitions_line :: "nat \<Rightarrow> IfcLoader \<Rightarrow> error + IfcLoader" where
  "PopulateMaterialDefinitions_line styledItemID s =
     ebind (ExpressIDToLineID s styledItemID) (\<lambda>lineID.
     ebind (GetLine s lineID) (\<lambda>line.
     ebind (MoveToArgumentOffset (tape s) line 2) (\<lambda>tp1.
     ebind (GetSetArgument tp1) (\<lambda>(representations, tp2).
     ebind (MoveToArgumentOffset tp2 line 3) (\<lambda>tp3.
     ebind (GetRefArgument tp3) (\<lambda>(material, tp4).
       for_each (\<lambda>representation s1.
           ebind (GetRefArgument_at representation (tape s1)) (\<lambda>(representationID, tp5).
             Inr (s1\<lparr>tape := tp5,
                     metaData := (metaData s1)\<lparr>materialDefinitions :=
                       (materialDefinitions (metaData s1))
                       (material :=
                          materialDefinitions (metaData s1) material @
                            [(styledItemID, representationID)])\<rparr>\<rparr>)))
         representations (s\<lparr>tape := tp4\<rparr>)))))))"

definition PopulateRelMaterialsMap :: "ifc2x4 \<Rightarrow> IfcLoader \<Rightarrow> error + IfcLoader" where
  "PopulateRelMaterialsMap codes s =
     ebind (GetExpressIDsWithType s (IFCRELASSOCIATESMATERIAL codes)) (\<lambda>styledItems.
     ebind (for_each PopulateRelMaterialsMap_line styledItems s) (\<lambda>s1.
     ebind (GetExpressIDsWithType s1 (IFCMATERIALDEFINITIONREPRESENTATION codes)) (\<lambda>matDefs.
       for_each PopulateMaterialDefinitions_line matDefs s1)))"


section \<open>Unit scaling\<close>

text \<open>
  \<^verbatim>\<open>ConvertPrefix\<close>. A \<^verbatim>\<open>double\<close> literal of the source is the real number it names.
\<close>

definition ConvertPrefix :: "string \<Rightarrow> real" where
  "ConvertPrefix prefix =
     (if prefix = '''' then 1
      else if prefix = ''EXA'' then 10 ^ 18
      else if prefix = ''PETA'' then 10 ^ 15
      else if prefix = ''TERA'' then 10 ^ 12
      else if prefix = ''GIGA'' then 10 ^ 9
      else if prefix = ''MEGA'' then 10 ^ 6
      else if prefix = ''KILO'' then 10 ^ 3
      else if prefix = ''HECTO'' then 10 ^ 2
      else if prefix = ''DECA'' then 10
      else if prefix = ''DECI'' then 1 / 10
      else if prefix = ''CENTI'' then 1 / 10 ^ 2
      else if prefix = ''MILLI'' then 1 / 10 ^ 3
      else if prefix = ''MICRO'' then 1 / 10 ^ 6
      else if prefix = ''NANO'' then 1 / 10 ^ 9
      else if prefix = ''PICO'' then 1 / 10 ^ 12
      else if prefix = ''FEMTO'' then 1 / 10 ^ 15
      else if prefix = ''ATTO'' then 1 / 10 ^ 18
      else 1)"

text \<open>The body of the loop over the units of \<^verbatim>\<open>ReadLinearScalingFactor\<close>.\<close>

definition ReadLinearScalingFactor_unit :: "ifc2x4 \<Rightarrow> nat \<Rightarrow> IfcLoader \<Rightarrow> error + IfcLoader" where
  "ReadLinearScalingFactor_unit codes unitID s =
     ebind (GetRefArgument_at unitID (tape s)) (\<lambda>(unitRef, tp1).
     ebind (ExpressIDToLineID s unitRef) (\<lambda>lineID.
     ebind (GetLine s lineID) (\<lambda>line.
       if ifcType line = IFCSIUNIT codes then
         ebind (MoveToArgumentOffset tp1 line 1) (\<lambda>tp2.
         ebind (GetStringArgument tp2) (\<lambda>(unitType, tp3).
         ebind (MoveToArgumentOffset tp3 line 2) (\<lambda>tp4.
         ebind (GetTokenType tp4) (\<lambda>(t, tp5).
         ebind (if t = Some ENUM then GetStringArgument (Reverse tp5) else Inr ('''', tp5))
           (\<lambda>(unitPrefix, tp6).
         ebind (MoveToArgumentOffset tp6 line 3) (\<lambda>tp7.
         ebind (GetStringArgument tp7) (\<lambda>(unitName, tp8).
           if unitType = ''LENGTHUNIT'' \<and> unitName = ''METRE''
           then Inr (s\<lparr>tape := tp8,
                       metaData := (metaData s)\<lparr>linearScalingFactor := ConvertPrefix unitPrefix\<rparr>\<rparr>)
           else Inr (s\<lparr>tape := tp8\<rparr>))))))))
       else Inr (s\<lparr>tape := tp1\<rparr>))))"

definition ReadLinearScalingFactor :: "ifc2x4 \<Rightarrow> IfcLoader \<Rightarrow> error + IfcLoader" where
  "ReadLinearScalingFactor codes s =
     ebind (GetExpressIDsWithType s (IFCPROJECT codes)) (\<lambda>projects.
       if length projects \<noteq> 1 then Inr s
       else
         (let projectEID = projects ! 0 in
          ebind (ExpressIDToLineID s projectEID) (\<lambda>lineID.
          ebind (GetLine s lineID) (\<lambda>line.
          ebind (MoveToArgumentOffset (tape s) line 8) (\<lambda>tp1.
          ebind (GetRefArgument tp1) (\<lambda>(unitsID, tp2).
          ebind (ExpressIDToLineID s unitsID) (\<lambda>unitsLineID.
          ebind (GetLine s unitsLineID) (\<lambda>unitsLine.
          ebind (MoveToArgumentOffset tp2 unitsLine 0) (\<lambda>tp3.
          ebind (GetSetArgument tp3) (\<lambda>(unitIds, tp4).
            for_each (ReadLinearScalingFactor_unit codes) unitIds (s\<lparr>tape := tp4\<rparr>)))))))))))"

section \<open>Loading and serialising\<close>

text \<open>
  The tokenizer, the parser and the stream insertion of a \<^verbatim>\<open>double\<close> are not among
  the sources. They are parameters: \<open>Tokenize\<close> and \<open>ParseTape\<close> are given the members
  the objects are constructed with (the tape; the tape and the meta data), and
  \<open>format_double\<close> is given the precision of the stream and the value.
\<close>

record collaborators =
  codes :: ifc2x4
  Tokenize :: "string \<Rightarrow> DynamicTape \<Rightarrow> error + (nat \<times> DynamicTape)"
  ParseTape :: "nat \<Rightarrow> DynamicTape \<Rightarrow> IfcMetaData \<Rightarrow> error + (DynamicTape \<times> IfcMetaData)"
  format_double :: "nat \<Rightarrow> byte list \<Rightarrow> string"

definition LoadFile :: "collaborators \<Rightarrow> string \<Rightarrow> IfcLoader \<Rightarrow> error + IfcLoader" where
  "LoadFile env content s =
     ebind (Tokenize env content (tape s)) (\<lambda>(numLines, tp1).
     ebind (ParseTape env numLines tp1 (metaData s)) (\<lambda>(tp2, md).
     ebind (PopulateRelVoidsMap (codes env) (s\<lparr>tape := tp2, metaData := md\<rparr>)) (\<lambda>s1.
     ebind (PopulateRelAggregatesMap (codes env) s1) (\<lambda>s2.
     ebind (PopulateStyledItemMap (codes env) s2) (\<lambda>s3.
     ebind (PopulateRelMaterialsMap (codes env) s3) (\<lambda>s4.
       ReadLinearScalingFactor (codes env) s4))))))"

text \<open>Decimal digits of a \<^verbatim>\<open>uint32_t\<close>, as the stream prints it.\<close>

function show_nat :: "nat \<Rightarrow> string" where
  "show_nat n =
     (if n < 10 then [char_of (48 + n)]
      else show_nat (n div 10) @ [char_of (48 + n mod 10)])"
  by pat_completeness auto
termination
  by (relation "measure (\<lambda>n. n)") auto

definition endl :: string where
  "endl = [CHR 0x0A]"

definition quote :: string where
  "quote = [CHR 0x27]"

text \<open>
  \<^verbatim>\<open>std::numeric_limits<double>::digits10\<close> is 15 for an IEEE-754 \<^verbatim>\<open>double\<close>; the stream
  of \<^verbatim>\<open>DumpAsIFC\<close> is set to one digit more.
\<close>

definition digits10 :: nat where
  "digits10 = 15"

definition DumpAsIFC_precision :: nat where
  "DumpAsIFC_precision = digits10 + 1"

definition DumpAsIFC_header :: string where
  "DumpAsIFC_header =
     (let description = ''no description''; name = ''no name'' in
      ''ISO-10303-21;'' @ endl @
      ''HEADER;'' @ endl @
      ''FILE_DESCRIPTION(('' @ quote @ description @ ''), '' @ quote @ ''2;1'' @ quote @ '');'' @ endl @
      ''FILE_NAME('' @ quote @ name @ quote @ '', '' @ quote @ quote @ '', ('' @ quote @ quote @
        ''), ('' @ quote @ quote @ ''), '' @ quote @ ''web-ifc-export'' @ quote @ '');'' @ endl @
      ''FILE_SCHEMA(('' @ quote @ ''IFC2X3'' @ quote @ ''));'' @ endl @
      ''ENDSEC;'' @ endl @
      ''DATA;'' @ endl)"

definition DumpAsIFC_footer :: string where
  "DumpAsIFC_footer = ''ENDSEC;'' @ endl @ ''END-ISO-10303-21;''"

text \<open>
  The \<^verbatim>\<open>switch\<close> of the inner loop of \<^verbatim>\<open>DumpAsIFC\<close>: the text of one token that is
  no \<^verbatim>\<open>LINE_END\<close>, with the tape behind its payload and the new \<^verbatim>\<open>insideSet\<close>.
\<close>

definition DumpAsIFC_switch ::
  "(byte list \<Rightarrow> string) \<Rightarrow> IfcTokenType option \<Rightarrow> DynamicTape \<Rightarrow> bool \<Rightarrow> bool \<Rightarrow> string \<Rightarrow>
     error + (DynamicTape \<times> bool \<times> string)" where
  "DumpAsIFC_switch fmt t tp newLine insideSet file =
     (if t = Some UNKNOWN then Inr (tp, insideSet, file @ ''*'')
      else if t = Some EMPTY then Inr (tp, insideSet, file @ ''$'')
      else if t = Some SET_BEGIN then Inr (tp, True, file @ ''('')
      else if t = Some SET_END then Inr (tp, insideSet, file @ '')'')
      else if t = Some STRING then
        ebind (ReadStringView tp) (\<lambda>(view, tp').
          Inr (tp', insideSet, file @ quote @ string_of_bytes view @ quote))
      else if t = Some ENUM then
        ebind (ReadStringView tp) (\<lambda>(view, tp').
          Inr (tp', insideSet, file @ ''.'' @ string_of_bytes view @ ''.''))
      else if t = Some LABEL then
        ebind (ReadStringView tp) (\<lambda>(view, tp').
          Inr (tp', insideSet, file @ string_of_bytes view))
      else if t = Some REF then
        ebind (Read_uint32 tp) (\<lambda>(ref, tp').
          Inr (tp', insideSet, file @ ''#'' @ show_nat ref @ (if newLine then ''='' else '''')))
      else if t = Some REAL then
        ebind (Read_double tp) (\<lambda>(d, tp'). Inr (tp', insideSet, file @ fmt d))
      else Inr (tp, insideSet, file))"

text \<open>
  One pass of the inner loop of \<^verbatim>\<open>DumpAsIFC\<close>, after the test of \<^verbatim>\<open>AtEnd\<close>: the result
  says whether the loop goes on (\<open>False\<close> after \<^verbatim>\<open>break\<close>), and carries the tape,
  \<^verbatim>\<open>newLine\<close>, \<^verbatim>\<open>insideSet\<close>, \<^verbatim>\<open>prev\<close> and the text written so far.
\<close>

definition DumpAsIFC_token ::
  "(byte list \<Rightarrow> string) \<Rightarrow> DynamicTape \<Rightarrow> bool \<Rightarrow> bool \<Rightarrow> IfcTokenType option \<Rightarrow> string \<Rightarrow>
     error + (bool \<times> DynamicTape \<times> bool \<times> bool \<times> IfcTokenType option \<times> string)" where
  "DumpAsIFC_token fmt tp newLine insideSet prev file =
     ebind (Read_char tp) (\<lambda>(c, tp1).
       let t = token_of_byte c;
           file1 = (if t \<noteq> Some SET_END \<and> t \<noteq> Some LINE_END \<and> insideSet \<and>
                       prev \<noteq> Some SET_BEGIN \<and> prev \<noteq> Some LABEL \<and> prev \<noteq> Some LINE_END
                    then file @ '','' else file)
       in
       if t = Some LINE_END then Inr (False, tp1, newLine, insideSet, prev, file1 @ '';'' @ endl)
       else
         ebind (DumpAsIFC_switch fmt t tp1 newLine insideSet file1)
           (\<lambda>(tp2, insideSet', file2). Inr (True, tp2, False, insideSet', t, file2)))"

lemma ebind_Inr_iff: "ebind m f = Inr y \<longleftrightarrow> (\<exists>x. m = Inr x \<and> f x = Inr y)"
  by (cases m) (simp_all add: ebind_def)

lemma ebind_InrE:
  assumes "ebind m f = Inr y"
  obtains x where "m = Inr x" "f x = Inr y"
  using assms by (cases m) (simp_all add: ebind_def)

lemma ReadStringView_next:
  "ReadStringView tp = Inr (view, tp') \<Longrightarrow> bytes tp' = bytes tp \<and> readPtr tp < readPtr tp'"
  by (auto simp: ReadStringView_def split: sum.splits dest!: Read_uint8_next ReadBytes_next)

lemma DumpAsIFC_switch_next:
  assumes "DumpAsIFC_switch fmt t tp newLine insideSet file = Inr (tp', rest)"
  shows "bytes tp' = bytes tp \<and> readPtr tp \<le> readPtr tp'"
proof -
  consider (plain) "tp' = tp"
    | (str) view where "ReadStringView tp = Inr (view, tp')"
    | (ref) r where "Read_uint32 tp = Inr (r, tp')"
    | (real) d where "ReadBytes 8 tp = Inr (d, tp')"
    using assms unfolding DumpAsIFC_switch_def Read_double_def
    by (fastforce elim!: ebind_InrE split: if_splits)
  then show ?thesis
  proof cases
    case plain then show ?thesis by simp
  next
    case str then show ?thesis using ReadStringView_next by fastforce
  next
    case ref then show ?thesis using Read_uint32_next by fastforce
  next
    case real then show ?thesis using ReadBytes_next by fastforce
  qed
qed

lemma DumpAsIFC_token_next:
  assumes "DumpAsIFC_token fmt tp newLine insideSet prev file = Inr (continue, tp', rest)"
  shows "bytes tp' = bytes tp \<and> readPtr tp < readPtr tp' \<and> readPtr tp < length (bytes tp)"
proof -
  obtain c tp1 where rd: "Read_char tp = Inr (c, tp1)"
    using assms by (auto simp: DumpAsIFC_token_def ebind_Inr_iff)
  note n1 = Read_char_next [OF rd]
  show ?thesis
  proof (cases "token_of_byte c = Some LINE_END")
    case True
    then have "tp' = tp1" using assms rd by (simp add: DumpAsIFC_token_def ebind_def Let_def)
    then show ?thesis using n1 by simp
  next
    case False
    then obtain f1 ins f2 where "DumpAsIFC_switch fmt (token_of_byte c) tp1 newLine insideSet f1 =
        Inr (tp', ins, f2)"
      using assms rd by (auto simp: DumpAsIFC_token_def ebind_Inr_iff Let_def)
    then show ?thesis using n1 DumpAsIFC_switch_next by fastforce
  qed
qed

text \<open>
  The inner loop of \<^verbatim>\<open>DumpAsIFC\<close>: it ends at the end of the tape or behind the first
  \<^verbatim>\<open>LINE_END\<close>.
\<close>

function DumpAsIFC_line_loop ::
  "(byte list \<Rightarrow> string) \<Rightarrow> DynamicTape \<Rightarrow> bool \<Rightarrow> bool \<Rightarrow> IfcTokenType option \<Rightarrow> string \<Rightarrow>
     error + (DynamicTape \<times> string)" where
  "DumpAsIFC_line_loop fmt tp newLine insideSet prev file =
     (if AtEnd tp then Inr (tp, file)
      else
        (case DumpAsIFC_token fmt tp newLine insideSet prev file of
           Inl e \<Rightarrow> Inl e
         | Inr (continue, tp', newLine', insideSet', prev', file') \<Rightarrow>
             if continue then DumpAsIFC_line_loop fmt tp' newLine' insideSet' prev' file'
             else Inr (tp', file')))"
  by pat_completeness auto
termination
  by (relation "measure (\<lambda>(fmt, tp, newLine, insideSet, prev, file). length (bytes tp) - readPtr tp)")
     (auto dest!: DumpAsIFC_token_next)

declare DumpAsIFC_line_loop.simps [simp del]

definition DumpAsIFC :: "collaborators \<Rightarrow> IfcLoader \<Rightarrow> error + (string \<times> IfcLoader)" where
  "DumpAsIFC env s =
     ebind
       (for_each
          (\<lambda>line (tp, file).
             DumpAsIFC_line_loop (format_double env DumpAsIFC_precision)
               (MoveTo (tapeOffset line) tp) True False (Some EMPTY) file)
          (lines (metaData s)) (tape s, DumpAsIFC_header))
       (\<lambda>(tp, file). Inr (file @ DumpAsIFC_footer, s\<lparr>tape := tp\<rparr>))"

section \<open>The public operations of the loader\<close>

definition PushDataToTape :: "byte list \<Rightarrow> IfcLoader \<Rightarrow> IfcLoader" where
  "PushDataToTape data s = s\<lparr>tape := push data (tape s)\<rparr>"

definition MoveToLine :: "nat \<Rightarrow> IfcLoader \<Rightarrow> error + IfcLoader" where
  "MoveToLine lineID s =
     ebind (GetLine s lineID) (\<lambda>line. Inr (s\<lparr>tape := MoveTo (tapeOffset line) (tape s)\<rparr>))"

definition MoveToLineArgument :: "nat \<Rightarrow> int \<Rightarrow> IfcLoader \<Rightarrow> error + IfcLoader" where
  "MoveToLineArgument lineID argumentIndex s =
     ebind (GetLine s lineID) (\<lambda>line.
     ebind (MoveToArgumentOffset (tape s) line argumentIndex) (\<lambda>tp. Inr (s\<lparr>tape := tp\<rparr>)))"

text \<open>
  A call of a public member function that can change the loader. The accessors that hand
  out a reference to the tape or to a part of the meta data let the caller change that
  member in any way; these are the last two calls.
\<close>

datatype loader_call =
    Call_PushDataToTape "byte list"
  | Call_LoadFile string
  | Call_ReadLinearScalingFactor
  | Call_PopulateRelVoidsMap
  | Call_PopulateRelAggregatesMap
  | Call_PopulateStyledItemMap
  | Call_PopulateRelMaterialsMap
  | Call_MoveToLine nat
  | Call_MoveTo nat
  | Call_MoveToLineArgument nat int
  | Call_GetStringArgument
  | Call_GetDoubleArgument
  | Call_GetRefArgument
  | Call_GetTokenType
  | Call_Reverse
  | Call_UpdateLineTape nat nat nat nat
  | Call_GetSetArgument
  | Call_DumpAsIFC
  | Call_GetTape "DynamicTape \<Rightarrow> DynamicTape"
  | Call_GetMetaData "IfcMetaData \<Rightarrow> IfcMetaData"

primrec call :: "collaborators \<Rightarrow> loader_call \<Rightarrow> IfcLoader \<Rightarrow> error + IfcLoader" where
  "call env (Call_PushDataToTape data) = (\<lambda>s. Inr (PushDataToTape data s))"
| "call env (Call_LoadFile content) = LoadFile env content"
| "call env Call_ReadLinearScalingFactor = ReadLinearScalingFactor (codes env)"
| "call env Call_PopulateRelVoidsMap = PopulateRelVoidsMap (codes env)"
| "call env Call_PopulateRelAggregatesMap = PopulateRelAggregatesMap (codes env)"
| "call env Call_PopulateStyledItemMap = PopulateStyledItemMap (codes env)"
| "call env Call_PopulateRelMaterialsMap = PopulateRelMaterialsMap (codes env)"
| "call env (Call_MoveToLine lineID) = MoveToLine lineID"
| "call env (Call_MoveTo offset) = (\<lambda>s. Inr (s\<lparr>tape := MoveTo offset (tape s)\<rparr>))"
| "call env (Call_MoveToLineArgument lineID argumentIndex) =
     MoveToLineArgument lineID argumentIndex"
| "call env Call_GetStringArgument =
     (\<lambda>s. ebind (GetStringArgument (tape s)) (\<lambda>(r, tp). Inr (s\<lparr>tape := tp\<rparr>)))"
| "call env Call_GetDoubleArgument =
     (\<lambda>s. ebind (GetDoubleArgument (tape s)) (\<lambda>(r, tp). Inr (s\<lparr>tape := tp\<rparr>)))"
| "call env Call_GetRefArgument =
     (\<lambda>s. ebind (GetRefArgument (tape s)) (\<lambda>(r, tp). Inr (s\<lparr>tape := tp\<rparr>)))"
| "call env Call_GetTokenType =
     (\<lambda>s. ebind (GetTokenType (tape s)) (\<lambda>(r, tp). Inr (s\<lparr>tape := tp\<rparr>)))"
| "call env Call_Reverse = (\<lambda>s. Inr (s\<lparr>tape := Reverse (tape s)\<rparr>))"
| "call env (Call_UpdateLineTape eid type start end) = UpdateLineTape eid type start end"
| "call env Call_GetSetArgument =
     (\<lambda>s. ebind (GetSetArgument (tape s)) (\<lambda>(r, tp). Inr (s\<lparr>tape := tp\<rparr>)))"
| "call env Call_DumpAsIFC = (\<lambda>s. ebind (DumpAsIFC env s) (\<lambda>(file, s'). Inr s'))"
| "call env (Call_GetTape f) = (\<lambda>s. Inr (s\<lparr>tape := f (tape s)\<rparr>))"
| "call env (Call_GetMetaData f) = (\<lambda>s. Inr (s\<lparr>metaData := f (metaData s)\<rparr>))"

section \<open>Reading tokens at a known position\<close>
lemma unat_length_byte: "n < 256 \<Longrightarrow> unat (of_nat n :: byte) = n"
  by (simp add: unat_of_nat)

lemma token_of_byte_code [simp]: "token_of_byte (token_code t) = Some t"
  by (cases t) (simp_all add: token_of_byte_def)

lemma length_nat_le [simp]: "length (nat_le n v) = n"
  by (induction n arbitrary: v) simp_all

lemma Read_char_at:
  "Read_char \<lparr>bytes = pre @ c # rest, readPtr = length pre\<rparr> =
     Inr (c, \<lparr>bytes = pre @ c # rest, readPtr = length pre + 1\<rparr>)"
  by (simp add: Read_char_def)

lemma ReadBytes_at:
  "length bs = n \<Longrightarrow>
   ReadBytes n \<lparr>bytes = pre @ bs @ rest, readPtr = length pre\<rparr> =
     Inr (bs, \<lparr>bytes = pre @ bs @ rest, readPtr = length pre + n\<rparr>)"
  by (simp add: ReadBytes_def)

lemma Read_char_at':
  "bs = pre @ c # rest \<Longrightarrow> p = length pre \<Longrightarrow>
   Read_char \<lparr>bytes = bs, readPtr = p\<rparr> = Inr (c, \<lparr>bytes = bs, readPtr = p + 1\<rparr>)"
  by (simp add: Read_char_def)

lemma ReadBytes_at':
  "bs = pre @ xs @ rest \<Longrightarrow> p = length pre \<Longrightarrow> length xs = n \<Longrightarrow>
   ReadBytes n \<lparr>bytes = bs, readPtr = p\<rparr> = Inr (xs, \<lparr>bytes = bs, readPtr = p + n\<rparr>)"
  by (simp add: ReadBytes_def)


lemma MoveToArgumentOffset_body_leaf:
  assumes "is_leaf a" "wf_arg a" "bs = pre @ arg_bytes a @ post" "p = length pre"
    and "\<not> (d = 1 \<and> m + 1 = i)"
  shows "MoveToArgumentOffset_body i \<lparr>bytes = bs, readPtr = p\<rparr> m d =
           Inr (Inr (\<lparr>bytes = bs, readPtr = p + length (arg_bytes a)\<rparr>, counted d m, d))"
proof (cases a)
  case AUnknown
  with assms show ?thesis
    by (simp add: MoveToArgumentOffset_body_def Read_char_def counted_def token_of_byte_def)
next
  case AEmpty
  with assms show ?thesis
    by (simp add: MoveToArgumentOffset_body_def Read_char_def counted_def token_of_byte_def)
next
  case (AString s)
  with assms have b: "bs = pre @ 1 # ((of_nat (length s) # s) @ post)" and l: "length s < 256" by simp_all
  have b2: "bs = (pre @ [1]) @ of_nat (length s) # (s @ post)" using b by simp
  show ?thesis using assms(4,5) l
    by (simp add: MoveToArgumentOffset_body_def Read_char_at'[OF b] Read_uint8_def
        Read_char_at'[OF b2] counted_def token_of_byte_def AString AdvanceRead_def unat_length_byte)
next
  case (ALabel s)
  with assms have b: "bs = pre @ 2 # ((of_nat (length s) # s) @ post)" and l: "length s < 256" by simp_all
  have b2: "bs = (pre @ [2]) @ of_nat (length s) # (s @ post)" using b by simp
  show ?thesis using assms(4,5) l
    by (simp add: MoveToArgumentOffset_body_def Read_char_at'[OF b] Read_uint8_def
        Read_char_at'[OF b2] counted_def token_of_byte_def ALabel AdvanceRead_def unat_length_byte)
next
  case (AEnum s)
  with assms have b: "bs = pre @ 3 # ((of_nat (length s) # s) @ post)" and l: "length s < 256" by simp_all
  have b2: "bs = (pre @ [3]) @ of_nat (length s) # (s @ post)" using b by simp
  show ?thesis using assms(4,5) l
    by (simp add: MoveToArgumentOffset_body_def Read_char_at'[OF b] Read_uint8_def
        Read_char_at'[OF b2] counted_def token_of_byte_def AEnum AdvanceRead_def unat_length_byte)
next
  case (AReal x)
  with assms have b: "bs = pre @ 4 # (x @ post)" and l: "length x = 8" by simp_all
  have b2: "bs = (pre @ [4]) @ x @ post" using b by simp
  show ?thesis using assms(4,5) l
    by (simp add: MoveToArgumentOffset_body_def Read_char_at'[OF b] Read_double_def
        ReadBytes_at'[OF b2] counted_def token_of_byte_def AReal)
next
  case (ARef r)
  with assms have b: "bs = pre @ 5 # (nat_le 4 r @ post)" by simp_all
  have b2: "bs = (pre @ [5]) @ nat_le 4 r @ post" using b by simp
  show ?thesis using assms(4,5)
    by (simp add: MoveToArgumentOffset_body_def Read_char_at'[OF b] Read_uint32_def
        ReadBytes_at'[OF b2] counted_def token_of_byte_def ARef del: nat_le.simps)
next
  case (ASet xs)
  with assms show ?thesis by simp
qed

lemma MoveToArgumentOffset_loop_continue:
  "MoveToArgumentOffset_body i tp m d = Inr (Inr (tp', m', d')) \<Longrightarrow>
   MoveToArgumentOffset_loop i tp m d = MoveToArgumentOffset_loop i tp' m' d'"
  by (subst MoveToArgumentOffset_loop.simps) simp

lemma MoveToArgumentOffset_loop_return:
  "MoveToArgumentOffset_body i tp m d = Inr (Inl tp') \<Longrightarrow>
   MoveToArgumentOffset_loop i tp m d = Inr tp'"
  by (subst MoveToArgumentOffset_loop.simps) simp

lemma MoveToArgumentOffset_body_hit:
  "MoveToArgumentOffset_body (m + 1) tp m 1 = Inr (Inl tp)"
  by (simp add: MoveToArgumentOffset_body_def)

lemma MoveToArgumentOffset_body_SET_BEGIN:
  assumes "bs = pre @ token_code SET_BEGIN # rest" "p = length pre" "\<not> (d = 1 \<and> m + 1 = i)"
  shows "MoveToArgumentOffset_body i \<lparr>bytes = bs, readPtr = p\<rparr> m d =
           Inr (Inr (\<lparr>bytes = bs, readPtr = p + 1\<rparr>, counted d m, d + 1))"
  using assms
  by (simp add: MoveToArgumentOffset_body_def Read_char_def counted_def token_of_byte_def)

lemma MoveToArgumentOffset_body_SET_END:
  assumes "bs = pre @ token_code SET_END # rest" "p = length pre" "d \<noteq> 1"
  shows "MoveToArgumentOffset_body i \<lparr>bytes = bs, readPtr = p\<rparr> m d =
           Inr (Inr (\<lparr>bytes = bs, readPtr = p + 1\<rparr>, m, d - 1))"
  using assms
  by (simp add: MoveToArgumentOffset_body_def Read_char_def token_of_byte_def)

lemma MoveToArgumentOffset_body_SET_END_return:
  assumes "bs = pre @ token_code SET_END # rest" "p = length pre" "m + 1 \<noteq> i"
  shows "MoveToArgumentOffset_body i \<lparr>bytes = bs, readPtr = p\<rparr> m 1 =
           Inr (Inl \<lparr>bytes = bs, readPtr = p + 1\<rparr>)"
  using assms
  by (simp add: MoveToArgumentOffset_body_def Read_char_def token_of_byte_def)

lemma args_induct [case_names Nil Leaf Set]:
  assumes "P []"
    and "\<And>x xs. is_leaf x \<Longrightarrow> P xs \<Longrightarrow> P (x # xs)"
    and "\<And>ys xs. P ys \<Longrightarrow> P xs \<Longrightarrow> P (ASet ys # xs)"
  shows "P xs"
proof (induction xs rule: measure_induct_rule [where f = "size_list size"])
  case (less xs)
  show ?case
  proof (cases xs)
    case Nil
    then show ?thesis using assms(1) by simp
  next
    case (Cons x xs')
    have tl: "P xs'" using less [of xs'] Cons by simp
    show ?thesis
    proof (cases x)
      case (ASet ys)
      have "P ys" using less [of ys] Cons ASet by simp
      then show ?thesis using assms(3) tl Cons ASet by simp
    qed (use assms(2) tl Cons in simp_all)
  qed
qed

lemma args_bytes_simps [simp]:
  "args_bytes [] = []"
  "args_bytes (x # xs) = arg_bytes x @ args_bytes xs"
  "args_bytes (xs @ ys) = args_bytes xs @ args_bytes ys"
  by (simp_all add: args_bytes_def)

lemma arg_bytes_ASet [simp]:
  "arg_bytes (ASet xs) = token_code SET_BEGIN # args_bytes xs @ [token_code SET_END]"
  by (simp add: args_bytes_def)

declare arg_bytes.simps(8) [simp del]

lemma skip_nested:
  "list_all wf_arg xs \<Longrightarrow> 2 \<le> d \<Longrightarrow> bs = pre @ args_bytes xs @ post \<Longrightarrow>
   MoveToArgumentOffset_loop i \<lparr>bytes = bs, readPtr = length pre\<rparr> m d =
   MoveToArgumentOffset_loop i \<lparr>bytes = bs, readPtr = length pre + length (args_bytes xs)\<rparr> m d"
proof (induction xs arbitrary: pre post d rule: args_induct)
  case Nil
  then show ?case by simp
next
  case (Leaf x xs)
  have "MoveToArgumentOffset_loop i \<lparr>bytes = bs, readPtr = length pre\<rparr> m d =
        MoveToArgumentOffset_loop i \<lparr>bytes = bs, readPtr = length pre + length (arg_bytes x)\<rparr> m d"
    using Leaf.prems Leaf.hyps
    by (intro MoveToArgumentOffset_loop_continue)
       (simp add: MoveToArgumentOffset_body_leaf [where pre = pre and post = "args_bytes xs @ post"] counted_def)
  also have "\<dots> = MoveToArgumentOffset_loop i
       \<lparr>bytes = bs, readPtr = length (pre @ arg_bytes x) + length (args_bytes xs)\<rparr> m d"
    using Leaf.prems Leaf.IH [of d "pre @ arg_bytes x" post] by simp
  finally show ?case by (simp add: add.assoc)
next
  case (Set ys xs)
  let ?b = "token_code SET_BEGIN" and ?e = "token_code SET_END"
  have bs1: "bs = pre @ ?b # (args_bytes ys @ ?e # args_bytes xs @ post)"
    using Set.prems by simp
  have bs2: "bs = (pre @ [?b]) @ args_bytes ys @ (?e # args_bytes xs @ post)"
    using bs1 by simp
  have bs3: "bs = (pre @ ?b # args_bytes ys) @ ?e # (args_bytes xs @ post)"
    using bs1 by simp
  have bs4: "bs = (pre @ arg_bytes (ASet ys)) @ args_bytes xs @ post"
    using bs1 by simp
  have wf: "list_all wf_arg ys" "list_all wf_arg xs" using Set.prems by simp_all
  have "MoveToArgumentOffset_loop i \<lparr>bytes = bs, readPtr = length pre\<rparr> m d =
        MoveToArgumentOffset_loop i \<lparr>bytes = bs, readPtr = length pre + 1\<rparr> m (d + 1)"
    using Set.prems(2)
    by (intro MoveToArgumentOffset_loop_continue)
       (simp add: MoveToArgumentOffset_body_SET_BEGIN [OF bs1] counted_def)
  also have "\<dots> = MoveToArgumentOffset_loop i
       \<lparr>bytes = bs, readPtr = length (pre @ [?b]) + length (args_bytes ys)\<rparr> m (d + 1)"
    using Set.IH(1) [OF wf(1) _ bs2, of "d + 1"] Set.prems(2) by simp
  also have "\<dots> = MoveToArgumentOffset_loop i
       \<lparr>bytes = bs, readPtr = length (pre @ ?b # args_bytes ys) + 1\<rparr> m d"
    using Set.prems(2)
    by (intro MoveToArgumentOffset_loop_continue)
       (simp add: MoveToArgumentOffset_body_SET_END [OF bs3])
  also have "\<dots> = MoveToArgumentOffset_loop i
       \<lparr>bytes = bs, readPtr = length (pre @ arg_bytes (ASet ys)) + length (args_bytes xs)\<rparr> m d"
    using Set.IH(2) [OF wf(2) Set.prems(2) bs4] by simp
  finally show ?case by (simp add: add.assoc)
qed

declare MoveToArgumentOffset_loop.simps [simp del]
declare GetSetArgument_loop.simps [simp del]

lemma tape_readPtr_update: "(tp :: DynamicTape)\<lparr>readPtr := p\<rparr> = \<lparr>bytes = bytes tp, readPtr = p\<rparr>"
  by (cases tp) simp

lemma skip_top_one:
  assumes "wf_arg a" "bs = pre @ arg_bytes a @ post" "m + 1 \<noteq> i"
  shows "MoveToArgumentOffset_loop i \<lparr>bytes = bs, readPtr = length pre\<rparr> m 1 =
         MoveToArgumentOffset_loop i \<lparr>bytes = bs, readPtr = length pre + length (arg_bytes a)\<rparr> (m + 1) 1"
proof (cases "is_leaf a")
  case True
  with assms show ?thesis
    by (intro MoveToArgumentOffset_loop_continue)
       (simp add: MoveToArgumentOffset_body_leaf [where pre = pre and post = post] counted_def)
next
  case False
  then obtain ys where a: "a = ASet ys" by (cases a) simp_all
  let ?b = "token_code SET_BEGIN" and ?e = "token_code SET_END"
  have bs1: "bs = pre @ ?b # (args_bytes ys @ ?e # post)"
    using assms a by simp
  have bs2: "bs = (pre @ [?b]) @ args_bytes ys @ (?e # post)"
    using bs1 by simp
  have bs3: "bs = (pre @ ?b # args_bytes ys) @ ?e # post"
    using bs1 by simp
  have wf: "list_all wf_arg ys" using assms a by simp
  have "MoveToArgumentOffset_loop i \<lparr>bytes = bs, readPtr = length pre\<rparr> m 1 =
        MoveToArgumentOffset_loop i \<lparr>bytes = bs, readPtr = length pre + 1\<rparr> (m + 1) 2"
    using assms(3)
    by (intro MoveToArgumentOffset_loop_continue)
       (simp add: MoveToArgumentOffset_body_SET_BEGIN [OF bs1] counted_def)
  also have "\<dots> = MoveToArgumentOffset_loop i
       \<lparr>bytes = bs, readPtr = length (pre @ [?b]) + length (args_bytes ys)\<rparr> (m + 1) 2"
    using skip_nested [OF wf _ bs2, of 2 i "m + 1"] by simp
  also have "\<dots> = MoveToArgumentOffset_loop i
       \<lparr>bytes = bs, readPtr = length (pre @ ?b # args_bytes ys) + 1\<rparr> (m + 1) 1"
    by (intro MoveToArgumentOffset_loop_continue)
       (simp add: MoveToArgumentOffset_body_SET_END [OF bs3])
  finally show ?thesis using a by (simp add: add.assoc)
qed

lemma skip_top:
  "list_all wf_arg xs \<Longrightarrow> bs = pre @ args_bytes xs @ post \<Longrightarrow>
   \<forall>k < length xs. m + 1 + int k \<noteq> i \<Longrightarrow>
   MoveToArgumentOffset_loop i \<lparr>bytes = bs, readPtr = length pre\<rparr> m 1 =
   MoveToArgumentOffset_loop i
     \<lparr>bytes = bs, readPtr = length pre + length (args_bytes xs)\<rparr> (m + int (length xs)) 1"
proof (induction xs arbitrary: pre m)
  case Nil
  then show ?case by simp
next
  case (Cons x xs)
  have ne: "m + 1 \<noteq> i" using Cons.prems(3) by force
  have rest: "\<forall>k < length xs. (m + 1) + 1 + int k \<noteq> i"
  proof (intro allI impI)
    fix k assume "k < length xs"
    then have "m + 1 + int (Suc k) \<noteq> i" using Cons.prems(3) by (metis Suc_less_eq length_Cons)
    then show "(m + 1) + 1 + int k \<noteq> i" by simp
  qed
  have bs1: "bs = pre @ arg_bytes x @ (args_bytes xs @ post)" using Cons.prems by simp
  have bs2: "bs = (pre @ arg_bytes x) @ args_bytes xs @ post" using Cons.prems by simp
  have "MoveToArgumentOffset_loop i \<lparr>bytes = bs, readPtr = length pre\<rparr> m 1 =
        MoveToArgumentOffset_loop i \<lparr>bytes = bs, readPtr = length pre + length (arg_bytes x)\<rparr> (m + 1) 1"
    using skip_top_one [OF _ bs1 ne] Cons.prems(1) by simp
  also have "\<dots> = MoveToArgumentOffset_loop i
       \<lparr>bytes = bs, readPtr = length (pre @ arg_bytes x) + length (args_bytes xs)\<rparr>
       ((m + 1) + int (length xs)) 1"
    using Cons.IH [OF _ bs2 rest] Cons.prems(1) by simp
  finally show ?case by (simp add: add.assoc)
qed

lemma skip_header:
  "list_all is_leaf hdr \<Longrightarrow> list_all wf_arg hdr \<Longrightarrow> bs = pre @ args_bytes hdr @ post \<Longrightarrow>
   MoveToArgumentOffset_loop i \<lparr>bytes = bs, readPtr = length pre\<rparr> m 0 =
   MoveToArgumentOffset_loop i \<lparr>bytes = bs, readPtr = length pre + length (args_bytes hdr)\<rparr> m 0"
proof (induction hdr arbitrary: pre)
  case Nil
  then show ?case by simp
next
  case (Cons x xs)
  have "MoveToArgumentOffset_loop i \<lparr>bytes = bs, readPtr = length pre\<rparr> m 0 =
        MoveToArgumentOffset_loop i \<lparr>bytes = bs, readPtr = length pre + length (arg_bytes x)\<rparr> m 0"
  proof (rule MoveToArgumentOffset_loop_continue)
    have "bs = pre @ arg_bytes x @ (args_bytes xs @ post)" using Cons.prems(3) by simp
    then show "MoveToArgumentOffset_body i \<lparr>bytes = bs, readPtr = length pre\<rparr> m 0 =
        Inr (Inr (\<lparr>bytes = bs, readPtr = length pre + length (arg_bytes x)\<rparr>, m, 0))"
      using MoveToArgumentOffset_body_leaf [of x bs pre "args_bytes xs @ post" "length pre" 0 m i]
        Cons.prems(1,2) by (simp add: counted_def)
  qed
  also have "\<dots> = MoveToArgumentOffset_loop i
       \<lparr>bytes = bs, readPtr = length (pre @ arg_bytes x) + length (args_bytes xs)\<rparr> m 0"
    using Cons.prems Cons.IH [of "pre @ arg_bytes x"] by simp
  finally show ?case by (simp add: add.assoc)
qed


lemma line_at_split:
  assumes "line_at bs off hdr args"
  obtains pre post where "bs = pre @ args_bytes hdr @ arg_bytes (ASet args) @ post" "length pre = off"
proof -
  define n where "n = length (args_bytes hdr @ arg_bytes (ASet args))"
  define rest where "rest = drop off bs"
  have tk: "take n rest = args_bytes hdr @ arg_bytes (ASet args)" and le: "off + n \<le> length bs"
    using assms by (simp_all add: line_at_def n_def rest_def)
  have "rest = take n rest @ drop n rest" by simp
  then have "rest = (args_bytes hdr @ arg_bytes (ASet args)) @ drop n rest" using tk by simp
  moreover have "bs = take off bs @ rest" by (simp add: rest_def)
  ultimately have "bs = take off bs @ args_bytes hdr @ arg_bytes (ASet args) @ drop n rest"
    by simp
  moreover have "length (take off bs) = off" using le by simp
  ultimately show ?thesis by (rule that)
qed


lemma enter_arguments:
  assumes "list_all is_leaf hdr" "list_all wf_arg hdr"
    and "bs = pre @ args_bytes hdr @ arg_bytes (ASet args) @ post"
  shows "MoveToArgumentOffset_loop i \<lparr>bytes = bs, readPtr = length pre\<rparr> (- 1) 0 =
         MoveToArgumentOffset_loop i \<lparr>bytes = bs, readPtr = length pre + length (args_bytes hdr) + 1\<rparr> (- 1) 1"
proof -
  have bs1: "bs = (pre @ args_bytes hdr) @ token_code SET_BEGIN # (args_bytes args @ token_code SET_END # post)"
    using assms(3) by simp
  have "MoveToArgumentOffset_loop i \<lparr>bytes = bs, readPtr = length pre\<rparr> (- 1) 0 =
        MoveToArgumentOffset_loop i \<lparr>bytes = bs, readPtr = length (pre @ args_bytes hdr)\<rparr> (- 1) 0"
    using skip_header [OF assms(1,2,3)] by simp
  also have "\<dots> = MoveToArgumentOffset_loop i \<lparr>bytes = bs, readPtr = length (pre @ args_bytes hdr) + 1\<rparr> (- 1) 1"
    by (intro MoveToArgumentOffset_loop_continue)
       (simp add: MoveToArgumentOffset_body_SET_BEGIN [OF bs1] counted_def)
  finally show ?thesis by simp
qed

lemma MoveToArgumentOffset_in_range:
  assumes "line_at (bytes tp) (tapeOffset line) hdr args" "0 \<le> i" "nat i < length args"
  shows "MoveToArgumentOffset tp line i =
           Inr \<lparr>bytes = bytes tp, readPtr = arg_offset (tapeOffset line) hdr args (nat i)\<rparr>"
proof -
  obtain pre post where bs: "bytes tp = pre @ args_bytes hdr @ arg_bytes (ASet args) @ post"
    and off: "length pre = tapeOffset line"
    using assms(1) by (rule line_at_split)
  have wf: "list_all is_leaf hdr" "list_all wf_arg hdr" "list_all wf_arg args"
    using assms(1) by (simp_all add: line_at_def)
  let ?k = "nat i"
  let ?xs = "take ?k args" and ?ys = "drop ?k args"
  let ?pre1 = "pre @ args_bytes hdr @ [token_code SET_BEGIN]"
  have args: "args = ?xs @ ?ys" by simp
  have bs1: "bytes tp = ?pre1 @ args_bytes ?xs @ (args_bytes ?ys @ token_code SET_END # post)"
    using bs by (subst (asm) args) (simp del: append_take_drop_id)
  have wfx: "list_all wf_arg ?xs" using wf(3) by (simp add: list_all_iff) (meson in_set_takeD)
  have lx: "length ?xs = ?k" using assms(3) by simp
  have miss: "\<forall>j < length ?xs. - 1 + 1 + int j \<noteq> i" using assms(2) lx by auto
  have "MoveToArgumentOffset tp line i =
        MoveToArgumentOffset_loop i \<lparr>bytes = bytes tp, readPtr = length pre\<rparr> (- 1) 0"
    by (simp add: MoveToArgumentOffset_def MoveTo_def off tape_readPtr_update)
  also have "\<dots> = MoveToArgumentOffset_loop i \<lparr>bytes = bytes tp, readPtr = length ?pre1\<rparr> (- 1) 1"
    using enter_arguments [OF wf(1,2) bs] by simp
  also have "\<dots> = MoveToArgumentOffset_loop i
      \<lparr>bytes = bytes tp, readPtr = length ?pre1 + length (args_bytes ?xs)\<rparr> (- 1 + int (length ?xs)) 1"
    by (rule skip_top [OF wfx bs1 miss])
  also have "\<dots> = Inr \<lparr>bytes = bytes tp, readPtr = length ?pre1 + length (args_bytes ?xs)\<rparr>"
    using assms(2) lx MoveToArgumentOffset_body_hit [of "i - 1"]
    by (intro MoveToArgumentOffset_loop_return) simp
  finally show ?thesis by (simp add: arg_offset_def off)
qed

lemma MoveToArgumentOffset_past_end:
  assumes "line_at (bytes tp) (tapeOffset line) hdr args" "int (length args) \<le> i"
  shows "MoveToArgumentOffset tp line i =
           Inr \<lparr>bytes = bytes tp,
                readPtr = arg_offset (tapeOffset line) hdr args (length args) +
                          (if i = int (length args) then 0 else 1)\<rparr>"
proof -
  obtain pre post where bs: "bytes tp = pre @ args_bytes hdr @ arg_bytes (ASet args) @ post"
    and off: "length pre = tapeOffset line"
    using assms(1) by (rule line_at_split)
  have wf: "list_all is_leaf hdr" "list_all wf_arg hdr" "list_all wf_arg args"
    using assms(1) by (simp_all add: line_at_def)
  let ?pre1 = "pre @ args_bytes hdr @ [token_code SET_BEGIN]"
  have bs1: "bytes tp = ?pre1 @ args_bytes args @ (token_code SET_END # post)"
    using bs by simp
  have bs2: "bytes tp = (?pre1 @ args_bytes args) @ token_code SET_END # post"
    using bs by simp
  have miss: "\<forall>j < length args. - 1 + 1 + int j \<noteq> i" using assms(2) by auto
  have "MoveToArgumentOffset tp line i =
        MoveToArgumentOffset_loop i \<lparr>bytes = bytes tp, readPtr = length pre\<rparr> (- 1) 0"
    by (simp add: MoveToArgumentOffset_def MoveTo_def off tape_readPtr_update)
  also have "\<dots> = MoveToArgumentOffset_loop i \<lparr>bytes = bytes tp, readPtr = length ?pre1\<rparr> (- 1) 1"
    using enter_arguments [OF wf(1,2) bs] by simp
  also have "\<dots> = MoveToArgumentOffset_loop i
      \<lparr>bytes = bytes tp, readPtr = length ?pre1 + length (args_bytes args)\<rparr>
      (- 1 + int (length args)) 1"
    by (rule skip_top [OF wf(3) bs1 miss])
  also have "\<dots> = Inr \<lparr>bytes = bytes tp,
      readPtr = length ?pre1 + length (args_bytes args) + (if i = int (length args) then 0 else 1)\<rparr>"
  proof (cases "i = int (length args)")
    case True
    then show ?thesis using MoveToArgumentOffset_body_hit [of "i - 1"]
      by (intro MoveToArgumentOffset_loop_return) simp
  next
    case False
    have "MoveToArgumentOffset_body i
        \<lparr>bytes = bytes tp, readPtr = length ?pre1 + length (args_bytes args)\<rparr>
        (- 1 + int (length args)) 1 =
        Inr (Inl \<lparr>bytes = bytes tp, readPtr = length ?pre1 + length (args_bytes args) + 1\<rparr>)"
      using False by (intro MoveToArgumentOffset_body_SET_END_return [OF bs2]) simp_all
    then show ?thesis using False
      by (intro MoveToArgumentOffset_loop_return) simp
  qed
  finally show ?thesis by (simp add: arg_offset_def off)
qed

lemma GetSetArgument_loop_continue:
  "GetSetArgument_body tp d acc = Inr (tp', d', acc') \<Longrightarrow> d' \<noteq> 0 \<Longrightarrow>
   GetSetArgument_loop tp d acc = GetSetArgument_loop tp' d' acc'"
  by (subst GetSetArgument_loop.simps) simp

lemma GetSetArgument_loop_break:
  "GetSetArgument_body tp d acc = Inr (tp', 0, acc') \<Longrightarrow>
   GetSetArgument_loop tp d acc = Inr (acc', tp')"
  by (subst GetSetArgument_loop.simps) simp

lemma GetSetArgument_body_SET_BEGIN:
  assumes "bs = pre @ token_code SET_BEGIN # rest" "p = length pre"
  shows "GetSetArgument_body \<lparr>bytes = bs, readPtr = p\<rparr> d acc =
           Inr (\<lparr>bytes = bs, readPtr = p + 1\<rparr>, d + 1, acc)"
  using assms
  by (simp add: GetSetArgument_body_def Read_char_def token_of_byte_def)

lemma GetSetArgument_body_SET_END:
  assumes "bs = pre @ token_code SET_END # rest" "p = length pre"
  shows "GetSetArgument_body \<lparr>bytes = bs, readPtr = p\<rparr> d acc =
           Inr (\<lparr>bytes = bs, readPtr = p + 1\<rparr>, d - 1, acc)"
  using assms
  by (simp add: GetSetArgument_body_def Read_char_def token_of_byte_def)

lemma GetSetArgument_body_leaf:
  assumes "is_leaf a" "getset_ok a" "wf_arg a" "bs = pre @ arg_bytes a @ post" "p = length pre"
    and "length bs \<le> 2 ^ 32"
  shows "GetSetArgument_body \<lparr>bytes = bs, readPtr = p\<rparr> d acc =
           Inr (\<lparr>bytes = bs, readPtr = p + length (arg_bytes a)\<rparr>, d, acc @ [p])"
proof -
  have "p < length bs" using assms(1,4,5) by (cases a) simp_all
  then have pm: "p mod 4294967296 = p" using assms(6) by simp
  show ?thesis
  proof (cases a)
    case (AString s)
    with assms have b: "bs = pre @ 1 # ((of_nat (length s) # s) @ post)" and l: "length s < 256" by simp_all
    have b2: "bs = (pre @ [1]) @ of_nat (length s) # (s @ post)" using b by simp
    show ?thesis using assms(5) l pm
      by (simp add: GetSetArgument_body_def Read_char_at'[OF b] Read_uint8_def GetReadOffset_def
          Read_char_at'[OF b2] token_of_byte_def AString AdvanceRead_def unat_length_byte)
  next
    case (ALabel s)
    with assms have b: "bs = pre @ 2 # ((of_nat (length s) # s) @ post)" and l: "length s < 256" by simp_all
    have b2: "bs = (pre @ [2]) @ of_nat (length s) # (s @ post)" using b by simp
    show ?thesis using assms(5) l pm
      by (simp add: GetSetArgument_body_def Read_char_at'[OF b] Read_uint8_def GetReadOffset_def
          Read_char_at'[OF b2] token_of_byte_def ALabel AdvanceRead_def unat_length_byte)
  next
    case (AReal x)
    with assms have b: "bs = pre @ 4 # (x @ post)" and l: "length x = 8" by simp_all
    have b2: "bs = (pre @ [4]) @ x @ post" using b by simp
    show ?thesis using assms(5) l pm
      by (simp add: GetSetArgument_body_def Read_char_at'[OF b] Read_double_def GetReadOffset_def
          ReadBytes_at'[OF b2] token_of_byte_def AReal)
  next
    case (ARef r)
    with assms have b: "bs = pre @ 5 # (nat_le 4 r @ post)" by simp_all
    have b2: "bs = (pre @ [5]) @ nat_le 4 r @ post" using b by simp
    show ?thesis using assms(5) pm
      by (simp add: GetSetArgument_body_def Read_char_at'[OF b] Read_uint32_def GetReadOffset_def
          ReadBytes_at'[OF b2] token_of_byte_def ARef del: nat_le.simps)
  qed (use assms in simp_all)
qed

lemma leaf_offsets_leaf:
  "is_leaf x \<Longrightarrow> leaf_offsets p (x # xs) = p # leaf_offsets (p + length (arg_bytes x)) xs"
  by (cases x) simp_all

lemma leaf_offsets_ASet:
  "leaf_offsets p (ASet ys # xs) =
     leaf_offsets (p + 1) ys @ leaf_offsets (p + length (arg_bytes (ASet ys))) xs"
  by simp

declare leaf_offsets.simps(2) [simp del]

lemma GetSetArgument_loop_skip:
  "list_all getset_ok xs \<Longrightarrow> list_all wf_arg xs \<Longrightarrow> 1 \<le> d \<Longrightarrow>
   bs = pre @ args_bytes xs @ post \<Longrightarrow> length bs \<le> 2 ^ 32 \<Longrightarrow>
   GetSetArgument_loop \<lparr>bytes = bs, readPtr = length pre\<rparr> d acc =
   GetSetArgument_loop \<lparr>bytes = bs, readPtr = length pre + length (args_bytes xs)\<rparr> d
     (acc @ leaf_offsets (length pre) xs)"
proof (induction xs arbitrary: pre post d acc rule: args_induct)
  case Nil
  then show ?case by simp
next
  case (Leaf x xs)
  have bs1: "bs = pre @ arg_bytes x @ (args_bytes xs @ post)" using Leaf.prems(4) by simp
  have bs2: "bs = (pre @ arg_bytes x) @ args_bytes xs @ post" using Leaf.prems(4) by simp
  have ok: "getset_ok x" "wf_arg x" "list_all getset_ok xs" "list_all wf_arg xs"
    using Leaf.prems by simp_all
  have "GetSetArgument_loop \<lparr>bytes = bs, readPtr = length pre\<rparr> d acc =
        GetSetArgument_loop \<lparr>bytes = bs, readPtr = length pre + length (arg_bytes x)\<rparr> d
          (acc @ [length pre])"
    using Leaf.prems(3)
    by (intro GetSetArgument_loop_continue
          GetSetArgument_body_leaf [OF Leaf.hyps ok(1,2) bs1 refl Leaf.prems(5)]) simp
  also have "\<dots> = GetSetArgument_loop
       \<lparr>bytes = bs, readPtr = length (pre @ arg_bytes x) + length (args_bytes xs)\<rparr> d
       ((acc @ [length pre]) @ leaf_offsets (length (pre @ arg_bytes x)) xs)"
    using Leaf.IH [OF ok(3,4) Leaf.prems(3) bs2 Leaf.prems(5)] by simp
  finally show ?case using Leaf.hyps by (simp add: add.assoc leaf_offsets_leaf)
next
  case (Set ys xs)
  let ?b = "token_code SET_BEGIN" and ?e = "token_code SET_END"
  have bs1: "bs = pre @ ?b # (args_bytes ys @ ?e # args_bytes xs @ post)"
    using Set.prems(4) by simp
  have bs2: "bs = (pre @ [?b]) @ args_bytes ys @ (?e # args_bytes xs @ post)"
    using bs1 by simp
  have bs3: "bs = (pre @ ?b # args_bytes ys) @ ?e # (args_bytes xs @ post)"
    using bs1 by simp
  have bs4: "bs = (pre @ arg_bytes (ASet ys)) @ args_bytes xs @ post"
    using bs1 by simp
  have ok: "list_all getset_ok ys" "list_all wf_arg ys" "list_all getset_ok xs" "list_all wf_arg xs"
    using Set.prems by simp_all
  have d1: "1 \<le> d + 1" using Set.prems(3) by simp
  have "GetSetArgument_loop \<lparr>bytes = bs, readPtr = length pre\<rparr> d acc =
        GetSetArgument_loop \<lparr>bytes = bs, readPtr = length pre + 1\<rparr> (d + 1) acc"
    using Set.prems(3)
    by (intro GetSetArgument_loop_continue GetSetArgument_body_SET_BEGIN [OF bs1]) simp_all
  also have "\<dots> = GetSetArgument_loop
       \<lparr>bytes = bs, readPtr = length (pre @ [?b]) + length (args_bytes ys)\<rparr> (d + 1)
       (acc @ leaf_offsets (length (pre @ [?b])) ys)"
    using Set.IH(1) [OF ok(1,2) d1 bs2 Set.prems(5)] by simp
  also have "\<dots> = GetSetArgument_loop
       \<lparr>bytes = bs, readPtr = length (pre @ ?b # args_bytes ys) + 1\<rparr> d
       (acc @ leaf_offsets (length (pre @ [?b])) ys)"
  proof (rule GetSetArgument_loop_continue)
    show "GetSetArgument_body
        \<lparr>bytes = bs, readPtr = length (pre @ [?b]) + length (args_bytes ys)\<rparr> (d + 1)
        (acc @ leaf_offsets (length (pre @ [?b])) ys) =
      Inr (\<lparr>bytes = bs, readPtr = length (pre @ ?b # args_bytes ys) + 1\<rparr>, d,
           acc @ leaf_offsets (length (pre @ [?b])) ys)"
      using GetSetArgument_body_SET_END [OF bs3 refl, of "d + 1"] by simp
    show "d \<noteq> 0" using Set.prems(3) by simp
  qed
  also have "\<dots> = GetSetArgument_loop
       \<lparr>bytes = bs, readPtr = length (pre @ arg_bytes (ASet ys)) + length (args_bytes xs)\<rparr> d
       ((acc @ leaf_offsets (length (pre @ [?b])) ys) @
          leaf_offsets (length (pre @ arg_bytes (ASet ys))) xs)"
    using Set.IH(2) [OF ok(3,4) Set.prems(3) bs4 Set.prems(5)] by simp
  finally show ?case by (simp add: add.assoc leaf_offsets_ASet)
qed

lemma GetSetArgument_flattens:
  assumes "list_all getset_ok xs" "list_all wf_arg xs"
    and "bs = pre @ arg_bytes (ASet xs) @ post" "length bs \<le> 2 ^ 32"
  shows "GetSetArgument \<lparr>bytes = bs, readPtr = length pre\<rparr> =
           Inr (leaf_offsets (length pre + 1) xs,
                \<lparr>bytes = bs, readPtr = length pre + length (arg_bytes (ASet xs))\<rparr>)"
proof -
  let ?b = "token_code SET_BEGIN" and ?e = "token_code SET_END"
  have bs1: "bs = pre @ ?b # (args_bytes xs @ ?e # post)" using assms(3) by simp
  have bs2: "bs = (pre @ [?b]) @ args_bytes xs @ (?e # post)" using bs1 by simp
  have bs3: "bs = (pre @ ?b # args_bytes xs) @ ?e # post" using bs1 by simp
  have "GetSetArgument \<lparr>bytes = bs, readPtr = length pre\<rparr> =
        GetSetArgument_loop \<lparr>bytes = bs, readPtr = length (pre @ [?b])\<rparr> 1 []"
    by (simp add: GetSetArgument_def Read_char_at' [OF bs1])
  also have "\<dots> = GetSetArgument_loop
       \<lparr>bytes = bs, readPtr = length (pre @ [?b]) + length (args_bytes xs)\<rparr> 1
       ([] @ leaf_offsets (length (pre @ [?b])) xs)"
    by (rule GetSetArgument_loop_skip [OF assms(1,2) _ bs2 assms(4)]) simp
  also have "\<dots> = Inr (leaf_offsets (length (pre @ [?b])) xs,
       \<lparr>bytes = bs, readPtr = length (pre @ ?b # args_bytes xs) + 1\<rparr>)"
    using GetSetArgument_body_SET_END [OF bs3 refl, of 1]
    by (intro GetSetArgument_loop_break) simp
  finally show ?thesis by simp
qed

lemma leaf_offsets_flat: "list_all is_leaf xs \<Longrightarrow> leaf_offsets p xs = top_offsets p xs"
  by (induction xs arbitrary: p) (simp_all add: leaf_offsets_leaf)


section \<open>Evaluation on concrete tapes\<close>

lemma nat_le_4:
  "nat_le 4 v = [of_nat (v mod 256), of_nat (v div 256 mod 256),
                 of_nat (v div 256 div 256 mod 256), of_nat (v div 256 div 256 div 256 mod 256)]"
proof -
  have "(4::nat) = Suc (Suc (Suc (Suc 0)))" by simp
  then show ?thesis by (simp only: nat_le.simps)
qed

lemmas tape_eval = Read_char_def Read_uint8_def Read_uint32_def Read_double_def ReadBytes_def
  AdvanceRead_def ReadStringView_def MoveTo_def GetReadOffset_def Reverse_def token_of_byte_def

lemma replicate_numeral: "replicate (numeral k) x = x # replicate (pred_numeral k) x"
  by (simp add: numeral_eq_Suc)

lemma list_update_numeral: "(x # xs)[numeral k := v] = x # xs[pred_numeral k := v]"
  by (simp add: numeral_eq_Suc)

lemmas index_eval = UpdateLineTape_def IfcLoader_init_def IfcMetaData_init_def ebind_def
  resize_def ExpressIDToLineID_def GetLine_def GetLineIDsWithType_def GetExpressIDsWithType_def
  Let_def replicate_numeral list_update_numeral

section \<open>The type index under \<^verbatim>\<open>UpdateLineTape\<close>\<close>

lemma for_each_invariant:
  assumes "\<And>x s s'. I s \<Longrightarrow> f x s = Inr s' \<Longrightarrow> I s'"
  shows "I s \<Longrightarrow> for_each f xs s = Inr s' \<Longrightarrow> I s'"
proof (induction xs arbitrary: s)
  case Nil
  then show ?case by simp
next
  case (Cons x xs)
  then obtain s1 where "f x s = Inr s1" "for_each f xs s1 = Inr s'"
    by (auto simp: ebind_def split: sum.splits)
  then show ?case using Cons.IH Cons.prems(1) assms by blast
qed

lemma type_filter_update:
  "k < length xs \<Longrightarrow>
   filter (\<lambda>i. ifcType (xs[k := (xs ! k)\<lparr>tapeOffset := a, tapeEnd := b\<rparr>] ! i) = T) [0..<length xs] =
   filter (\<lambda>i. ifcType (xs ! i) = T) [0..<length xs]"
  by (rule filter_cong) (auto simp: nth_list_update)

lemma type_filter_append:
  "filter (\<lambda>i. ifcType ((xs @ [l]) ! i) = T) [0..<Suc (length xs)] =
   filter (\<lambda>i. ifcType (xs ! i) = T) [0..<length xs] @ (if ifcType l = T then [length xs] else [])"
proof -
  have "filter (\<lambda>i. ifcType ((xs @ [l]) ! i) = T) [0..<length xs] =
        filter (\<lambda>i. ifcType (xs ! i) = T) [0..<length xs]"
    by (rule filter_cong) (auto simp: nth_append)
  then show ?thesis by simp
qed

lemma UpdateLineTape_type_index:
  assumes "type_index_ok (metaData s)" "UpdateLineTape eid type start end s = Inr s'"
  shows "type_index_ok (metaData s')"
proof (cases "eid \<ge> length (expressIDToLine (metaData s)) \<or> expressIDToLine (metaData s) ! eid = 0")
  case True
  let ?md = "metaData s"
  let ?n = "length (lines ?md)"
  let ?l = "\<lparr>expressID = eid, lineIndex = ?n, ifcType = type, tapeOffset = 0, tapeEnd = 0\<rparr>"
  let ?xs = "lines ?md @ [?l]"
  have inr: "eid < length (resize ((eid * 2) mod 2 ^ 32) (expressIDToLine ?md))"
    using assms(2) True by (auto simp: UpdateLineTape_def Let_def ebind_def split: if_splits)
  have s': "lines (metaData s') = ?xs[?n := (?xs ! ?n)\<lparr>tapeOffset := start, tapeEnd := end\<rparr>]"
    and idx: "ifcTypeToLineID (metaData s') =
      (ifcTypeToLineID ?md)(type := ifcTypeToLineID ?md type @ [?n])"
    using assms(2) True inr
    by (auto simp: UpdateLineTape_def Let_def ebind_def split: if_splits)
  have len: "length (lines (metaData s')) = Suc ?n" by (simp add: s')
  show ?thesis
    unfolding type_index_ok_def
  proof
    fix T
    have "filter (\<lambda>i. ifcType (lines (metaData s') ! i) = T) [0..<length (lines (metaData s'))] =
          filter (\<lambda>i. ifcType (?xs ! i) = T) [0..<length ?xs]"
      unfolding s' using type_filter_update [where k = ?n and xs = ?xs and a = start and b = "end" and T = T] by simp
    also have "\<dots> = filter (\<lambda>i. ifcType (lines ?md ! i) = T) [0..<?n] @
                     (if type = T then [?n] else [])"
      using type_filter_append [of "lines ?md" ?l T] by simp
    finally show "ifcTypeToLineID (metaData s') T =
        filter (\<lambda>i. ifcType (lines (metaData s') ! i) = T) [0..<length (lines (metaData s'))]"
      using assms(1) by (simp add: idx type_index_ok_def)
  qed
next
  case False
  let ?md = "metaData s"
  let ?k = "expressIDToLine ?md ! eid"
  have k: "?k < length (lines ?md)"
    using assms(2) False by (auto simp: UpdateLineTape_def Let_def ebind_def split: if_splits)
  have s': "lines (metaData s') = (lines ?md)[?k := (lines ?md ! ?k)\<lparr>tapeOffset := start, tapeEnd := end\<rparr>]"
    and idx: "ifcTypeToLineID (metaData s') = ifcTypeToLineID ?md"
    using assms(2) False k
    by (auto simp: UpdateLineTape_def Let_def ebind_def split: if_splits)
  show ?thesis
    unfolding type_index_ok_def
  proof
    fix T
    show "ifcTypeToLineID (metaData s') T =
        filter (\<lambda>i. ifcType (lines (metaData s') ! i) = T) [0..<length (lines (metaData s'))]"
      unfolding s' idx using type_filter_update [OF k, where a = start and b = "end" and T = T] assms(1)
      by (simp add: type_index_ok_def)
  qed
qed

lemma UpdateLineTape_calls_type_index:
  assumes "UpdateLineTape_calls calls (IfcLoader_init st) = Inr s"
  shows "type_index_ok (metaData s)"
proof -
  have init: "type_index_ok (metaData (IfcLoader_init st))"
    by (simp add: type_index_ok_def IfcLoader_init_def IfcMetaData_init_def)
  show ?thesis
    using init assms unfolding UpdateLineTape_calls_def
    by (rule for_each_invariant [where I = "\<lambda>s. type_index_ok (metaData s)", rotated])
       (auto dest: UpdateLineTape_type_index)
qed

lemma transform_GetLine:
  "\<forall>i \<in> set ids. i < length (lines (metaData s)) \<Longrightarrow>
   transform (\<lambda>lineID. ebind (GetLine s lineID) (\<lambda>line. Inr (expressID line))) ids =
     Inr (map (\<lambda>i. expressID (lines (metaData s) ! i)) ids)"
  by (induction ids) (simp_all add: ebind_def GetLine_def)

lemma filter_by_index:
  "filter P xs = map (nth xs) (filter (\<lambda>i. P (xs ! i)) [0..<length xs])"
proof -
  have "filter P (map (nth xs) [0..<length xs]) =
        map (nth xs) (filter (P \<circ> nth xs) [0..<length xs])"
    by (rule filter_map)
  then show ?thesis by (simp add: map_nth comp_def)
qed

lemma type_index_GetExpressIDsWithType:
  assumes "type_index_ok (metaData s)"
  shows "GetExpressIDsWithType s T =
           Inr (map expressID (filter (\<lambda>l. ifcType l = T) (lines (metaData s))))"
proof -
  let ?xs = "lines (metaData s)"
  let ?ids = "filter (\<lambda>i. ifcType (?xs ! i) = T) [0..<length ?xs]"
  have "GetExpressIDsWithType s T = Inr (map (\<lambda>i. expressID (?xs ! i)) ?ids)"
    using assms transform_GetLine [of ?ids s]
    by (simp add: GetExpressIDsWithType_def type_index_ok_def)
  also have "map (\<lambda>i. expressID (?xs ! i)) ?ids = map expressID (map (nth ?xs) ?ids)"
    by simp
  also have "map (nth ?xs) ?ids = filter (\<lambda>l. ifcType l = T) ?xs"
    by (rule filter_by_index [symmetric])
  finally show ?thesis .
qed


section \<open>Claims about the argument cursor\<close>

text \<open>
  C3, as stated: for a line with fewer than \<open>i + 1\<close> top-level arguments,
  \<^verbatim>\<open>MoveToArgumentOffset(L, i)\<close> fails with an \<^verbatim>\<open>ArgumentOutOfRange\<close> error and does not
  silently succeed. Counterexample: the line \<^verbatim>\<open>(#1);\<close> has one argument, and a move to
  argument 5 returns normally with the cursor behind the closing \<^verbatim>\<open>SET_END\<close>.
\<close>

theorem MoveToArgumentOffset_out_of_range_counterexample:
  "int (length [ARef 1]) < 5 + 1 \<and>
   MoveToArgumentOffset
     \<lparr>bytes = arg_bytes (ASet [ARef 1]) @ [token_code LINE_END], readPtr = 0\<rparr>
     \<lparr>expressID = 1, lineIndex = 0, ifcType = 0, tapeOffset = 0, tapeEnd = 8\<rparr> 5 =
   Inr \<lparr>bytes = arg_bytes (ASet [ARef 1]) @ [token_code LINE_END], readPtr = 7\<rparr>"
  by (simp add: MoveToArgumentOffset_def MoveToArgumentOffset_loop.simps
      MoveToArgumentOffset_body_def tape_eval nat_le_4)

text \<open>
  C3, amended: for a line with fewer than \<open>i + 1\<close> top-level arguments,
  \<^verbatim>\<open>MoveToArgumentOffset(L, i)\<close> returns normally and signals no error; the cursor is
  left on the \<^verbatim>\<open>SET_END\<close> that closes the argument list when the line has exactly
  \<open>i\<close> arguments, and just behind it when the line has fewer.
\<close>

theorem MoveToArgumentOffset_out_of_range:
  assumes "line_at (bytes tp) (tapeOffset line) hdr args"
    and "int (length args) < i + 1"
  shows "MoveToArgumentOffset tp line i =
           Inr \<lparr>bytes = bytes tp,
                readPtr = arg_offset (tapeOffset line) hdr args (length args) +
                          (if i = int (length args) then 0 else 1)\<rparr>"
  using assms(2) by (intro MoveToArgumentOffset_past_end [OF assms(1)]) simp

theorem MoveToArgumentOffset_out_of_range_witness:
  "line_at [7, 4, 0, 0, 0, 0, 0, 0, 240, 63, 6, 8, 9] 0 [] [AReal [0, 0, 0, 0, 0, 0, 240, 63], AEmpty] \<and>
   int (length [AReal [0, 0, 0, 0, 0, 0, 240, 63], AEmpty]) < 2 + 1 \<and>
   MoveToArgumentOffset \<lparr>bytes = [7, 4, 0, 0, 0, 0, 0, 0, 240, 63, 6, 8, 9], readPtr = 3\<rparr>
     \<lparr>expressID = 1, lineIndex = 0, ifcType = 0, tapeOffset = 0, tapeEnd = 13\<rparr> 2 =
   Inr \<lparr>bytes = [7, 4, 0, 0, 0, 0, 0, 0, 240, 63, 6, 8, 9], readPtr = 11\<rparr>"
proof -
  have h: "line_at [7, 4, 0, 0, 0, 0, 0, 0, 240, 63, 6, 8, 9] 0 [] [AReal [0, 0, 0, 0, 0, 0, 240, 63], AEmpty]"
    by (simp add: line_at_def)
  show ?thesis
    using h MoveToArgumentOffset_out_of_range
      [of "\<lparr>bytes = [7, 4, 0, 0, 0, 0, 0, 0, 240, 63, 6, 8, 9], readPtr = 3\<rparr>"
          "\<lparr>expressID = 1, lineIndex = 0, ifcType = 0, tapeOffset = 0, tapeEnd = 13\<rparr>"
          "[]" "[AReal [0, 0, 0, 0, 0, 0, 240, 63], AEmpty]" 2]
    by (simp add: arg_offset_def)
qed

text \<open>
  C1, as stated: \<^verbatim>\<open>GetSetArgument\<close> returns the offsets of exactly the top-level elements
  of the set, and the contents of nested sets are not among them. Counterexample: for the
  set \<^verbatim>\<open>(#1, (#2, #3), #4)\<close> written at offset 0 the top-level elements are at offsets
  1, 6 and 18, and the function returns 1, 7, 12 and 18: the offsets 7 and 12 of the
  nested \<^verbatim>\<open>#2\<close> and \<^verbatim>\<open>#3\<close> are recorded and the offset 6 of the nested set is not.
  A set with an \<^verbatim>\<open>ENUM\<close> element ends in \<^verbatim>\<open>assert(false)\<close>.
\<close>

theorem GetSetArgument_top_level_counterexample:
  "GetSetArgument
     \<lparr>bytes = arg_bytes (ASet [ARef 1, ASet [ARef 2, ARef 3], ARef 4]) @ [token_code LINE_END],
      readPtr = 0\<rparr> =
   Inr ([1, 7, 12, 18],
     \<lparr>bytes = arg_bytes (ASet [ARef 1, ASet [ARef 2, ARef 3], ARef 4]) @ [token_code LINE_END],
      readPtr = 24\<rparr>) \<and>
   top_offsets 1 [ARef 1, ASet [ARef 2, ARef 3], ARef 4] = [1, 6, 18] \<and>
   GetSetArgument
     \<lparr>bytes = arg_bytes (ASet [AEnum [84], AEmpty]) @ [token_code LINE_END], readPtr = 0\<rparr> =
   Inl AssertionFailed"
  by (simp add: GetSetArgument_def GetSetArgument_loop.simps GetSetArgument_body_def tape_eval
      nat_le_4)

text \<open>
  C1, amended: for a set argument built from \<^verbatim>\<open>REAL\<close>, \<^verbatim>\<open>REF\<close>, \<^verbatim>\<open>STRING\<close> and
  \<^verbatim>\<open>LABEL\<close> tokens and nested sets of these, on a tape of at most \<open>2 ^ 32\<close> bytes,
  \<^verbatim>\<open>GetSetArgument\<close> returns the offsets of all these tokens in tape order, at every
  nesting depth (nested sets are flattened; the depth only finds the matching
  \<^verbatim>\<open>SET_END\<close>), and leaves the cursor behind that \<^verbatim>\<open>SET_END\<close>. When no element is a
  nested set, these are exactly the offsets of the top-level elements.
\<close>

theorem GetSetArgument_offsets:
  assumes "list_all getset_ok xs" and "list_all wf_arg xs"
    and "bs = pre @ arg_bytes (ASet xs) @ post" and "length bs \<le> 2 ^ 32"
  shows "GetSetArgument \<lparr>bytes = bs, readPtr = length pre\<rparr> =
           Inr (leaf_offsets (length pre + 1) xs,
                \<lparr>bytes = bs, readPtr = length pre + length (arg_bytes (ASet xs))\<rparr>) \<and>
         (list_all is_leaf xs \<longrightarrow>
            leaf_offsets (length pre + 1) xs = top_offsets (length pre + 1) xs)"
  using GetSetArgument_flattens [OF assms] leaf_offsets_flat by blast

theorem GetSetArgument_offsets_witness:
  "list_all getset_ok [AString [65, 66], ASet [AReal [0, 0, 0, 0, 0, 0, 240, 63], ALabel [88]], ARef 7] \<and>
   list_all wf_arg [AString [65, 66], ASet [AReal [0, 0, 0, 0, 0, 0, 240, 63], ALabel [88]], ARef 7] \<and>
   GetSetArgument
     \<lparr>bytes = [6, 7, 1, 2, 65, 66, 7, 4, 0, 0, 0, 0, 0, 0, 240, 63, 2, 1, 88, 8, 5, 7, 0, 0, 0, 8, 9],
      readPtr = 1\<rparr> =
   Inr ([2, 7, 16, 20],
     \<lparr>bytes = [6, 7, 1, 2, 65, 66, 7, 4, 0, 0, 0, 0, 0, 0, 240, 63, 2, 1, 88, 8, 5, 7, 0, 0, 0, 8, 9],
      readPtr = 26\<rparr>)"
proof -
  let ?xs = "[AString [65, 66], ASet [AReal [0, 0, 0, 0, 0, 0, 240, 63], ALabel [88]], ARef 7]"
  let ?bs = "[6, 7, 1, 2, 65, 66, 7, 4, 0, 0, 0, 0, 0, 0, 240, 63, 2, 1, 88, 8, 5, 7, 0, 0, 0, 8, 9] :: byte list"
  have ok: "list_all getset_ok ?xs" and wf: "list_all wf_arg ?xs" by simp_all
  have bs: "?bs = [6] @ arg_bytes (ASet ?xs) @ [9]" by (simp add: nat_le_4)
  have len: "length ?bs \<le> 2 ^ 32" by simp
  have lo: "leaf_offsets (length [6 :: byte] + 1) ?xs = [2, 7, 16, 20]"
    by (simp add: leaf_offsets.simps nat_le_4)
  have "GetSetArgument \<lparr>bytes = ?bs, readPtr = length [6 :: byte]\<rparr> =
     Inr (leaf_offsets (length [6 :: byte] + 1) ?xs,
          \<lparr>bytes = ?bs, readPtr = length [6 :: byte] + length (arg_bytes (ASet ?xs))\<rparr>)"
    using GetSetArgument_offsets [OF ok wf bs len] by blast
  then show ?thesis using ok wf unfolding lo by simp
qed

section \<open>Claims about the line indices\<close>

text \<open>
  C2: after every sequence of \<^verbatim>\<open>UpdateLineTape\<close> calls a write to a known handle rewrites
  only the offsets of its record, and a write to a new handle invalidates no mapping from
  a handle to its line. The code breaks both. Writing the handles 3, 5 and 2 in this order
  to an empty model: the third call resizes the handle table to \<open>2 * 2 = 4\<close> entries,
  which cuts off the entry of handle 5 (line 1 before the call). Writing handle 3 twice:
  its line ID is 0, the value that also means "no line", so the second write appends a
  second record for the handle.
\<close>

theorem UpdateLineTape_loses_mappings:
  "ebind (UpdateLineTape 3 7 0 10 (IfcLoader_init default_settings)) (\<lambda>s1.
   ebind (UpdateLineTape 5 7 10 20 s1) (\<lambda>s2.
   ebind (UpdateLineTape 2 7 20 30 s2) (\<lambda>s3.
     Inr (ExpressIDToLineID s2 5, ExpressIDToLineID s3 5, length (expressIDToLine (metaData s3)))))) =
   Inr (Inr 1, Inl IndexOutOfRange, 4) \<and>
   ebind (UpdateLineTape 3 7 0 10 (IfcLoader_init default_settings)) (\<lambda>s1.
   ebind (UpdateLineTape 3 7 10 20 s1) (\<lambda>s2.
     Inr (lines (metaData s1), lines (metaData s2)))) =
   Inr ([\<lparr>expressID = 3, lineIndex = 0, ifcType = 7, tapeOffset = 0, tapeEnd = 10\<rparr>],
        [\<lparr>expressID = 3, lineIndex = 0, ifcType = 7, tapeOffset = 0, tapeEnd = 10\<rparr>,
         \<lparr>expressID = 3, lineIndex = 1, ifcType = 7, tapeOffset = 10, tapeEnd = 20\<rparr>])"
  by (simp add: index_eval)

text \<open>
  The member function \<^verbatim>\<open>GetLineIDsWithType\<close> of the loader returns line IDs, the indices
  into the line table, and \<^verbatim>\<open>GetExpressIDsWithType\<close> returns the handles of the same
  lines: in a model built by \<^verbatim>\<open>UpdateLineTape\<close> calls, those of exactly the lines of the
  type, in insertion order.
\<close>

lemma GetLineIDsWithType_line_ids:
  assumes "UpdateLineTape_calls calls (IfcLoader_init st) = Inr s"
  shows "GetLineIDsWithType s T =
           filter (\<lambda>i. ifcType (lines (metaData s) ! i) = T) [0..<length (lines (metaData s))] \<and>
         GetExpressIDsWithType s T =
           Inr (map expressID (filter (\<lambda>l. ifcType l = T) (lines (metaData s))))"
  using UpdateLineTape_calls_type_index [OF assms] type_index_GetExpressIDsWithType [of s T]
  by (simp add: GetLineIDsWithType_def type_index_ok_def)


section \<open>The open flag\<close>


lemma for_each_open_flag:
  assumes "\<And>x s s'. f x s = Inr s' \<Longrightarrow> open_flag s' = open_flag s"
  shows "for_each f xs s = Inr s' \<Longrightarrow> open_flag s' = open_flag s"
  using for_each_invariant [where I = "\<lambda>t. open_flag t = open_flag s" and f = f and xs = xs and s = s and s' = s']
    assms by simp

lemma UpdateLineTape_open_flag:
  "UpdateLineTape eid type start end s = Inr s' \<Longrightarrow> open_flag s' = open_flag s"
  unfolding UpdateLineTape_def Let_def
  by (elim ebind_InrE) (auto split: if_splits)

lemma PopulateRelVoidsMap_open_flag:
  "PopulateRelVoidsMap c s = Inr s' \<Longrightarrow> open_flag s' = open_flag s"
  unfolding PopulateRelVoidsMap_def
proof (elim ebind_InrE)
  fix ids assume "for_each PopulateRelVoidsMap_line ids s = Inr s'"
  then show ?thesis
  proof (rule for_each_open_flag [rotated])
    fix x t t' assume "PopulateRelVoidsMap_line x t = Inr t'"
    then show "open_flag t' = open_flag t"
      unfolding PopulateRelVoidsMap_line_def
      by (auto elim!: ebind_InrE split: prod.splits)
  qed
qed

lemma append_pair_loop_open_flag:
  "for_each (\<lambda>x s1. ebind (GetRefArgument_at x (tape s1)) (\<lambda>(r, tp). Inr (s1\<lparr>tape := tp, metaData := g r s1\<rparr>)))
     xs s = Inr s' \<Longrightarrow> open_flag s' = open_flag s"
  by (erule for_each_open_flag [rotated]) (auto elim!: ebind_InrE split: prod.splits)

lemma PopulateRelAggregatesMap_open_flag:
  "PopulateRelAggregatesMap c s = Inr s' \<Longrightarrow> open_flag s' = open_flag s"
  unfolding PopulateRelAggregatesMap_def
proof (elim ebind_InrE)
  fix ids assume "for_each PopulateRelAggregatesMap_line ids s = Inr s'"
  then show ?thesis
  proof (rule for_each_open_flag [rotated])
    fix x t t' assume "PopulateRelAggregatesMap_line x t = Inr t'"
    then show "open_flag t' = open_flag t"
      unfolding PopulateRelAggregatesMap_line_def
      by (auto elim!: ebind_InrE split: prod.splits dest!: append_pair_loop_open_flag)
  qed
qed

lemma PopulateStyledItemMap_open_flag:
  "PopulateStyledItemMap c s = Inr s' \<Longrightarrow> open_flag s' = open_flag s"
  unfolding PopulateStyledItemMap_def
proof (elim ebind_InrE)
  fix ids assume "for_each PopulateStyledItemMap_line ids s = Inr s'"
  then show ?thesis
  proof (rule for_each_open_flag [rotated])
    fix x t t' assume "PopulateStyledItemMap_line x t = Inr t'"
    then show "open_flag t' = open_flag t"
      unfolding PopulateStyledItemMap_line_def
      by (auto elim!: ebind_InrE split: prod.splits if_splits dest!: append_pair_loop_open_flag)
  qed
qed

lemma PopulateRelMaterialsMap_open_flag:
  "PopulateRelMaterialsMap c s = Inr s' \<Longrightarrow> open_flag s' = open_flag s"
  unfolding PopulateRelMaterialsMap_def
proof (elim ebind_InrE)
  fix ids s1 ids'
  assume 1: "for_each PopulateRelMaterialsMap_line ids s = Inr s1"
    and 2: "for_each PopulateMaterialDefinitions_line ids' s1 = Inr s'"
  have "open_flag s1 = open_flag s" using 1
  proof (rule for_each_open_flag [rotated])
    fix x t t' assume "PopulateRelMaterialsMap_line x t = Inr t'"
    then show "open_flag t' = open_flag t"
      unfolding PopulateRelMaterialsMap_line_def
      by (auto elim!: ebind_InrE split: prod.splits dest!: append_pair_loop_open_flag)
  qed
  moreover have "open_flag s' = open_flag s1" using 2
  proof (rule for_each_open_flag [rotated])
    fix x t t' assume "PopulateMaterialDefinitions_line x t = Inr t'"
    then show "open_flag t' = open_flag t"
      unfolding PopulateMaterialDefinitions_line_def
      by (auto elim!: ebind_InrE split: prod.splits dest!: append_pair_loop_open_flag)
  qed
  ultimately show ?thesis by simp
qed

lemma ReadLinearScalingFactor_open_flag:
  "ReadLinearScalingFactor c s = Inr s' \<Longrightarrow> open_flag s' = open_flag s"
  unfolding ReadLinearScalingFactor_def Let_def
proof (elim ebind_InrE)
  fix projects
  assume a: "(if length projects \<noteq> 1 then Inr s
      else ebind (ExpressIDToLineID s (projects ! 0)) (\<lambda>lineID.
          ebind (GetLine s lineID) (\<lambda>line.
          ebind (MoveToArgumentOffset (tape s) line 8) (\<lambda>tp1.
          ebind (GetRefArgument tp1) (\<lambda>(unitsID, tp2).
          ebind (ExpressIDToLineID s unitsID) (\<lambda>unitsLineID.
          ebind (GetLine s unitsLineID) (\<lambda>unitsLine.
          ebind (MoveToArgumentOffset tp2 unitsLine 0) (\<lambda>tp3.
          ebind (GetSetArgument tp3) (\<lambda>(unitIds, tp4).
            for_each (ReadLinearScalingFactor_unit c) unitIds (s\<lparr>tape := tp4\<rparr>)))))))))) = Inr s'"
  have unit: "open_flag t' = open_flag t" if "ReadLinearScalingFactor_unit c x t = Inr t'" for x t t'
    using that unfolding ReadLinearScalingFactor_unit_def
    by (auto elim!: ebind_InrE split: prod.splits if_splits)
  show ?thesis
  proof (cases "length projects \<noteq> 1")
    case True
    then show ?thesis using a by simp
  next
    case False
    then show ?thesis using a
      by (auto elim!: ebind_InrE split: prod.splits dest!: for_each_open_flag [OF unit, rotated])
  qed
qed

lemma LoadFile_open_flag:
  "LoadFile env content s = Inr s' \<Longrightarrow> open_flag s' = open_flag s"
  unfolding LoadFile_def
  by (auto elim!: ebind_InrE split: prod.splits
      dest!: PopulateRelVoidsMap_open_flag PopulateRelAggregatesMap_open_flag
        PopulateStyledItemMap_open_flag PopulateRelMaterialsMap_open_flag
        ReadLinearScalingFactor_open_flag)

lemma DumpAsIFC_open_flag:
  "DumpAsIFC env s = Inr (file, s') \<Longrightarrow> open_flag s' = open_flag s"
  unfolding DumpAsIFC_def
  by (auto elim!: ebind_InrE split: prod.splits)

lemma call_open_flag:
  "call env c s = Inr s' \<Longrightarrow> open_flag s' = open_flag s"
proof (cases c)
  case (Call_LoadFile content)
  then show "call env c s = Inr s' \<Longrightarrow> ?thesis" using LoadFile_open_flag by simp
next
  case Call_ReadLinearScalingFactor
  then show "call env c s = Inr s' \<Longrightarrow> ?thesis" using ReadLinearScalingFactor_open_flag by simp
next
  case Call_PopulateRelVoidsMap
  then show "call env c s = Inr s' \<Longrightarrow> ?thesis" using PopulateRelVoidsMap_open_flag by simp
next
  case Call_PopulateRelAggregatesMap
  then show "call env c s = Inr s' \<Longrightarrow> ?thesis" using PopulateRelAggregatesMap_open_flag by simp
next
  case Call_PopulateStyledItemMap
  then show "call env c s = Inr s' \<Longrightarrow> ?thesis" using PopulateStyledItemMap_open_flag by simp
next
  case Call_PopulateRelMaterialsMap
  then show "call env c s = Inr s' \<Longrightarrow> ?thesis" using PopulateRelMaterialsMap_open_flag by simp
next
  case (Call_UpdateLineTape eid type start end')
  then show "call env c s = Inr s' \<Longrightarrow> ?thesis" using UpdateLineTape_open_flag by simp
next
  case Call_DumpAsIFC
  then show "call env c s = Inr s' \<Longrightarrow> ?thesis"
    by (auto elim!: ebind_InrE split: prod.splits dest!: DumpAsIFC_open_flag)
qed (auto simp: PushDataToTape_def MoveToLine_def MoveToLineArgument_def
      elim!: ebind_InrE split: prod.splits)

text \<open>
  C10: \<^verbatim>\<open>IsOpen()\<close> is false at construction and after every sequence of public
  operations of the loader that runs to its end.
\<close>

theorem IsOpen_always_false:
  "\<not> IsOpen (IfcLoader_init st) \<and>
   (for_each (call env) calls (IfcLoader_init st) = Inr s \<longrightarrow> \<not> IsOpen s)"
proof -
  have init: "open_flag (IfcLoader_init st) = False" by (simp add: IfcLoader_init_def)
  have "open_flag s = open_flag (IfcLoader_init st)"
    if "for_each (call env) calls (IfcLoader_init st) = Inr s"
    using that by (rule for_each_open_flag [rotated]) (rule call_open_flag)
  then show ?thesis using init by (simp add: IsOpen_def)
qed

definition stub_collaborators :: collaborators where
  "stub_collaborators =
     \<lparr>codes = \<lparr>IFCPROJECT = 1, IFCSIUNIT = 2, IFCRELVOIDSELEMENT = 3, IFCRELAGGREGATES = 4,
                IFCSTYLEDITEM = 5, IFCRELASSOCIATESMATERIAL = 6,
                IFCMATERIALDEFINITIONREPRESENTATION = 7\<rparr>,
      Tokenize = (\<lambda>content tp. Inr (0, tp)),
      ParseTape = (\<lambda>numLines tp md. Inr (tp, md)),
      format_double = (\<lambda>precision d. ''0'')\<rparr>"

theorem IsOpen_always_false_witness:
  "ebind (for_each (call stub_collaborators)
            [Call_LoadFile '''', Call_UpdateLineTape 3 7 0 10, Call_DumpAsIFC]
            (IfcLoader_init default_settings))
     (\<lambda>s. Inr (IsOpen s, map expressID (lines (metaData s)))) = Inr (False, [3])"
proof -
  let ?run = "for_each (call stub_collaborators)
            [Call_LoadFile '''', Call_UpdateLineTape 3 7 0 10, Call_DumpAsIFC]
            (IfcLoader_init default_settings)"
  have ev: "ebind ?run (\<lambda>s. Inr (map expressID (lines (metaData s)))) = Inr [3]"
    by (simp add: stub_collaborators_def LoadFile_def PopulateRelVoidsMap_def
        PopulateRelAggregatesMap_def PopulateStyledItemMap_def PopulateRelMaterialsMap_def
        ReadLinearScalingFactor_def DumpAsIFC_def DumpAsIFC_line_loop.simps AtEnd_def MoveTo_def
        index_eval)
  then obtain s where run: "?run = Inr s"
    and "Inr (map expressID (lines (metaData s))) = (Inr [3] :: error + nat list)"
    by (rule ebind_InrE)
  then have ls: "map expressID (lines (metaData s)) = [3]" by simp
  have "\<not> IsOpen s"
    using IsOpen_always_false [where st = default_settings and env = stub_collaborators and s = s]
      run by blast
  then show ?thesis unfolding run by (simp add: ebind_def ls)
qed

section \<open>Claims about the serialiser\<close>

lemmas dump_eval = DumpAsIFC_def DumpAsIFC_line_loop.simps DumpAsIFC_token_def DumpAsIFC_switch_def
  DumpAsIFC_header_def DumpAsIFC_footer_def DumpAsIFC_precision_def digits10_def AtEnd_def
  string_of_bytes_def show_nat.simps PushDataToTape_def push_def char_of_def bit_0

text \<open>
  C5: the text of \<^verbatim>\<open>DumpAsIFC\<close> begins with a well-formed header whose description is a
  correctly quoted string. The code writes the description without its closing quote and
  parenthesis: for the empty model the text is the one below, and the
  \<^verbatim>\<open>FILE_DESCRIPTION\<close> line holds three quote characters. The \<^verbatim>\<open>FILE_NAME\<close> line, written
  by the next statement, closes every string it opens.
\<close>

theorem DumpAsIFC_header_unclosed_quote:
  "DumpAsIFC env (IfcLoader_init st) =
     Inr (''ISO-10303-21;'' @ [CHR 0x0A] @
          ''HEADER;'' @ [CHR 0x0A] @
          ''FILE_DESCRIPTION(('' @ [CHR 0x27] @ ''no description), '' @ [CHR 0x27] @ ''2;1'' @
             [CHR 0x27] @ '');'' @ [CHR 0x0A] @
          ''FILE_NAME('' @ [CHR 0x27] @ ''no name'' @ [CHR 0x27] @ '', '' @ [CHR 0x27, CHR 0x27] @
             '', ('' @ [CHR 0x27, CHR 0x27] @ ''), ('' @ [CHR 0x27, CHR 0x27] @ ''), '' @
             [CHR 0x27] @ ''web-ifc-export'' @ [CHR 0x27] @ '');'' @ [CHR 0x0A] @
          ''FILE_SCHEMA(('' @ [CHR 0x27] @ ''IFC2X3'' @ [CHR 0x27] @ ''));'' @ [CHR 0x0A] @
          ''ENDSEC;'' @ [CHR 0x0A] @
          ''DATA;'' @ [CHR 0x0A] @
          ''ENDSEC;'' @ [CHR 0x0A] @
          ''END-ISO-10303-21;'',
          IfcLoader_init st) \<and>
   count_list (''FILE_DESCRIPTION(('' @ [CHR 0x27] @ ''no description), '' @ [CHR 0x27] @ ''2;1'' @
             [CHR 0x27] @ '');'') (CHR 0x27) = 3"
  by (simp add: dump_eval IfcLoader_init_def IfcMetaData_init_def ebind_def endl_def quote_def)

text \<open>
  C4: a \<^verbatim>\<open>REAL\<close> is printed with 17 significant digits, so that reading the text back
  gives the same \<^verbatim>\<open>double\<close>. The stream of \<^verbatim>\<open>DumpAsIFC\<close> is set to
  \<^verbatim>\<open>digits10 + 1\<close>, which is 16: for the line \<^verbatim>\<open>#1=X(d);\<close> the text holds the value
  formatted with precision 16, whatever the formatting function is. For the \<^verbatim>\<open>double\<close>
  with the bits \<^verbatim>\<open>0x3FD3333333333334\<close> (the sum of 0.1 and 0.2, which is
  \<open>5404319552844596 / 2 ^ 54\<close>) the decimal of 16 significant digits nearest to it is
  0.3000000000000000, and the \<^verbatim>\<open>double\<close> nearest to 0.3 is its neighbour
  \<open>5404319552844595 / 2 ^ 54\<close>.
\<close>

theorem DumpAsIFC_prints_16_digits:
  "DumpAsIFC_precision = 16 \<and>
   ebind (UpdateLineTape 1 0 0 19
            (PushDataToTape
               ([5, 1, 0, 0, 0, 2, 1, 88, 7, 4] @ [0x34, 0x33, 0x33, 0x33, 0x33, 0x33, 0xD3, 0x3F] @
                [8, 9])
               (IfcLoader_init st)))
     (\<lambda>s. ebind (DumpAsIFC env s) (\<lambda>(file, s'). Inr file)) =
   Inr (DumpAsIFC_header @ ''#1=X('' @
        format_double env 16 [0x34, 0x33, 0x33, 0x33, 0x33, 0x33, 0xD3, 0x3F] @ '');'' @
        endl @ DumpAsIFC_footer) \<and>
   le_nat [0x34, 0x33, 0x33, 0x33, 0x33, 0x33, 0xD3, 0x3F] = 0x3FD3333333333334 \<and>
   (0x3FD3333333333334 :: nat) = 1021 * 2 ^ 52 + (5404319552844596 - 2 ^ 52) \<and>
   \<bar>5404319552844596 / 2 ^ 54 - 3 / 10 :: real\<bar> < 1 / 2 * (1 / 10 ^ 16) \<and>
   \<bar>3 / 10 - 5404319552844595 / 2 ^ 54 :: real\<bar> < \<bar>3 / 10 - 5404319552844596 / 2 ^ 54 :: real\<bar>"
proof -
  have 1: "DumpAsIFC_precision = 16" by (simp add: DumpAsIFC_precision_def digits10_def)
  have 2: "ebind (UpdateLineTape 1 0 0 19
            (PushDataToTape
               ([5, 1, 0, 0, 0, 2, 1, 88, 7, 4] @ [0x34, 0x33, 0x33, 0x33, 0x33, 0x33, 0xD3, 0x3F] @
                [8, 9])
               (IfcLoader_init st)))
     (\<lambda>s. ebind (DumpAsIFC env s) (\<lambda>(file, s'). Inr file)) =
   Inr (DumpAsIFC_header @ ''#1=X('' @
        format_double env 16 [0x34, 0x33, 0x33, 0x33, 0x33, 0x33, 0xD3, 0x3F] @ '');'' @
        endl @ DumpAsIFC_footer)"
    by (simp add: DumpAsIFC_def DumpAsIFC_line_loop.simps DumpAsIFC_token_def DumpAsIFC_switch_def
        DumpAsIFC_precision_def digits10_def AtEnd_def string_of_bytes_def show_nat.simps
        PushDataToTape_def push_def tape_eval index_eval char_of_def bit_0)
  have 3: "le_nat [0x34, 0x33, 0x33, 0x33, 0x33, 0x33, 0xD3, 0x3F] = 0x3FD3333333333334" by simp
  have 4: "(0x3FD3333333333334 :: nat) = 1021 * 2 ^ 52 + (5404319552844596 - 2 ^ 52)" by simp
  have 5: "\<bar>5404319552844596 / 2 ^ 54 - 3 / 10 :: real\<bar> < 1 / 2 * (1 / 10 ^ 16)" by simp
  have 6: "\<bar>3 / 10 - 5404319552844595 / 2 ^ 54 :: real\<bar> < \<bar>3 / 10 - 5404319552844596 / 2 ^ 54 :: real\<bar>"
    by simp
  show ?thesis using 1 2 3 4 5 6 by blast
qed


section \<open>Reading references and text tokens\<close>

lemma unat_byte_mod: "unat (of_nat (v mod 256) :: byte) = v mod 256"
  by (simp add: unat_of_nat)

lemma le_nat_nat_le_4:
  assumes "r < 2 ^ 32"
  shows "le_nat (nat_le 4 r) = r"
proof -
  have "le_nat (nat_le 4 r) =
      r mod 256 + 256 * (r div 256 mod 256 + 256 * (r div 256 div 256 mod 256 +
        256 * (r div 256 div 256 div 256 mod 256)))"
    by (simp add: nat_le_4 unat_byte_mod)
  also have "\<dots> = r" using assms by (simp add: div_mult2_eq)
  finally show ?thesis .
qed

lemma GetRefArgument_ARef:
  assumes "bs = pre @ arg_bytes (ARef r) @ post" "p = length pre" "r < 2 ^ 32"
  shows "GetRefArgument \<lparr>bytes = bs, readPtr = p\<rparr> = Inr (r, \<lparr>bytes = bs, readPtr = p + 5\<rparr>)"
proof -
  have b1: "bs = pre @ token_code REF # (nat_le 4 r @ post)" using assms(1) by simp
  have b2: "bs = (pre @ [token_code REF]) @ nat_le 4 r @ post" using assms(1) by simp
  have r1: "Read_char \<lparr>bytes = bs, readPtr = length pre\<rparr> =
      Inr (token_code REF, \<lparr>bytes = bs, readPtr = length pre + 1\<rparr>)"
    by (rule Read_char_at' [OF b1 refl])
  have r2: "ReadBytes 4 \<lparr>bytes = bs, readPtr = Suc (length pre)\<rparr> =
      Inr (nat_le 4 r, \<lparr>bytes = bs, readPtr = Suc (length pre) + 4\<rparr>)"
    by (rule ReadBytes_at' [OF b2]) simp_all
  show ?thesis
    unfolding assms(2)
    using le_nat_nat_le_4 [OF assms(3)]
    by (simp add: GetRefArgument_def ebind_def Read_uint32_def r1 r2 del: nat_le.simps)
qed

lemma GetTokenType_REF:
  assumes "bs = pre @ arg_bytes (ARef r) @ post" "p = length pre"
  shows "GetTokenType \<lparr>bytes = bs, readPtr = p\<rparr> = Inr (Some REF, \<lparr>bytes = bs, readPtr = p + 1\<rparr>)"
proof -
  have b1: "bs = pre @ token_code REF # (nat_le 4 r @ post)" using assms(1) by simp
  show ?thesis
    unfolding assms(2)
    by (simp add: GetTokenType_def ebind_def Read_char_at' [OF b1 refl] token_of_byte_def)
qed

lemma GetRefArgument_at_ARef:
  assumes "bytes tp = pre @ arg_bytes (ARef r) @ post" "r < 2 ^ 32"
  shows "GetRefArgument_at (length pre) tp =
           Inr (r, \<lparr>bytes = bytes tp, readPtr = length pre + 5\<rparr>)"
  using GetRefArgument_ARef [OF assms(1) refl assms(2)]
  by (simp add: GetRefArgument_at_def MoveTo_def tape_readPtr_update)

lemma length_arg_bytes_ARef: "length (arg_bytes (ARef r)) = 5"
  by simp

lemma ref_loop:
  assumes "list_all (\<lambda>r. r < 2 ^ 32) rs"
    and "bytes (tape s) = pre @ args_bytes (map ARef rs) @ post"
  shows "\<exists>tp. for_each
           (\<lambda>off s1. ebind (GetRefArgument_at off (tape s1))
              (\<lambda>(r, tp). Inr (s1\<lparr>tape := tp, metaData := upd r (metaData s1)\<rparr>)))
           (top_offsets (length pre) (map ARef rs)) s =
         Inr (s\<lparr>tape := tp, metaData := foldl (\<lambda>md r. upd r md) (metaData s) rs\<rparr>) \<and>
         bytes tp = bytes (tape s)"
  using assms
proof (induction rs arbitrary: pre s)
  case Nil
  have "s = s\<lparr>tape := tape s, metaData := metaData s\<rparr>" by simp
  then show ?case by (intro exI [of _ "tape s"]) simp
next
  case (Cons r rs)
  let ?bs = "bytes (tape s)"
  let ?tp1 = "\<lparr>bytes = ?bs, readPtr = length pre + 5\<rparr>"
  let ?s1 = "s\<lparr>tape := ?tp1, metaData := upd r (metaData s)\<rparr>"
  have r: "r < 2 ^ 32" and rs: "list_all (\<lambda>r. r < 2 ^ 32) rs" using Cons.prems(1) by simp_all
  have b1: "?bs = pre @ arg_bytes (ARef r) @ (args_bytes (map ARef rs) @ post)"
    using Cons.prems(2) by simp
  have b2: "bytes (tape ?s1) = (pre @ arg_bytes (ARef r)) @ args_bytes (map ARef rs) @ post"
    using Cons.prems(2) by simp
  have step: "GetRefArgument_at (length pre) (tape s) = Inr (r, ?tp1)"
    by (rule GetRefArgument_at_ARef [OF b1 r])
  obtain tp where run: "for_each
           (\<lambda>off s1. ebind (GetRefArgument_at off (tape s1))
              (\<lambda>(r, tp). Inr (s1\<lparr>tape := tp, metaData := upd r (metaData s1)\<rparr>)))
           (top_offsets (length (pre @ arg_bytes (ARef r))) (map ARef rs)) ?s1 =
         Inr (?s1\<lparr>tape := tp, metaData := foldl (\<lambda>md r. upd r md) (metaData ?s1) rs\<rparr>)"
    and tp: "bytes tp = bytes (tape ?s1)"
    using Cons.IH [OF rs b2] by blast
  have len: "length (pre @ arg_bytes (ARef r)) = length pre + 5" by simp
  show ?case
    using run tp unfolding len
    by (intro exI [of _ tp]) (simp add: step ebind_def length_arg_bytes_ARef del: arg_bytes.simps(6))
qed

lemma top_offsets_ARef_leaf: "list_all is_leaf (map ARef rs)"
  by (induction rs) simp_all

lemma getset_ok_ARef: "list_all getset_ok (map ARef rs)"
  by (induction rs) simp_all

lemma wf_arg_ARef: "list_all wf_arg (map ARef rs) = list_all (\<lambda>r. r < 2 ^ 32) rs"
  by (induction rs) simp_all

lemma foldl_styled:
  "foldl (\<lambda>md r. md\<lparr>styledItems := (styledItems md)(k := styledItems md k @ [(h, r)])\<rparr>) md rs =
   md\<lparr>styledItems := (styledItems md)(k := styledItems md k @ map (\<lambda>r. (h, r)) rs)\<rparr>"
proof (induction rs arbitrary: md)
  case Nil
  then show ?case by simp
next
  case (Cons r rs)
  show ?case
    apply (simp only: foldl.simps Cons.IH)
    apply (simp cong: if_cong)
    done
qed

section \<open>The styled-item pass\<close>

lemma line_at_wf: "line_at bs off hdr args \<Longrightarrow> list_all wf_arg args"
  by (simp add: line_at_def)

text \<open>
  One round of the loop of \<^verbatim>\<open>PopulateStyledItemMap\<close>, for a styled item whose argument 0
  is a \<^verbatim>\<open>REF\<close> and whose argument 1 is a set of \<^verbatim>\<open>REF\<close>s: the look-up of the line of the
  representation item does not move the cursor, so the set read is argument 1 of the
  styled item.
\<close>

lemma PopulateStyledItemMap_line_REF:
  assumes sid: "ExpressIDToLineID s styledItemID = Inr lineID"
    and gl: "GetLine s lineID = Inr line"
    and la: "line_at (bytes (tape s)) (tapeOffset line) hdr
           (ARef repItem # ASet (map ARef styleAssignments) # rest)"
    and rid: "ExpressIDToLineID s repItem = Inr lineID'"
    and rl: "GetLine s lineID' = Inr line'"
    and len: "length (bytes (tape s)) \<le> 2 ^ 32"
  shows "\<exists>tp. PopulateStyledItemMap_line styledItemID s =
           Inr (s\<lparr>tape := tp,
                  metaData := (metaData s)\<lparr>styledItems := (styledItems (metaData s))
                    (repItem := styledItems (metaData s) repItem @
                       map (\<lambda>a. (styledItemID, a)) styleAssignments)\<rparr>\<rparr>) \<and>
         bytes tp = bytes (tape s)"
proof -
  let ?bs = "bytes (tape s)"
  let ?sas = "map ARef styleAssignments"
  let ?args = "ARef repItem # ASet ?sas # rest"
  let ?b = "token_code SET_BEGIN" and ?e = "token_code SET_END"
  obtain pre post where bs: "?bs = pre @ args_bytes hdr @ arg_bytes (ASet ?args) @ post"
    and off: "length pre = tapeOffset line"
    using la by (rule line_at_split)
  have wf: "repItem < 2 ^ 32" "list_all (\<lambda>r. r < 2 ^ 32) styleAssignments"
    using line_at_wf [OF la] by (simp_all add: wf_arg_ARef)
  define pre0 where "pre0 = pre @ args_bytes hdr @ [?b]"
  define pre1 where "pre1 = pre0 @ arg_bytes (ARef repItem)"
  define post1 where "post1 = args_bytes rest @ ?e # post"
  define p0 where "p0 = length pre0"
  have p0: "arg_offset (tapeOffset line) hdr ?args (nat 0) = p0"
    by (simp add: arg_offset_def p0_def pre0_def off)
  have b0: "?bs = pre0 @ arg_bytes (ARef repItem) @ (arg_bytes (ASet ?sas) @ post1)"
    using bs by (simp add: pre0_def post1_def del: arg_bytes.simps(6))
  have b1: "?bs = pre1 @ arg_bytes (ASet ?sas) @ post1"
    using b0 by (simp add: pre1_def)
  have b2: "?bs = (pre1 @ [?b]) @ args_bytes ?sas @ (?e # post1)"
    using b1 by simp
  have l1: "length pre1 = p0 + 5" by (simp add: pre1_def p0_def)
  have m0: "MoveToArgumentOffset (tape s) line 0 = Inr \<lparr>bytes = ?bs, readPtr = p0\<rparr>"
    using MoveToArgumentOffset_in_range [OF la, of 0] p0 by simp
  have tt: "GetTokenType \<lparr>bytes = ?bs, readPtr = p0\<rparr> =
      Inr (Some REF, \<lparr>bytes = ?bs, readPtr = Suc p0\<rparr>)"
    using GetTokenType_REF [OF b0, of p0] by (simp add: p0_def)
  have rv: "Reverse \<lparr>bytes = ?bs, readPtr = Suc p0\<rparr> = \<lparr>bytes = ?bs, readPtr = p0\<rparr>"
    by (simp add: Reverse_def)
  have gr: "GetRefArgument \<lparr>bytes = ?bs, readPtr = p0\<rparr> =
      Inr (repItem, \<lparr>bytes = ?bs, readPtr = p0 + 5\<rparr>)"
    by (rule GetRefArgument_ARef [OF b0 _ wf(1)]) (simp add: p0_def)
  define tp4 where "tp4 = \<lparr>bytes = ?bs, readPtr = length pre1 + length (arg_bytes (ASet ?sas))\<rparr>"
  have gs: "GetSetArgument \<lparr>bytes = ?bs, readPtr = p0 + 5\<rparr> =
      Inr (top_offsets (length (pre1 @ [?b])) ?sas, tp4)"
  proof -
    have ok: "list_all getset_ok ?sas" by (rule getset_ok_ARef)
    have wfs: "list_all wf_arg ?sas" using wf(2) by (simp add: wf_arg_ARef)
    have flat: "leaf_offsets (length pre1 + 1) ?sas = top_offsets (length pre1 + 1) ?sas"
      by (rule leaf_offsets_flat [OF top_offsets_ARef_leaf])
    show ?thesis
      using GetSetArgument_flattens [OF ok wfs b1 len] flat
      by (simp add: l1 tp4_def)
  qed
  let ?upd = "\<lambda>r md. md\<lparr>styledItems := (styledItems md)
      (repItem := styledItems md repItem @ [(styledItemID, r)])\<rparr>"
  have b3: "bytes (tape (s\<lparr>tape := tp4\<rparr>)) = (pre1 @ [?b]) @ args_bytes ?sas @ (?e # post1)"
    using b2 by (simp add: tp4_def)
  obtain tp where loop: "for_each
           (\<lambda>off s1. ebind (GetRefArgument_at off (tape s1))
              (\<lambda>(r, tp). Inr (s1\<lparr>tape := tp, metaData := ?upd r (metaData s1)\<rparr>)))
           (top_offsets (length (pre1 @ [?b])) ?sas) (s\<lparr>tape := tp4\<rparr>) =
         Inr (s\<lparr>tape := tp4\<rparr>\<lparr>tape := tp,
                metaData := foldl (\<lambda>md r. ?upd r md) (metaData (s\<lparr>tape := tp4\<rparr>))
                  styleAssignments\<rparr>)"
    and tpb: "bytes tp = bytes (tape (s\<lparr>tape := tp4\<rparr>))"
    using ref_loop [OF wf(2) b3, where upd = ?upd] by blast
  have fin: "PopulateStyledItemMap_line styledItemID s =
      Inr (s\<lparr>tape := tp4\<rparr>\<lparr>tape := tp,
                metaData := foldl (\<lambda>md r. ?upd r md) (metaData (s\<lparr>tape := tp4\<rparr>))
                  styleAssignments\<rparr>)"
    unfolding PopulateStyledItemMap_line_def using loop
    by (simp add: sid gl m0 tt rv gr rid rl gs ebind_def del: top_offsets.simps)
  show ?thesis
    using fin tpb by (intro exI [of _ tp]) (simp add: foldl_styled tp4_def)
qed

section \<open>The unit of length\<close>

text \<open>The payload of a token with a length byte, and the tag of the first token of an argument.\<close>

fun text_of :: "arg \<Rightarrow> byte list option" where
  "text_of (AString s) = Some s"
| "text_of (ALabel s) = Some s"
| "text_of (AEnum s) = Some s"
| "text_of _ = None"

fun tag_of :: "arg \<Rightarrow> IfcTokenType" where
  "tag_of AUnknown = UNKNOWN"
| "tag_of (AString s) = STRING"
| "tag_of (ALabel s) = LABEL"
| "tag_of (AEnum s) = ENUM"
| "tag_of (AReal d) = REAL"
| "tag_of (ARef r) = REF"
| "tag_of AEmpty = EMPTY"
| "tag_of (ASet xs) = SET_BEGIN"

lemma arg_bytes_tag: "\<exists>rest. arg_bytes a = token_code (tag_of a) # rest"
  by (cases a) simp_all

lemma GetTokenType_arg:
  assumes "bs = pre @ arg_bytes a @ post"
  shows "GetTokenType \<lparr>bytes = bs, readPtr = length pre\<rparr> =
           Inr (Some (tag_of a), \<lparr>bytes = bs, readPtr = Suc (length pre)\<rparr>)"
proof -
  obtain rest where "arg_bytes a = token_code (tag_of a) # rest" using arg_bytes_tag by blast
  then have b1: "bs = pre @ token_code (tag_of a) # (rest @ post)" using assms by simp
  show ?thesis
    using Read_char_at' [OF b1 refl] by (simp add: GetTokenType_def ebind_def)
qed

lemma GetStringArgument_text:
  assumes "text_of a = Some view" "wf_arg a" "bs = pre @ arg_bytes a @ post"
  shows "GetStringArgument \<lparr>bytes = bs, readPtr = length pre\<rparr> =
           Inr (string_of_bytes view, \<lparr>bytes = bs, readPtr = length pre + length (arg_bytes a)\<rparr>)"
proof -
  obtain t where ab: "arg_bytes a = t # of_nat (length view) # view" and l: "length view < 256"
    using assms(1,2) by (cases a) simp_all
  have b1: "bs = pre @ t # (of_nat (length view) # view @ post)" using assms(3) ab by simp
  have b2: "bs = (pre @ [t]) @ of_nat (length view) # (view @ post)" using b1 by simp
  have b3: "bs = (pre @ [t, of_nat (length view)]) @ view @ post" using b1 by simp
  have r1: "Read_char \<lparr>bytes = bs, readPtr = length pre\<rparr> =
      Inr (t, \<lparr>bytes = bs, readPtr = length pre + 1\<rparr>)"
    by (rule Read_char_at' [OF b1 refl])
  have r2: "Read_char \<lparr>bytes = bs, readPtr = Suc (length pre)\<rparr> =
      Inr (of_nat (length view), \<lparr>bytes = bs, readPtr = Suc (length pre) + 1\<rparr>)"
    by (rule Read_char_at' [OF b2]) simp
  have r3: "ReadBytes (length view) \<lparr>bytes = bs, readPtr = Suc (Suc (length pre))\<rparr> =
      Inr (view, \<lparr>bytes = bs, readPtr = Suc (Suc (length pre)) + length view\<rparr>)"
    by (rule ReadBytes_at' [OF b3]) simp_all
  show ?thesis
    using l
    by (simp add: GetStringArgument_def ReadStringView_def Read_uint8_def ebind_def r1 r2 r3
        unat_length_byte ab)
qed

lemma line_at_arg:
  assumes "line_at bs off hdr args" "k < length args"
  obtains pre post where "bs = pre @ arg_bytes (args ! k) @ post"
    "length pre = arg_offset off hdr args k"
proof -
  obtain pre post where bs: "bs = pre @ args_bytes hdr @ arg_bytes (ASet args) @ post"
    and off: "length pre = off"
    using assms(1) by (rule line_at_split)
  have args: "args = take k args @ args ! k # drop (Suc k) args"
    using assms(2) by (simp add: id_take_nth_drop)
  have "args_bytes args = args_bytes (take k args) @ arg_bytes (args ! k) @
      args_bytes (drop (Suc k) args)"
    by (subst args) (simp del: append_take_drop_id)
  then have "bs = (pre @ args_bytes hdr @ [token_code SET_BEGIN] @ args_bytes (take k args)) @
      arg_bytes (args ! k) @ (args_bytes (drop (Suc k) args) @ token_code SET_END # post)"
    using bs by simp
  moreover have "length (pre @ args_bytes hdr @ [token_code SET_BEGIN] @ args_bytes (take k args)) =
      arg_offset off hdr args k"
    by (simp add: arg_offset_def off)
  ultimately show ?thesis by (rule that)
qed

lemma line_at_wf_nth: "line_at bs off hdr args \<Longrightarrow> k < length args \<Longrightarrow> wf_arg (args ! k)"
  by (simp add: line_at_def list_all_length)

text \<open>Moving to an argument of a line and reading it.\<close>

lemma MoveTo_GetStringArgument:
  assumes "line_at bs (tapeOffset line) hdr args" "k < length args"
    and "text_of (args ! k) = Some view"
  shows "\<exists>p. ebind (MoveToArgumentOffset \<lparr>bytes = bs, readPtr = q\<rparr> line (int k)) GetStringArgument =
           Inr (string_of_bytes view, \<lparr>bytes = bs, readPtr = p\<rparr>)"
proof -
  obtain pre post where b: "bs = pre @ arg_bytes (args ! k) @ post"
    and l: "length pre = arg_offset (tapeOffset line) hdr args k"
    using assms(1,2) by (rule line_at_arg)
  have m: "MoveToArgumentOffset \<lparr>bytes = bs, readPtr = q\<rparr> line (int k) =
      Inr \<lparr>bytes = bs, readPtr = length pre\<rparr>"
    using MoveToArgumentOffset_in_range [of "\<lparr>bytes = bs, readPtr = q\<rparr>" line hdr args "int k"]
      assms(1,2) l by simp
  show ?thesis
    using GetStringArgument_text [OF assms(3) line_at_wf_nth [OF assms(1,2)] b]
    by (simp add: m ebind_def)
qed

lemma MoveTo_GetTokenType:
  assumes "line_at bs (tapeOffset line) hdr args" "k < length args"
  shows "ebind (MoveToArgumentOffset \<lparr>bytes = bs, readPtr = q\<rparr> line (int k)) GetTokenType =
           Inr (Some (tag_of (args ! k)),
                \<lparr>bytes = bs, readPtr = Suc (arg_offset (tapeOffset line) hdr args k)\<rparr>)"
proof -
  obtain pre post where b: "bs = pre @ arg_bytes (args ! k) @ post"
    and l: "length pre = arg_offset (tapeOffset line) hdr args k"
    using assms(1,2) by (rule line_at_arg)
  have m: "MoveToArgumentOffset \<lparr>bytes = bs, readPtr = q\<rparr> line (int k) =
      Inr \<lparr>bytes = bs, readPtr = length pre\<rparr>"
    using MoveToArgumentOffset_in_range [of "\<lparr>bytes = bs, readPtr = q\<rparr>" line hdr args "int k"]
      assms(1,2) l by simp
  show ?thesis
    using GetTokenType_arg [OF b] l by (simp add: m ebind_def)
qed

lemma MoveTo_arg:
  assumes "line_at bs (tapeOffset line) hdr args" "k < length args"
  shows "MoveToArgumentOffset \<lparr>bytes = bs, readPtr = q\<rparr> line (int k) =
           Inr \<lparr>bytes = bs, readPtr = arg_offset (tapeOffset line) hdr args k\<rparr>"
  using MoveToArgumentOffset_in_range [of "\<lparr>bytes = bs, readPtr = q\<rparr>" line hdr args "int k"]
    assms by simp

lemma GetStringArgument_arg:
  assumes "line_at bs off hdr args" "k < length args" "text_of (args ! k) = Some view"
  shows "GetStringArgument \<lparr>bytes = bs, readPtr = arg_offset off hdr args k\<rparr> =
           Inr (string_of_bytes view,
                \<lparr>bytes = bs, readPtr = arg_offset off hdr args k + length (arg_bytes (args ! k))\<rparr>)"
proof -
  obtain pre post where b: "bs = pre @ arg_bytes (args ! k) @ post"
    and l: "length pre = arg_offset off hdr args k"
    using assms(1,2) by (rule line_at_arg)
  show ?thesis
    using GetStringArgument_text [OF assms(3) line_at_wf_nth [OF assms(1,2)] b] l by simp
qed

lemma GetTokenType_at_arg:
  assumes "line_at bs off hdr args" "k < length args"
  shows "GetTokenType \<lparr>bytes = bs, readPtr = arg_offset off hdr args k\<rparr> =
           Inr (Some (tag_of (args ! k)), \<lparr>bytes = bs, readPtr = Suc (arg_offset off hdr args k)\<rparr>)"
proof -
  obtain pre post where b: "bs = pre @ arg_bytes (args ! k) @ post"
    and l: "length pre = arg_offset off hdr args k"
    using assms(1,2) by (rule line_at_arg)
  show ?thesis using GetTokenType_arg [OF b] l by simp
qed

text \<open>What the tape says about a unit: the text of a token, the prefix, the two tests.\<close>

definition text_string :: "arg \<Rightarrow> string" where
  "text_string a = (case text_of a of Some view \<Rightarrow> string_of_bytes view | None \<Rightarrow> [])"

definition unit_prefix :: "arg \<Rightarrow> string" where
  "unit_prefix a = (case a of AEnum p \<Rightarrow> string_of_bytes p | _ \<Rightarrow> [])"

definition si_unit_args :: "arg list \<Rightarrow> bool" where
  "si_unit_args args \<longleftrightarrow> 4 \<le> length args \<and> text_of (args ! 1) \<noteq> None \<and> text_of (args ! 3) \<noteq> None"

definition is_length_metre :: "arg list \<Rightarrow> bool" where
  "is_length_metre args \<longleftrightarrow>
     text_string (args ! 1) = ''LENGTHUNIT'' \<and> text_string (args ! 3) = ''METRE''"

lemma tag_of_ENUM: "tag_of a = ENUM \<longleftrightarrow> (\<exists>p. a = AEnum p)"
  by (cases a) simp_all

lemma unit_prefix_not_ENUM: "tag_of a \<noteq> ENUM \<Longrightarrow> unit_prefix a = []"
  by (cases a) (simp_all add: unit_prefix_def)

lemma SI_unit_step:
  assumes la: "line_at bs (tapeOffset line) hdr args" and si: "si_unit_args args"
  shows "\<exists>p.
     ebind (MoveToArgumentOffset \<lparr>bytes = bs, readPtr = q\<rparr> line 1) (\<lambda>tp2.
     ebind (GetStringArgument tp2) (\<lambda>(unitType, tp3).
     ebind (MoveToArgumentOffset tp3 line 2) (\<lambda>tp4.
     ebind (GetTokenType tp4) (\<lambda>(t, tp5).
     ebind (if t = Some ENUM then GetStringArgument (Reverse tp5) else Inr ('''', tp5))
       (\<lambda>(unitPrefix, tp6).
     ebind (MoveToArgumentOffset tp6 line 3) (\<lambda>tp7.
     ebind (GetStringArgument tp7) (\<lambda>(unitName, tp8).
       K unitType unitPrefix unitName tp8))))))) =
     K (text_string (args ! 1)) (unit_prefix (args ! 2)) (text_string (args ! 3))
       \<lparr>bytes = bs, readPtr = p\<rparr>"
proof -
  let ?off = "tapeOffset line"
  have n: "1 < length args" "2 < length args" "3 < length args"
    using si by (simp_all add: si_unit_args_def)
  obtain v1 v3 where v1: "text_of (args ! 1) = Some v1" and v3: "text_of (args ! 3) = Some v3"
    using si by (auto simp: si_unit_args_def)
  have m1: "MoveToArgumentOffset \<lparr>bytes = bs, readPtr = q\<rparr> line 1 =
      Inr \<lparr>bytes = bs, readPtr = arg_offset ?off hdr args 1\<rparr>" for q
    using MoveTo_arg [OF la n(1), of q] by simp
  have m2: "MoveToArgumentOffset \<lparr>bytes = bs, readPtr = q\<rparr> line 2 =
      Inr \<lparr>bytes = bs, readPtr = arg_offset ?off hdr args 2\<rparr>" for q
    using MoveTo_arg [OF la n(2), of q] by simp
  have m3: "MoveToArgumentOffset \<lparr>bytes = bs, readPtr = q\<rparr> line 3 =
      Inr \<lparr>bytes = bs, readPtr = arg_offset ?off hdr args 3\<rparr>" for q
    using MoveTo_arg [OF la n(3), of q] by simp
  note g1 = GetStringArgument_arg [OF la n(1) v1]
  note g3 = GetStringArgument_arg [OF la n(3) v3]
  note t2 = GetTokenType_at_arg [OF la n(2)]
  have rv: "Reverse \<lparr>bytes = bs, readPtr = Suc r\<rparr> = \<lparr>bytes = bs, readPtr = r\<rparr>" for r
    by (simp add: Reverse_def)
  have ts: "text_string (args ! 1) = string_of_bytes v1" "text_string (args ! 3) = string_of_bytes v3"
    using v1 v3 by (simp_all add: text_string_def)
  show ?thesis
  proof (cases "tag_of (args ! 2) = ENUM")
    case True
    then obtain p where a2: "args ! 2 = AEnum p" using tag_of_ENUM by blast
    then have v2: "text_of (args ! 2) = Some p" by simp
    note g2 = GetStringArgument_arg [OF la n(2) v2]
    have up: "unit_prefix (args ! 2) = string_of_bytes p" by (simp add: a2 unit_prefix_def)
    show ?thesis
      using True m1 m2 m3 g1 g2 g3 t2 ts up
      by (intro exI) (simp add: ebind_def rv)
  next
    case False
    show ?thesis
      using False m1 m2 m3 g1 g3 t2 ts
      by (intro exI) (simp add: ebind_def unit_prefix_not_ENUM)
  qed
qed

text \<open>The line of a handle: the two look-ups the passes make.\<close>

definition resolve :: "IfcLoader \<Rightarrow> nat \<Rightarrow> error + IfcLine" where
  "resolve s eid = ebind (ExpressIDToLineID s eid) (GetLine s)"

text \<open>
  A unit of the unit assignment, given by its handle and the header and arguments of its
  line: the handle has a line, and a line of type \<^verbatim>\<open>IFCSIUNIT\<close> lies on the tape with
  text tokens as its arguments 1 and 3.
\<close>

definition unit_ok :: "ifc2x4 \<Rightarrow> IfcLoader \<Rightarrow> nat \<times> arg list \<times> arg list \<Rightarrow> bool" where
  "unit_ok c s x =
     (case x of (u, hdr, args) \<Rightarrow>
        (case resolve s u of
           Inl e \<Rightarrow> False
         | Inr line \<Rightarrow>
             ifcType line = IFCSIUNIT c \<longrightarrow>
               line_at (bytes (tape s)) (tapeOffset line) hdr args \<and> si_unit_args args))"

definition length_unit :: "ifc2x4 \<Rightarrow> IfcLoader \<Rightarrow> nat \<times> arg list \<times> arg list \<Rightarrow> bool" where
  "length_unit c s x =
     (case x of (u, hdr, args) \<Rightarrow>
        (case resolve s u of
           Inl e \<Rightarrow> False
         | Inr line \<Rightarrow> ifcType line = IFCSIUNIT c \<and> is_length_metre args))"

definition unit_factor :: "ifc2x4 \<Rightarrow> IfcLoader \<Rightarrow> real \<Rightarrow> nat \<times> arg list \<times> arg list \<Rightarrow> real" where
  "unit_factor c s f x =
     (if length_unit c s x then ConvertPrefix (unit_prefix (snd (snd x) ! 2)) else f)"

definition same_index :: "IfcLoader \<Rightarrow> IfcLoader \<Rightarrow> bool" where
  "same_index s0 s \<longleftrightarrow>
     bytes (tape s) = bytes (tape s0) \<and> lines (metaData s) = lines (metaData s0) \<and>
     expressIDToLine (metaData s) = expressIDToLine (metaData s0)"

lemma resolve_InrE:
  assumes "resolve s eid = Inr line"
  obtains lineID where "ExpressIDToLineID s eid = Inr lineID" "GetLine s lineID = Inr line"
  using assms unfolding resolve_def by (rule ebind_InrE)

lemma same_index_lookup:
  assumes "same_index s0 s"
  shows "ExpressIDToLineID s eid = ExpressIDToLineID s0 eid" "GetLine s l = GetLine s0 l"
  using assms by (simp_all add: same_index_def ExpressIDToLineID_def GetLine_def)

lemma unit_step:
  assumes ok: "unit_ok c s0 (u, hdr, args)" and u: "u < 2 ^ 32"
    and same: "same_index s0 s"
    and b: "bytes (tape s0) = pre @ arg_bytes (ARef u) @ post"
  shows "\<exists>s'. ReadLinearScalingFactor_unit c (length pre) s = Inr s' \<and> same_index s0 s' \<and>
           linearScalingFactor (metaData s') =
             unit_factor c s0 (linearScalingFactor (metaData s)) (u, hdr, args)"
proof -
  let ?bs = "bytes (tape s0)"
  obtain line where res: "resolve s0 u = Inr line"
    using ok by (auto simp: unit_ok_def split: sum.splits)
  then obtain l where el: "ExpressIDToLineID s0 u = Inr l" and gl: "GetLine s0 l = Inr line"
    by (rule resolve_InrE)
  have el': "ExpressIDToLineID s u = Inr l" and gl': "GetLine s l = Inr line"
    using same_index_lookup [OF same] el gl by simp_all
  have bs: "bytes (tape s) = ?bs" using same by (simp add: same_index_def)
  have b': "bytes (tape s) = pre @ arg_bytes (ARef u) @ post" using b bs by simp
  have gr: "GetRefArgument_at (length pre) (tape s) =
      Inr (u, \<lparr>bytes = ?bs, readPtr = length pre + 5\<rparr>)"
    using GetRefArgument_at_ARef [OF b' u] bs by simp
  show ?thesis
  proof (cases "ifcType line = IFCSIUNIT c")
    case False
    have "ReadLinearScalingFactor_unit c (length pre) s =
        Inr (s\<lparr>tape := \<lparr>bytes = ?bs, readPtr = length pre + 5\<rparr>\<rparr>)"
      using False by (simp add: ReadLinearScalingFactor_unit_def ebind_def gr el' gl')
    moreover have "\<not> length_unit c s0 (u, hdr, args)"
      using False by (simp add: length_unit_def res)
    ultimately show ?thesis
      using same by (simp add: same_index_def unit_factor_def)
  next
    case True
    then have la: "line_at ?bs (tapeOffset line) hdr args" and si: "si_unit_args args"
      using ok by (simp_all add: unit_ok_def res)
    let ?K = "\<lambda>unitType unitPrefix unitName tp8.
        if unitType = ''LENGTHUNIT'' \<and> unitName = ''METRE''
        then Inr (s\<lparr>tape := tp8,
                    metaData := (metaData s)\<lparr>linearScalingFactor := ConvertPrefix unitPrefix\<rparr>\<rparr>)
        else Inr (s\<lparr>tape := tp8\<rparr>)"
    obtain p where st: "ebind (MoveToArgumentOffset \<lparr>bytes = ?bs, readPtr = length pre + 5\<rparr> line 1) (\<lambda>tp2.
     ebind (GetStringArgument tp2) (\<lambda>(unitType, tp3).
     ebind (MoveToArgumentOffset tp3 line 2) (\<lambda>tp4.
     ebind (GetTokenType tp4) (\<lambda>(t, tp5).
     ebind (if t = Some ENUM then GetStringArgument (Reverse tp5) else Inr ('''', tp5))
       (\<lambda>(unitPrefix, tp6).
     ebind (MoveToArgumentOffset tp6 line 3) (\<lambda>tp7.
     ebind (GetStringArgument tp7) (\<lambda>(unitName, tp8).
       ?K unitType unitPrefix unitName tp8))))))) =
     ?K (text_string (args ! 1)) (unit_prefix (args ! 2)) (text_string (args ! 3))
       \<lparr>bytes = ?bs, readPtr = p\<rparr>"
      using SI_unit_step [OF la si, where K = ?K and q = "length pre + 5"] by blast
    have run: "ReadLinearScalingFactor_unit c (length pre) s =
        ?K (text_string (args ! 1)) (unit_prefix (args ! 2)) (text_string (args ! 3))
          \<lparr>bytes = ?bs, readPtr = p\<rparr>"
      unfolding ReadLinearScalingFactor_unit_def
      by (subst st [symmetric]) (simp add: ebind_def gr el' gl' True)
    have lu: "length_unit c s0 (u, hdr, args) = is_length_metre args"
      using True by (simp add: length_unit_def res)
    show ?thesis
      using same
      by (simp add: run same_index_def unit_factor_def lu is_length_metre_def)
  qed
qed

lemma same_index_refl: "same_index s s"
  by (simp add: same_index_def)

lemma unit_loop:
  assumes "list_all (unit_ok c s0) units" "list_all (\<lambda>x. fst x < 2 ^ 32) units"
    and "same_index s0 s"
    and "bytes (tape s0) = pre @ args_bytes (map (\<lambda>x. ARef (fst x)) units) @ post"
  shows "\<exists>s'. for_each (ReadLinearScalingFactor_unit c)
             (top_offsets (length pre) (map (\<lambda>x. ARef (fst x)) units)) s = Inr s' \<and>
           same_index s0 s' \<and>
           linearScalingFactor (metaData s') =
             foldl (unit_factor c s0) (linearScalingFactor (metaData s)) units"
  using assms
proof (induction units arbitrary: pre s)
  case Nil
  then show ?case by simp
next
  case (Cons x units)
  obtain u hdr args where x: "x = (u, hdr, args)" by (cases x)
  have ok: "unit_ok c s0 (u, hdr, args)" and oks: "list_all (unit_ok c s0) units"
    and u: "u < 2 ^ 32" and us: "list_all (\<lambda>x. fst x < 2 ^ 32) units"
    using Cons.prems(1,2) x by simp_all
  have b1: "bytes (tape s0) = pre @ arg_bytes (ARef u) @
      (args_bytes (map (\<lambda>x. ARef (fst x)) units) @ post)"
    using Cons.prems(4) x by simp
  have b2: "bytes (tape s0) = (pre @ arg_bytes (ARef u)) @
      args_bytes (map (\<lambda>x. ARef (fst x)) units) @ post"
    using b1 by simp
  obtain s1 where st: "ReadLinearScalingFactor_unit c (length pre) s = Inr s1"
    and same1: "same_index s0 s1"
    and f1: "linearScalingFactor (metaData s1) =
        unit_factor c s0 (linearScalingFactor (metaData s)) (u, hdr, args)"
    using unit_step [OF ok u Cons.prems(3) b1] by blast
  obtain s' where run: "for_each (ReadLinearScalingFactor_unit c)
        (top_offsets (length (pre @ arg_bytes (ARef u))) (map (\<lambda>x. ARef (fst x)) units)) s1 = Inr s'"
    and same': "same_index s0 s'"
    and f': "linearScalingFactor (metaData s') =
        foldl (unit_factor c s0) (linearScalingFactor (metaData s1)) units"
    using Cons.IH [OF oks us same1 b2] by blast
  have len: "length (pre @ arg_bytes (ARef u)) = length pre + 5" by simp
  show ?case
    using run same' f' unfolding len
    by (intro exI [of _ s']) (simp add: x st ebind_def f1 length_arg_bytes_ARef del: arg_bytes.simps(6))
qed

lemma foldl_unit_factor_none:
  "filter (length_unit c s) units = [] \<Longrightarrow> foldl (unit_factor c s) f units = f"
  by (induction units arbitrary: f) (simp_all add: unit_factor_def split: if_splits)

lemma foldl_unit_factor_single:
  "filter (length_unit c s) units = [x] \<Longrightarrow>
   foldl (unit_factor c s) f units = ConvertPrefix (unit_prefix (snd (snd x) ! 2))"
proof (induction units arbitrary: f)
  case Nil
  then show ?case by simp
next
  case (Cons y ys)
  show ?case
  proof (cases "length_unit c s y")
    case True
    then have y: "y = x" and none: "filter (length_unit c s) ys = []"
      using Cons.prems by simp_all
    have "foldl (unit_factor c s) (unit_factor c s f y) ys = unit_factor c s f y"
      using none by (rule foldl_unit_factor_none)
    also have "unit_factor c s f y = ConvertPrefix (unit_prefix (snd (snd x) ! 2))"
      using True y by (simp add: unit_factor_def)
    finally show ?thesis by simp
  next
    case False
    then have "filter (length_unit c s) ys = [x]" using Cons.prems by simp
    then show ?thesis using Cons.IH False by (simp add: unit_factor_def)
  qed
qed

lemma ConvertPrefix_table:
  "map ConvertPrefix
     ['''', ''EXA'', ''PETA'', ''TERA'', ''GIGA'', ''MEGA'', ''KILO'', ''HECTO'', ''DECA'',
      ''DECI'', ''CENTI'', ''MILLI'', ''MICRO'', ''NANO'', ''PICO'', ''FEMTO'', ''ATTO''] =
   [1, 10 ^ 18, 10 ^ 15, 10 ^ 12, 10 ^ 9, 10 ^ 6, 10 ^ 3, 10 ^ 2, 10,
    1 / 10, 1 / 10 ^ 2, 1 / 10 ^ 3, 1 / 10 ^ 6, 1 / 10 ^ 9, 1 / 10 ^ 12, 1 / 10 ^ 15, 1 / 10 ^ 18]"
  by (simp add: ConvertPrefix_def)

text \<open>
  C6: when the model has exactly one \<^verbatim>\<open>IFCPROJECT\<close> line, its argument 8 refers to a
  unit assignment whose argument 0 is a set of references to units, and exactly one of
  these units is an \<^verbatim>\<open>IFCSIUNIT\<close> with unit type \<^verbatim>\<open>LENGTHUNIT\<close> and name \<^verbatim>\<open>METRE\<close>, then
  \<^verbatim>\<open>ReadLinearScalingFactor\<close> sets the scaling factor to \<^verbatim>\<open>ConvertPrefix\<close> of the prefix of
  that unit (the empty string when argument 2 is no \<^verbatim>\<open>ENUM\<close>), and \<^verbatim>\<open>ConvertPrefix\<close>
  maps the empty prefix to 1 and \<^verbatim>\<open>EXA\<close> to \<^verbatim>\<open>ATTO\<close> to the powers of ten from 18 to -18.
  The witness is scenario S1 of the specification: the prefix \<^verbatim>\<open>MILLI\<close> gives 0.001.
\<close>

theorem ReadLinearScalingFactor_length_unit:
  assumes proj: "GetExpressIDsWithType s (IFCPROJECT c) = Inr [projectEID]"
    and pl: "resolve s projectEID = Inr line"
    and pla: "line_at (bytes (tape s)) (tapeOffset line) hdr args"
    and p8: "8 < length args" "args ! 8 = ARef unitsID"
    and ul: "resolve s unitsID = Inr unitsLine"
    and ula: "line_at (bytes (tape s)) (tapeOffset unitsLine) uhdr
           (ASet (map (\<lambda>x. ARef (fst x)) units) # urest)"
    and oks: "list_all (unit_ok c s) units"
    and one: "filter (length_unit c s) units = [(u, h, a)]"
    and len: "length (bytes (tape s)) \<le> 2 ^ 32"
  shows "(\<exists>s'. ReadLinearScalingFactor c s = Inr s' \<and>
            linearScalingFactor (metaData s') = ConvertPrefix (unit_prefix (a ! 2))) \<and>
         map ConvertPrefix
           ['''', ''EXA'', ''PETA'', ''TERA'', ''GIGA'', ''MEGA'', ''KILO'', ''HECTO'', ''DECA'',
            ''DECI'', ''CENTI'', ''MILLI'', ''MICRO'', ''NANO'', ''PICO'', ''FEMTO'', ''ATTO''] =
         [1, 10 ^ 18, 10 ^ 15, 10 ^ 12, 10 ^ 9, 10 ^ 6, 10 ^ 3, 10 ^ 2, 10,
          1 / 10, 1 / 10 ^ 2, 1 / 10 ^ 3, 1 / 10 ^ 6, 1 / 10 ^ 9, 1 / 10 ^ 12, 1 / 10 ^ 15,
          1 / 10 ^ 18]"
proof -
  let ?bs = "bytes (tape s)"
  let ?us = "map (\<lambda>x. ARef (fst x)) units"
  let ?b = "token_code SET_BEGIN" and ?e = "token_code SET_END"
  obtain l where el: "ExpressIDToLineID s projectEID = Inr l" and gl: "GetLine s l = Inr line"
    using pl by (rule resolve_InrE)
  obtain l' where el': "ExpressIDToLineID s unitsID = Inr l'" and gl': "GetLine s l' = Inr unitsLine"
    using ul by (rule resolve_InrE)
  \<comment> \<open>argument 8 of the project\<close>
  define o8 where "o8 = arg_offset (tapeOffset line) hdr args 8"
  have m8: "MoveToArgumentOffset (tape s) line 8 = Inr \<lparr>bytes = ?bs, readPtr = o8\<rparr>"
    using MoveToArgumentOffset_in_range [OF pla, of 8] p8(1) by (simp add: o8_def)
  obtain pre8 post8 where b8: "?bs = pre8 @ arg_bytes (args ! 8) @ post8"
    and l8: "length pre8 = o8"
    using line_at_arg [OF pla p8(1)] unfolding o8_def by blast
  have wf8: "unitsID < 2 ^ 32" using line_at_wf_nth [OF pla p8(1)] p8(2) by simp
  have g8: "GetRefArgument \<lparr>bytes = ?bs, readPtr = o8\<rparr> =
      Inr (unitsID, \<lparr>bytes = ?bs, readPtr = o8 + 5\<rparr>)"
    using GetRefArgument_ARef [OF _ _ wf8, of ?bs pre8 post8 o8] b8 l8 p8(2) by simp
  \<comment> \<open>argument 0 of the unit assignment\<close>
  define o0 where "o0 = arg_offset (tapeOffset unitsLine) uhdr (ASet ?us # urest) 0"
  have m0: "MoveToArgumentOffset \<lparr>bytes = ?bs, readPtr = o8 + 5\<rparr> unitsLine 0 =
      Inr \<lparr>bytes = ?bs, readPtr = o0\<rparr>"
    using MoveTo_arg [OF ula, of 0 "o8 + 5"] by (simp add: o0_def)
  obtain pre0 post0 where b0: "?bs = pre0 @ arg_bytes (ASet ?us) @ post0"
    and l0: "length pre0 = o0"
    using line_at_arg [OF ula, of 0] unfolding o0_def by auto
  have wfu: "list_all wf_arg ?us" using line_at_wf_nth [OF ula, of 0] by simp
  then have us: "list_all (\<lambda>x. fst x < 2 ^ 32) units" by (induction units) simp_all
  have oku: "list_all getset_ok ?us" and leafu: "list_all is_leaf ?us"
    by (induction units) simp_all
  define tp4 where "tp4 = \<lparr>bytes = ?bs, readPtr = length pre0 + length (arg_bytes (ASet ?us))\<rparr>"
  have gs: "GetSetArgument \<lparr>bytes = ?bs, readPtr = o0\<rparr> =
      Inr (top_offsets (length (pre0 @ [?b])) ?us, tp4)"
    using GetSetArgument_flattens [OF oku wfu b0 len] leaf_offsets_flat [OF leafu, of "length pre0 + 1"]
    by (simp add: l0 tp4_def)
  have b1: "?bs = (pre0 @ [?b]) @ args_bytes ?us @ (?e # post0)" using b0 by simp
  have same: "same_index s (s\<lparr>tape := tp4\<rparr>)" by (simp add: same_index_def tp4_def)
  obtain s' where loop: "for_each (ReadLinearScalingFactor_unit c)
        (top_offsets (length (pre0 @ [?b])) ?us) (s\<lparr>tape := tp4\<rparr>) = Inr s'"
    and f: "linearScalingFactor (metaData s') =
        foldl (unit_factor c s) (linearScalingFactor (metaData (s\<lparr>tape := tp4\<rparr>))) units"
    using unit_loop [OF oks us same b1] by blast
  have "ReadLinearScalingFactor c s = Inr s'"
    unfolding ReadLinearScalingFactor_def using loop
    by (simp add: proj el gl m8 g8 el' gl' m0 gs ebind_def Let_def del: top_offsets.simps)
  moreover have "linearScalingFactor (metaData s') = ConvertPrefix (unit_prefix (a ! 2))"
    using f foldl_unit_factor_single [OF one] by simp
  ultimately show ?thesis using ConvertPrefix_table by blast
qed

text \<open>
  Scenario S1 of the specification, as the tokens of its four lines; the offset of a line
  is that of its opening \<^verbatim>\<open>SET_BEGIN\<close> (section 3). The type codes are those of
  \<open>stub_collaborators\<close>.
\<close>

definition S1_tape :: "byte list" where
  "S1_tape =
     [5, 1, 0, 0, 0, 2, 10, 73, 70, 67, 80, 82, 79, 74, 69, 67, 84,
      7, 1, 1, 103, 6, 1, 1, 112, 6, 6, 6, 6, 7, 5, 2, 0, 0, 0, 8, 5, 3, 0, 0, 0, 8, 9,
      5, 2, 0, 0, 0, 2, 33, 73, 70, 67, 71, 69, 79, 77, 69, 84, 82, 73, 67, 82, 69, 80, 82, 69,
      83, 69, 78, 84, 65, 84, 73, 79, 78, 67, 79, 78, 84, 69, 88, 84,
      7, 6, 6, 4, 0, 0, 0, 0, 0, 0, 8, 64, 4, 241, 104, 227, 136, 181, 248, 228, 62, 6, 6, 8, 9,
      5, 3, 0, 0, 0, 2, 17, 73, 70, 67, 85, 78, 73, 84, 65, 83, 83, 73, 71, 78, 77, 69, 78, 84,
      7, 7, 5, 4, 0, 0, 0, 8, 8, 9,
      5, 4, 0, 0, 0, 2, 9, 73, 70, 67, 83, 73, 85, 78, 73, 84,
      7, 0, 3, 10, 76, 69, 78, 71, 84, 72, 85, 78, 73, 84, 3, 5, 77, 73, 76, 76, 73,
      3, 5, 77, 69, 84, 82, 69, 8, 9]"

definition S1_model :: IfcLoader where
  "S1_model =
     \<lparr>open_flag = False, tape = \<lparr>bytes = S1_tape, readPtr = 0\<rparr>, settings = default_settings,
      metaData = IfcMetaData_init
        \<lparr>lines :=
           [\<lparr>expressID = 1, lineIndex = 0, ifcType = 1, tapeOffset = 17, tapeEnd = 43\<rparr>,
            \<lparr>expressID = 2, lineIndex = 1, ifcType = 100, tapeOffset = 83, tapeEnd = 108\<rparr>,
            \<lparr>expressID = 3, lineIndex = 2, ifcType = 101, tapeOffset = 132, tapeEnd = 142\<rparr>,
            \<lparr>expressID = 4, lineIndex = 3, ifcType = 2, tapeOffset = 158, tapeEnd = 188\<rparr>],
         expressIDToLine := [0, 0, 1, 2, 3],
         ifcTypeToLineID := (\<lambda>t. [])(1 := [0], 100 := [1], 101 := [2], 2 := [3])\<rparr>\<rparr>"

lemmas S1_eval = S1_model_def S1_tape_def IfcMetaData_init_def stub_collaborators_def
  ExpressIDToLineID_def GetLine_def GetExpressIDsWithType_def resolve_def ebind_def
  line_at_def nat_le_4

theorem ReadLinearScalingFactor_length_unit_witness:
  "GetExpressIDsWithType S1_model (IFCPROJECT (codes stub_collaborators)) = Inr [1] \<and>
   filter (length_unit (codes stub_collaborators) S1_model)
     [(4, [], [AUnknown, AEnum [76, 69, 78, 71, 84, 72, 85, 78, 73, 84],
               AEnum [77, 73, 76, 76, 73], AEnum [77, 69, 84, 82, 69]])] =
     [(4, [], [AUnknown, AEnum [76, 69, 78, 71, 84, 72, 85, 78, 73, 84],
               AEnum [77, 73, 76, 76, 73], AEnum [77, 69, 84, 82, 69]])] \<and>
   (\<exists>s'. ReadLinearScalingFactor (codes stub_collaborators) S1_model = Inr s' \<and>
         linearScalingFactor (metaData s') = 1 / 1000)"
proof -
  let ?c = "codes stub_collaborators"
  let ?pargs = "[AString [103], AEmpty, AString [112], AEmpty, AEmpty, AEmpty, AEmpty,
      ASet [ARef 2], ARef 3]"
  let ?uargs = "[AUnknown, AEnum [76, 69, 78, 71, 84, 72, 85, 78, 73, 84],
      AEnum [77, 73, 76, 76, 73], AEnum [77, 69, 84, 82, 69]]"
  let ?units = "[(4 :: nat, [] :: arg list, ?uargs)]"
  let ?l1 = "\<lparr>expressID = 1, lineIndex = 0, ifcType = 1, tapeOffset = 17, tapeEnd = 43\<rparr>"
  let ?l3 = "\<lparr>expressID = 3, lineIndex = 2, ifcType = 101, tapeOffset = 132, tapeEnd = 142\<rparr>"
  have proj: "GetExpressIDsWithType S1_model (IFCPROJECT ?c) = Inr [1]"
    by (simp add: S1_eval)
  have pl: "resolve S1_model 1 = Inr ?l1" by (simp add: S1_eval)
  have pla: "line_at (bytes (tape S1_model)) (tapeOffset ?l1) [] ?pargs"
    by (simp add: S1_eval)
  have p8: "8 < length ?pargs" "?pargs ! 8 = ARef 3" by simp_all
  have ul: "resolve S1_model 3 = Inr ?l3" by (simp add: S1_eval)
  have ula: "line_at (bytes (tape S1_model)) (tapeOffset ?l3) []
      (ASet (map (\<lambda>x. ARef (fst x)) ?units) # [])"
    by (simp add: S1_eval)
  have oks: "list_all (unit_ok ?c S1_model) ?units"
    by (simp add: unit_ok_def si_unit_args_def S1_eval)
  have one: "filter (length_unit ?c S1_model) ?units = [(4, [], ?uargs)]"
    by (simp add: length_unit_def is_length_metre_def text_string_def string_of_bytes_def
        char_of_def bit_0 S1_eval)
  have len: "length (bytes (tape S1_model)) \<le> 2 ^ 32" by (simp add: S1_eval)
  have pre: "ConvertPrefix (unit_prefix (?uargs ! 2)) = 1 / 1000"
    by (simp add: unit_prefix_def string_of_bytes_def char_of_def bit_0 ConvertPrefix_def)
  show ?thesis
    using ReadLinearScalingFactor_length_unit [OF proj pl pla p8 ul ula oks one len] proj one
    unfolding pre by blast
qed

section \<open>The styled-item pass as a whole\<close>

text \<open>
  The handles of a set of \<^verbatim>\<open>REF\<close> tokens, and the two handles-bearing arguments of a
  styled item: the representation item at argument 0 and the style assignments at
  argument 1.
\<close>

fun refs_of :: "arg list \<Rightarrow> nat list option" where
  "refs_of [] = Some []"
| "refs_of (ARef r # xs) = map_option (Cons r) (refs_of xs)"
| "refs_of (x # xs) = None"

fun styled_args :: "arg list \<Rightarrow> (nat \<times> nat list) option" where
  "styled_args (ARef rep # ASet xs # rest) = map_option (Pair rep) (refs_of xs)"
| "styled_args args = None"

text \<open>
  An \<^verbatim>\<open>IFCSTYLEDITEM\<close> line of the model, given by its handle and the header and
  arguments of its line: the handle has a line, which lies on the tape; when argument 0
  is a \<^verbatim>\<open>REF\<close>, argument 1 is a set of \<^verbatim>\<open>REF\<close>s and the handle of the representation item
  is within the handle table (it need not have a line of its own).
\<close>

definition styled_item_ok :: "IfcLoader \<Rightarrow> nat \<times> arg list \<times> arg list \<Rightarrow> bool" where
  "styled_item_ok s x =
     (case x of (styledItemID, hdr, args) \<Rightarrow>
        (case resolve s styledItemID of
           Inl e \<Rightarrow> False
         | Inr line \<Rightarrow>
             line_at (bytes (tape s)) (tapeOffset line) hdr args \<and>
             (case args of
                [] \<Rightarrow> True
              | a # rest \<Rightarrow>
                  tag_of a = REF \<longrightarrow>
                    (case styled_args args of
                       None \<Rightarrow> False
                     | Some (repItem, styleAssignments) \<Rightarrow>
                         repItem < length (expressIDToLine (metaData s)) \<and>
                         expressIDToLine (metaData s) ! repItem < length (lines (metaData s))))))"

text \<open>The pairs a styled item adds to the entry of the handle \<open>r\<close>.\<close>

definition styled_pairs :: "nat \<times> arg list \<times> arg list \<Rightarrow> nat \<Rightarrow> (nat \<times> nat) list" where
  "styled_pairs x r =
     (case x of (styledItemID, hdr, args) \<Rightarrow>
        (case styled_args args of
           None \<Rightarrow> []
         | Some (repItem, styleAssignments) \<Rightarrow>
             if repItem = r then map (Pair styledItemID) styleAssignments else []))"

lemma refs_of_Some: "refs_of xs = Some rs \<Longrightarrow> xs = map ARef rs"
proof (induction xs arbitrary: rs)
  case Nil
  then show ?case by simp
next
  case (Cons x xs)
  then show ?case by (cases x) auto
qed

lemma styled_args_Some:
  assumes "styled_args args = Some (rep, sas)"
  obtains rest where "args = ARef rep # ASet (map ARef sas) # rest"
proof -
  obtain a b rest where args: "args = a # b # rest"
    using assms by (cases args rule: styled_args.cases) simp_all
  obtain xs where a: "a = ARef rep" and b: "b = ASet xs" and r: "refs_of xs = Some sas"
    using assms args by (cases a; cases b) auto
  show ?thesis using that [of rest] args a b refs_of_Some [OF r] by simp
qed

lemma styled_args_not_REF: "args = a # rest \<Longrightarrow> tag_of a \<noteq> REF \<Longrightarrow> styled_args args = None"
  by (cases a) simp_all

lemma GetTokenType_byte:
  assumes "bs = pre @ c # rest" "p = length pre"
  shows "GetTokenType \<lparr>bytes = bs, readPtr = p\<rparr> =
           Inr (token_of_byte c, \<lparr>bytes = bs, readPtr = Suc p\<rparr>)"
  using Read_char_at' [OF assms] by (simp add: GetTokenType_def ebind_def)

text \<open>A styled item whose argument 0 is no \<^verbatim>\<open>REF\<close>, or that has no argument, is passed over.\<close>

lemma PopulateStyledItemMap_line_other:
  assumes sid: "ExpressIDToLineID s styledItemID = Inr lineID"
    and gl: "GetLine s lineID = Inr line"
    and la: "line_at (bytes (tape s)) (tapeOffset line) hdr args"
    and no: "args = [] \<or> tag_of (hd args) \<noteq> REF"
  shows "\<exists>tp. PopulateStyledItemMap_line styledItemID s = Inr (s\<lparr>tape := tp\<rparr>) \<and>
           bytes tp = bytes (tape s)"
proof (cases args)
  case Nil
  let ?bs = "bytes (tape s)"
  obtain pre post where bs: "?bs = pre @ args_bytes hdr @ arg_bytes (ASet args) @ post"
    and off: "length pre = tapeOffset line"
    using la by (rule line_at_split)
  define p where "p = arg_offset (tapeOffset line) hdr args (length args)"
  have m0: "MoveToArgumentOffset (tape s) line 0 = Inr \<lparr>bytes = ?bs, readPtr = p\<rparr>"
    using MoveToArgumentOffset_past_end [OF la, of 0] Nil by (simp add: p_def)
  have b1: "?bs = (pre @ args_bytes hdr @ [token_code SET_BEGIN]) @ token_code SET_END # post"
    using bs Nil by simp
  have pl: "p = length (pre @ args_bytes hdr @ [token_code SET_BEGIN])"
    using Nil by (simp add: p_def arg_offset_def off)
  have tt: "GetTokenType \<lparr>bytes = ?bs, readPtr = p\<rparr> =
      Inr (Some SET_END, \<lparr>bytes = ?bs, readPtr = Suc p\<rparr>)"
    using GetTokenType_byte [OF b1 pl] by (simp add: token_of_byte_def)
  show ?thesis
    by (intro exI [of _ "\<lparr>bytes = ?bs, readPtr = Suc p\<rparr>"])
       (simp add: PopulateStyledItemMap_line_def sid gl m0 tt ebind_def)
next
  case (Cons a rest)
  let ?bs = "bytes (tape s)"
  define p where "p = arg_offset (tapeOffset line) hdr args 0"
  have n: "0 < length args" using Cons by simp
  have m0: "MoveToArgumentOffset (tape s) line 0 = Inr \<lparr>bytes = ?bs, readPtr = p\<rparr>"
    using MoveToArgumentOffset_in_range [OF la, of 0] n by (simp add: p_def)
  have tt: "GetTokenType \<lparr>bytes = ?bs, readPtr = p\<rparr> =
      Inr (Some (tag_of a), \<lparr>bytes = ?bs, readPtr = Suc p\<rparr>)"
    using GetTokenType_at_arg [OF la n] Cons by (simp add: p_def)
  have "tag_of a \<noteq> REF" using no Cons by simp
  then show ?thesis
    by (intro exI [of _ "\<lparr>bytes = ?bs, readPtr = Suc p\<rparr>"])
       (simp add: PopulateStyledItemMap_line_def sid gl m0 tt ebind_def)
qed

lemma same_index_tape_md:
  "same_index s0 s \<Longrightarrow> bytes tp = bytes (tape s) \<Longrightarrow>
   lines md = lines (metaData s) \<Longrightarrow> expressIDToLine md = expressIDToLine (metaData s) \<Longrightarrow>
   same_index s0 (s\<lparr>tape := tp, metaData := md\<rparr>)"
  by (simp add: same_index_def)

lemma styled_item_step:
  assumes ok: "styled_item_ok s0 x" and same: "same_index s0 s"
    and len: "length (bytes (tape s0)) \<le> 2 ^ 32"
  shows "\<exists>s'. PopulateStyledItemMap_line (fst x) s = Inr s' \<and> same_index s0 s' \<and>
           (\<forall>r. styledItems (metaData s') r = styledItems (metaData s) r @ styled_pairs x r)"
proof -
  obtain sid hdr args where x: "x = (sid, hdr, args)" by (cases x)
  obtain line where res: "resolve s0 sid = Inr line"
    using ok x by (auto simp: styled_item_ok_def split: sum.splits)
  then obtain l where el: "ExpressIDToLineID s0 sid = Inr l" and gl: "GetLine s0 l = Inr line"
    by (rule resolve_InrE)
  have el': "ExpressIDToLineID s sid = Inr l" and gl': "GetLine s l = Inr line"
    using same_index_lookup [OF same] el gl by simp_all
  have bs: "bytes (tape s) = bytes (tape s0)" using same by (simp add: same_index_def)
  have la: "line_at (bytes (tape s)) (tapeOffset line) hdr args"
    using ok x res bs by (simp add: styled_item_ok_def)
  show ?thesis
  proof (cases "args = [] \<or> tag_of (hd args) \<noteq> REF")
    case True
    obtain tp where run: "PopulateStyledItemMap_line sid s = Inr (s\<lparr>tape := tp\<rparr>)"
      and tp: "bytes tp = bytes (tape s)"
      using PopulateStyledItemMap_line_other [OF el' gl' la True] by blast
    have none: "styled_pairs x r = []" for r
    proof (cases args)
      case Nil
      then show ?thesis by (simp add: styled_pairs_def x)
    next
      case (Cons a rest)
      then have "styled_args args = None" using True styled_args_not_REF by simp
      then show ?thesis by (simp add: styled_pairs_def x)
    qed
    show ?thesis
      using same tp by (intro exI [of _ "s\<lparr>tape := tp\<rparr>"])
           (simp add: run [unfolded x] none [unfolded x] x same_index_def)
  next
    case False
    then obtain a rest0 where args: "args = a # rest0" and ref: "tag_of a = REF"
      by (cases args) simp_all
    then obtain rep sas where sa: "styled_args args = Some (rep, sas)"
      and r1: "rep < length (expressIDToLine (metaData s0))"
      and r2: "expressIDToLine (metaData s0) ! rep < length (lines (metaData s0))"
      using ok x res by (auto simp: styled_item_ok_def split: option.splits)
    obtain rest where shape: "args = ARef rep # ASet (map ARef sas) # rest"
      using sa by (rule styled_args_Some)
    have rid: "ExpressIDToLineID s rep = Inr (expressIDToLine (metaData s0) ! rep)"
      using r1 same by (simp add: ExpressIDToLineID_def same_index_def)
    have rl: "GetLine s (expressIDToLine (metaData s0) ! rep) =
        Inr (lines (metaData s0) ! (expressIDToLine (metaData s0) ! rep))"
      using r2 same by (simp add: GetLine_def same_index_def)
    have len': "length (bytes (tape s)) \<le> 2 ^ 32" using len bs by simp
    obtain tp where run: "PopulateStyledItemMap_line sid s =
        Inr (s\<lparr>tape := tp,
               metaData := (metaData s)\<lparr>styledItems := (styledItems (metaData s))
                 (rep := styledItems (metaData s) rep @ map (\<lambda>a. (sid, a)) sas)\<rparr>\<rparr>)"
      and tp: "bytes tp = bytes (tape s)"
      using PopulateStyledItemMap_line_REF [OF el' gl' la [unfolded shape] rid rl len'] by blast
    have pairs: "styled_pairs x r = (if rep = r then map (Pair sid) sas else [])" for r
      by (simp add: styled_pairs_def x sa)
    show ?thesis
      using same tp
      by (intro exI [of _ "s\<lparr>tape := tp,
               metaData := (metaData s)\<lparr>styledItems := (styledItems (metaData s))
                 (rep := styledItems (metaData s) rep @ map (\<lambda>a. (sid, a)) sas)\<rparr>\<rparr>"])
         (simp add: run [unfolded x] pairs [unfolded x] x same_index_def)
  qed
qed

lemma styled_loop:
  assumes "list_all (styled_item_ok s0) items" "same_index s0 s"
    and "length (bytes (tape s0)) \<le> 2 ^ 32"
  shows "\<exists>s'. for_each PopulateStyledItemMap_line (map fst items) s = Inr s' \<and>
           same_index s0 s' \<and>
           (\<forall>r. styledItems (metaData s') r =
                  styledItems (metaData s) r @ concat (map (\<lambda>x. styled_pairs x r) items))"
  using assms(1,2)
proof (induction items arbitrary: s)
  case Nil
  then show ?case by simp
next
  case (Cons x items)
  have ok: "styled_item_ok s0 x" and oks: "list_all (styled_item_ok s0) items"
    using Cons.prems(1) by simp_all
  obtain s1 where st: "PopulateStyledItemMap_line (fst x) s = Inr s1"
    and same1: "same_index s0 s1"
    and f1: "\<forall>r. styledItems (metaData s1) r = styledItems (metaData s) r @ styled_pairs x r"
    using styled_item_step [OF ok Cons.prems(2) assms(3)] by blast
  obtain s' where run: "for_each PopulateStyledItemMap_line (map fst items) s1 = Inr s'"
    and same': "same_index s0 s'"
    and f': "\<forall>r. styledItems (metaData s') r =
        styledItems (metaData s1) r @ concat (map (\<lambda>x. styled_pairs x r) items)"
    using Cons.IH [OF oks same1] by blast
  show ?case
    using run same' f' f1 by (intro exI [of _ s']) (simp add: st ebind_def)
qed

text \<open>
  C7: the styled-item pass runs over the handles of the \<^verbatim>\<open>IFCSTYLEDITEM\<close> lines, as the
  type index gives them. When each of these lines lies on the tape and, where its
  argument 0 is a \<^verbatim>\<open>REF\<close> to a representation item, its argument 1 is a set of \<^verbatim>\<open>REF\<close>s,
  the pass ends without an error, and the entry of every handle \<open>r\<close> in \<^verbatim>\<open>styledItems\<close>
  is its entry before the pass followed, for each styled item in the order of the type
  index whose argument 0 is the \<^verbatim>\<open>REF\<close> \<open>r\<close>, by the pairs of the handle of the styled
  item and the handle of each style assignment in the set at argument 1 of that same
  line, in order. A styled item whose argument 0 is no \<^verbatim>\<open>REF\<close> adds nothing. The
  representation item needs no line of its own.
\<close>

theorem PopulateStyledItemMap_pairs:
  assumes "GetExpressIDsWithType s (IFCSTYLEDITEM c) = Inr (map fst items)"
    and "list_all (styled_item_ok s) items"
    and "length (bytes (tape s)) \<le> 2 ^ 32"
  shows "\<exists>s'. PopulateStyledItemMap c s = Inr s' \<and>
           (\<forall>r. styledItems (metaData s') r =
                  styledItems (metaData s) r @ concat (map (\<lambda>x. styled_pairs x r) items))"
  using styled_loop [OF assms(2) same_index_refl assms(3)]
  by (auto simp: PopulateStyledItemMap_def assms(1) ebind_def)

text \<open>
  A model of six lines: a face \<^verbatim>\<open>#9\<close> at line ID 0, followed by the styled items
  \<^verbatim>\<open>#1=S(#9,(#3,#4),$)\<close>, \<^verbatim>\<open>#6=S($,(#3),$)\<close>, \<^verbatim>\<open>#5=S(#7,(#4),$)\<close>, \<^verbatim>\<open>#8=S(#9,(#5))\<close> and
  \<^verbatim>\<open>#2=S()\<close>. The handle 7 has no line of its own. The type codes are those of
  \<open>stub_collaborators\<close>.
\<close>

definition styled_items_tape :: "byte list" where
  "styled_items_tape =
     [5, 9, 0, 0, 0, 2, 7, 73, 70, 67, 70, 65, 67, 69, 7, 8, 9,
      5, 1, 0, 0, 0, 2, 13, 73, 70, 67, 83, 84, 89, 76, 69, 68, 73, 84, 69, 77,
      7, 5, 9, 0, 0, 0, 7, 5, 3, 0, 0, 0, 5, 4, 0, 0, 0, 8, 6, 8, 9,
      5, 6, 0, 0, 0, 2, 13, 73, 70, 67, 83, 84, 89, 76, 69, 68, 73, 84, 69, 77,
      7, 6, 7, 5, 3, 0, 0, 0, 8, 6, 8, 9,
      5, 5, 0, 0, 0, 2, 13, 73, 70, 67, 83, 84, 89, 76, 69, 68, 73, 84, 69, 77,
      7, 5, 7, 0, 0, 0, 7, 5, 4, 0, 0, 0, 8, 6, 8, 9,
      5, 8, 0, 0, 0, 2, 13, 73, 70, 67, 83, 84, 89, 76, 69, 68, 73, 84, 69, 77,
      7, 5, 9, 0, 0, 0, 7, 5, 5, 0, 0, 0, 8, 8, 9,
      5, 2, 0, 0, 0, 2, 13, 73, 70, 67, 83, 84, 89, 76, 69, 68, 73, 84, 69, 77,
      7, 8, 9]"

definition styled_items_model :: IfcLoader where
  "styled_items_model =
     \<lparr>open_flag = False, tape = \<lparr>bytes = styled_items_tape, readPtr = 0\<rparr>,
      settings = default_settings,
      metaData = IfcMetaData_init
        \<lparr>lines :=
           [\<lparr>expressID = 9, lineIndex = 0, ifcType = 100, tapeOffset = 14, tapeEnd = 17\<rparr>,
            \<lparr>expressID = 1, lineIndex = 1, ifcType = 5, tapeOffset = 37, tapeEnd = 58\<rparr>,
            \<lparr>expressID = 6, lineIndex = 2, ifcType = 5, tapeOffset = 78, tapeEnd = 90\<rparr>,
            \<lparr>expressID = 5, lineIndex = 3, ifcType = 5, tapeOffset = 110, tapeEnd = 126\<rparr>,
            \<lparr>expressID = 8, lineIndex = 4, ifcType = 5, tapeOffset = 146, tapeEnd = 161\<rparr>,
            \<lparr>expressID = 2, lineIndex = 5, ifcType = 5, tapeOffset = 181, tapeEnd = 184\<rparr>],
         expressIDToLine := [0, 1, 5, 0, 0, 3, 2, 0, 4, 0],
         ifcTypeToLineID := (\<lambda>t. [])(100 := [0], 5 := [1, 2, 3, 4, 5])\<rparr>\<rparr>"

lemmas styled_items_eval = styled_items_model_def styled_items_tape_def IfcMetaData_init_def
  stub_collaborators_def ExpressIDToLineID_def GetLine_def GetExpressIDsWithType_def
  resolve_def ebind_def line_at_def nat_le_4

theorem PopulateStyledItemMap_pairs_witness:
  "GetExpressIDsWithType styled_items_model (IFCSTYLEDITEM (codes stub_collaborators)) =
     Inr [1, 6, 5, 8, 2] \<and>
   list_all (styled_item_ok styled_items_model)
     [(1, [], [ARef 9, ASet [ARef 3, ARef 4], AEmpty]),
      (6, [], [AEmpty, ASet [ARef 3], AEmpty]),
      (5, [], [ARef 7, ASet [ARef 4], AEmpty]),
      (8, [], [ARef 9, ASet [ARef 5]]),
      (2, [], [])] \<and>
   (\<exists>s'. PopulateStyledItemMap (codes stub_collaborators) styled_items_model = Inr s' \<and>
         styledItems (metaData s') 9 = [(1, 3), (1, 4), (8, 5)] \<and>
         styledItems (metaData s') 7 = [(5, 4)] \<and>
         styledItems (metaData s') 6 = [] \<and>
         styledItems (metaData s') 3 = [])"
proof -
  let ?c = "codes stub_collaborators"
  let ?items = "[(1 :: nat, [] :: arg list, [ARef 9, ASet [ARef 3, ARef 4], AEmpty]),
      (6, [], [AEmpty, ASet [ARef 3], AEmpty]),
      (5, [], [ARef 7, ASet [ARef 4], AEmpty]),
      (8, [], [ARef 9, ASet [ARef 5]]),
      (2, [], [])]"
  have ids: "GetExpressIDsWithType styled_items_model (IFCSTYLEDITEM ?c) = Inr (map fst ?items)"
    by (simp add: styled_items_eval)
  have oks: "list_all (styled_item_ok styled_items_model) ?items"
    by (simp add: styled_item_ok_def styled_items_eval)
  have len: "length (bytes (tape styled_items_model)) \<le> 2 ^ 32"
    by (simp add: styled_items_eval)
  have old: "styledItems (metaData styled_items_model) r = []" for r
    by (simp add: styled_items_model_def IfcMetaData_init_def)
  obtain s' where run: "PopulateStyledItemMap ?c styled_items_model = Inr s'"
    and all: "\<forall>r. styledItems (metaData s') r =
        styledItems (metaData styled_items_model) r @
        concat (map (\<lambda>x. styled_pairs x r) ?items)"
    using PopulateStyledItemMap_pairs [OF ids oks len] by blast
  have new: "styledItems (metaData s') 9 = [(1, 3), (1, 4), (8, 5)]"
    "styledItems (metaData s') 7 = [(5, 4)]"
    "styledItems (metaData s') 6 = []"
    "styledItems (metaData s') 3 = []"
    using all by (simp_all add: old styled_pairs_def)
  have ids': "GetExpressIDsWithType styled_items_model (IFCSTYLEDITEM ?c) = Inr [1, 6, 5, 8, 2]"
    using ids by simp
  show ?thesis
    using ids' oks run new by blast
qed


section \<open>The query by type of the public interface\<close>

text \<open>
  Modelled from the spec: the binding layer behind \<^verbatim>\<open>IfcAPI.GetLineIDsWithType(modelID, type)\<close>
  of \<^verbatim>\<open>web-ifc-api.ts\<close>, which forwards to \<^verbatim>\<open>wasmModule.GetLineIDsWithType\<close>, is not among
  the sources. Section 6 gives the operation a model and a type code, a sequence of handles
  as its result and the error \<^verbatim>\<open>BadHandle\<close> for a model ID that is not in the registry
  (section 7); the registry maps model IDs to loader instances (section 5). The handles are
  those the loader yields by \<^verbatim>\<open>GetExpressIDsWithType\<close>, the member function of the sources
  that returns handles; a failure of the loader is passed on.
\<close>

datatype api_error = BadHandle | LoaderFailure error

definition IfcAPI_GetLineIDsWithType ::
  "(nat \<rightharpoonup> IfcLoader) \<Rightarrow> nat \<Rightarrow> nat \<Rightarrow> api_error + nat list" where
  "IfcAPI_GetLineIDsWithType registry modelID type =
     (case registry modelID of
        None \<Rightarrow> Inl BadHandle
      | Some loader \<Rightarrow>
          (case GetExpressIDsWithType loader type of
             Inl e \<Rightarrow> Inl (LoaderFailure e)
           | Inr expressIDs \<Rightarrow> Inr expressIDs))"

lemma IfcLoader_init_type_index: "type_index_ok (metaData (IfcLoader_init st))"
  by (simp add: type_index_ok_def IfcLoader_init_def IfcMetaData_init_def)

text \<open>The line table and the type index of a loader.\<close>

definition line_index :: "IfcLoader \<Rightarrow> IfcLine list \<times> (nat \<Rightarrow> nat list)" where
  "line_index s = (lines (metaData s), ifcTypeToLineID (metaData s))"

lemma line_index_simps [simp]:
  "line_index (s\<lparr>tape := tp\<rparr>) = line_index s"
  "line_index (s\<lparr>metaData := (metaData s)\<lparr>relVoids := a\<rparr>\<rparr>) = line_index s"
  "line_index (s\<lparr>metaData := (metaData s)\<lparr>relAggregates := b\<rparr>\<rparr>) = line_index s"
  "line_index (s\<lparr>metaData := (metaData s)\<lparr>styledItems := c\<rparr>\<rparr>) = line_index s"
  "line_index (s\<lparr>metaData := (metaData s)\<lparr>relMaterials := d\<rparr>\<rparr>) = line_index s"
  "line_index (s\<lparr>metaData := (metaData s)\<lparr>materialDefinitions := e\<rparr>\<rparr>) = line_index s"
  "line_index (s\<lparr>metaData := (metaData s)\<lparr>linearScalingFactor := f\<rparr>\<rparr>) = line_index s"
  by (simp_all add: line_index_def)

lemma type_index_ok_line_index:
  "line_index s' = line_index s \<Longrightarrow> type_index_ok (metaData s) \<Longrightarrow> type_index_ok (metaData s')"
  by (simp add: line_index_def type_index_ok_def)

lemma for_each_line_index:
  assumes "\<And>x s s'. f x s = Inr s' \<Longrightarrow> line_index s' = line_index s"
  shows "for_each f xs s = Inr s' \<Longrightarrow> line_index s' = line_index s"
  using for_each_invariant [where I = "\<lambda>t. line_index t = line_index s" and f = f and xs = xs and s = s and s' = s']
    assms by simp

lemma append_pair_loop_line_index:
  assumes "for_each (\<lambda>x s1. ebind (GetRefArgument_at x (tape s1))
             (\<lambda>(r, tp). Inr (s1\<lparr>tape := tp, metaData := g r s1\<rparr>))) xs s = Inr s'"
    and "\<And>r s1. lines (g r s1) = lines (metaData s1) \<and>
           ifcTypeToLineID (g r s1) = ifcTypeToLineID (metaData s1)"
  shows "line_index s' = line_index s"
  using assms(1)
  by (rule for_each_line_index [rotated])
     (auto elim!: ebind_InrE split: prod.splits simp: line_index_def assms(2))

lemma PopulateRelVoidsMap_line_index:
  "PopulateRelVoidsMap c s = Inr s' \<Longrightarrow> line_index s' = line_index s"
  unfolding PopulateRelVoidsMap_def
proof (elim ebind_InrE)
  fix ids assume "for_each PopulateRelVoidsMap_line ids s = Inr s'"
  then show ?thesis
  proof (rule for_each_line_index [rotated])
    fix x t t' assume "PopulateRelVoidsMap_line x t = Inr t'"
    then show "line_index t' = line_index t"
      unfolding PopulateRelVoidsMap_line_def
      by (auto elim!: ebind_InrE split: prod.splits simp: line_index_def)
  qed
qed

lemma PopulateRelAggregatesMap_line_index:
  "PopulateRelAggregatesMap c s = Inr s' \<Longrightarrow> line_index s' = line_index s"
  unfolding PopulateRelAggregatesMap_def
proof (elim ebind_InrE)
  fix ids assume "for_each PopulateRelAggregatesMap_line ids s = Inr s'"
  then show ?thesis
  proof (rule for_each_line_index [rotated])
    fix x t t' assume "PopulateRelAggregatesMap_line x t = Inr t'"
    then show "line_index t' = line_index t"
      unfolding PopulateRelAggregatesMap_line_def
      by (auto elim!: ebind_InrE split: prod.splits dest!: append_pair_loop_line_index)
  qed
qed

lemma PopulateStyledItemMap_line_index:
  "PopulateStyledItemMap c s = Inr s' \<Longrightarrow> line_index s' = line_index s"
  unfolding PopulateStyledItemMap_def
proof (elim ebind_InrE)
  fix ids assume "for_each PopulateStyledItemMap_line ids s = Inr s'"
  then show ?thesis
  proof (rule for_each_line_index [rotated])
    fix x t t' assume "PopulateStyledItemMap_line x t = Inr t'"
    then show "line_index t' = line_index t"
      unfolding PopulateStyledItemMap_line_def
      by (auto elim!: ebind_InrE split: prod.splits if_splits dest!: append_pair_loop_line_index)
  qed
qed

lemma PopulateRelMaterialsMap_line_index:
  "PopulateRelMaterialsMap c s = Inr s' \<Longrightarrow> line_index s' = line_index s"
  unfolding PopulateRelMaterialsMap_def
proof (elim ebind_InrE)
  fix ids s1 ids'
  assume 1: "for_each PopulateRelMaterialsMap_line ids s = Inr s1"
    and 2: "for_each PopulateMaterialDefinitions_line ids' s1 = Inr s'"
  have "line_index s1 = line_index s" using 1
  proof (rule for_each_line_index [rotated])
    fix x t t' assume "PopulateRelMaterialsMap_line x t = Inr t'"
    then show "line_index t' = line_index t"
      unfolding PopulateRelMaterialsMap_line_def
      by (auto elim!: ebind_InrE split: prod.splits dest!: append_pair_loop_line_index)
  qed
  moreover have "line_index s' = line_index s1" using 2
  proof (rule for_each_line_index [rotated])
    fix x t t' assume "PopulateMaterialDefinitions_line x t = Inr t'"
    then show "line_index t' = line_index t"
      unfolding PopulateMaterialDefinitions_line_def
      by (auto elim!: ebind_InrE split: prod.splits dest!: append_pair_loop_line_index)
  qed
  ultimately show ?thesis by simp
qed

lemma ReadLinearScalingFactor_line_index:
  "ReadLinearScalingFactor c s = Inr s' \<Longrightarrow> line_index s' = line_index s"
  unfolding ReadLinearScalingFactor_def Let_def
proof (elim ebind_InrE)
  fix projects
  assume a: "(if length projects \<noteq> 1 then Inr s
      else ebind (ExpressIDToLineID s (projects ! 0)) (\<lambda>lineID.
          ebind (GetLine s lineID) (\<lambda>line.
          ebind (MoveToArgumentOffset (tape s) line 8) (\<lambda>tp1.
          ebind (GetRefArgument tp1) (\<lambda>(unitsID, tp2).
          ebind (ExpressIDToLineID s unitsID) (\<lambda>unitsLineID.
          ebind (GetLine s unitsLineID) (\<lambda>unitsLine.
          ebind (MoveToArgumentOffset tp2 unitsLine 0) (\<lambda>tp3.
          ebind (GetSetArgument tp3) (\<lambda>(unitIds, tp4).
            for_each (ReadLinearScalingFactor_unit c) unitIds (s\<lparr>tape := tp4\<rparr>)))))))))) = Inr s'"
  have unit: "line_index t' = line_index t" if "ReadLinearScalingFactor_unit c x t = Inr t'" for x t t'
    using that unfolding ReadLinearScalingFactor_unit_def
    by (auto elim!: ebind_InrE split: prod.splits if_splits simp: line_index_def)
  show ?thesis
  proof (cases "length projects \<noteq> 1")
    case True
    then show ?thesis using a by simp
  next
    case False
    then show ?thesis using a
      by (auto elim!: ebind_InrE split: prod.splits dest!: for_each_line_index [OF unit, rotated])
  qed
qed

lemma DumpAsIFC_line_index:
  "DumpAsIFC env s = Inr (file, s') \<Longrightarrow> line_index s' = line_index s"
  unfolding DumpAsIFC_def
  by (auto elim!: ebind_InrE split: prod.splits)

text \<open>
  The calls that keep the type index in step with the line table whatever they are given.
  Two calls run code that is not among the sources: \<^verbatim>\<open>LoadFile\<close> runs the parser, and
  the reference that \<^verbatim>\<open>GetMetaData\<close> hands out lets the caller rewrite the indices. For
  these the condition is that the parser, or the caller, keeps the index consistent.
\<close>

definition parser_keeps_type_index :: "collaborators \<Rightarrow> bool" where
  "parser_keeps_type_index env \<longleftrightarrow>
     (\<forall>numLines tp md tp' md'.
        type_index_ok md \<longrightarrow> ParseTape env numLines tp md = Inr (tp', md') \<longrightarrow>
        type_index_ok md')"

definition keeps_type_index :: "collaborators \<Rightarrow> loader_call \<Rightarrow> bool" where
  "keeps_type_index env c =
     (case c of
        Call_LoadFile content \<Rightarrow> parser_keeps_type_index env
      | Call_GetMetaData f \<Rightarrow> (\<forall>md. type_index_ok md \<longrightarrow> type_index_ok (f md))
      | _ \<Rightarrow> True)"

lemma LoadFile_type_index:
  assumes "parser_keeps_type_index env" "type_index_ok (metaData s)"
    and "LoadFile env content s = Inr s'"
  shows "type_index_ok (metaData s')"
  using assms(3) unfolding LoadFile_def
proof (elim ebind_InrE)
  fix a b s1 s2 s3 s4
  assume p: "(case a of (numLines, tp1) \<Rightarrow>
        ebind (ParseTape env numLines tp1 (metaData s)) (\<lambda>(tp2, md).
        ebind (PopulateRelVoidsMap (codes env) (s\<lparr>tape := tp2, metaData := md\<rparr>)) (\<lambda>s1.
        ebind (PopulateRelAggregatesMap (codes env) s1) (\<lambda>s2.
        ebind (PopulateStyledItemMap (codes env) s2) (\<lambda>s3.
        ebind (PopulateRelMaterialsMap (codes env) s3) (\<lambda>s4.
          ReadLinearScalingFactor (codes env) s4)))))) = Inr s'"
  obtain numLines tp1 where a: "a = (numLines, tp1)" by (cases a)
  from p [unfolded a, simplified] show ?thesis
  proof (elim ebind_InrE)
    fix b s1 s2 s3 s4
    assume pt: "ParseTape env numLines tp1 (metaData s) = Inr b"
      and r: "(case b of (tp2, md) \<Rightarrow>
          ebind (PopulateRelVoidsMap (codes env) (s\<lparr>tape := tp2, metaData := md\<rparr>)) (\<lambda>s1.
          ebind (PopulateRelAggregatesMap (codes env) s1) (\<lambda>s2.
          ebind (PopulateStyledItemMap (codes env) s2) (\<lambda>s3.
          ebind (PopulateRelMaterialsMap (codes env) s3) (\<lambda>s4.
            ReadLinearScalingFactor (codes env) s4))))) = Inr s'"
    obtain tp2 md where b: "b = (tp2, md)" by (cases b)
    have md: "type_index_ok md"
      using assms(1,2) pt b by (auto simp: parser_keeps_type_index_def)
    from r [unfolded b, simplified] show ?thesis
    proof (elim ebind_InrE)
      fix s1 s2 s3 s4
      assume "PopulateRelVoidsMap (codes env) (s\<lparr>tape := tp2, metaData := md\<rparr>) = Inr s1"
        "PopulateRelAggregatesMap (codes env) s1 = Inr s2"
        "PopulateStyledItemMap (codes env) s2 = Inr s3"
        "PopulateRelMaterialsMap (codes env) s3 = Inr s4"
        "ReadLinearScalingFactor (codes env) s4 = Inr s'"
      then have "line_index s' = line_index (s\<lparr>tape := tp2, metaData := md\<rparr>)"
        using PopulateRelVoidsMap_line_index PopulateRelAggregatesMap_line_index
          PopulateStyledItemMap_line_index PopulateRelMaterialsMap_line_index
          ReadLinearScalingFactor_line_index by metis
      then show ?thesis
        using md type_index_ok_line_index [of s' "s\<lparr>tape := tp2, metaData := md\<rparr>"] by simp
    qed
  qed
qed

lemma call_type_index:
  assumes "keeps_type_index env c" "type_index_ok (metaData s)" "call env c s = Inr s'"
  shows "type_index_ok (metaData s')"
proof -
  have frame: "line_index s' = line_index s \<Longrightarrow> ?thesis"
    using assms(2) by (rule type_index_ok_line_index [rotated])
  show ?thesis
  proof (cases c)
    case (Call_LoadFile content)
    then show ?thesis using assms LoadFile_type_index by (simp add: keeps_type_index_def)
  next
    case (Call_GetMetaData f)
    then show ?thesis using assms by (auto simp: keeps_type_index_def)
  next
    case (Call_UpdateLineTape eid type start end')
    then show ?thesis using assms UpdateLineTape_type_index by simp
  next
    case Call_ReadLinearScalingFactor
    then show ?thesis using assms(3) ReadLinearScalingFactor_line_index frame by simp
  next
    case Call_PopulateRelVoidsMap
    then show ?thesis using assms(3) PopulateRelVoidsMap_line_index frame by simp
  next
    case Call_PopulateRelAggregatesMap
    then show ?thesis using assms(3) PopulateRelAggregatesMap_line_index frame by simp
  next
    case Call_PopulateStyledItemMap
    then show ?thesis using assms(3) PopulateStyledItemMap_line_index frame by simp
  next
    case Call_PopulateRelMaterialsMap
    then show ?thesis using assms(3) PopulateRelMaterialsMap_line_index frame by simp
  next
    case Call_DumpAsIFC
    then show ?thesis using assms(3) frame
      by (auto elim!: ebind_InrE split: prod.splits dest!: DumpAsIFC_line_index)
  qed (use assms(3) frame in \<open>auto simp: PushDataToTape_def MoveToLine_def MoveToLineArgument_def
      elim!: ebind_InrE split: prod.splits\<close>)
qed

lemma calls_type_index:
  "list_all (keeps_type_index env) calls \<Longrightarrow> type_index_ok (metaData s) \<Longrightarrow>
   for_each (call env) calls s = Inr s' \<Longrightarrow> type_index_ok (metaData s')"
proof (induction calls arbitrary: s)
  case Nil
  then show ?case by simp
next
  case (Cons c calls)
  from Cons.prems(3) obtain s1 where 1: "call env c s = Inr s1"
    and 2: "for_each (call env) calls s1 = Inr s'"
    by (auto elim!: ebind_InrE)
  have "type_index_ok (metaData s1)"
    using call_type_index [OF _ Cons.prems(2) 1] Cons.prems(1) by simp
  then show ?case using Cons.IH [OF _ _ 2] Cons.prems(1) by simp
qed

text \<open>
  C8: for every model of the registry that public operations of the loader have built
  from a new loader, and for every type code \<open>T\<close>, \<^verbatim>\<open>GetLineIDsWithType(model, T)\<close> returns
  the handles of exactly the lines whose type code is \<open>T\<close>, in the order of the line
  table, which is the order of insertion. The operations are any members of the loader;
  the parser and a caller that writes through the reference to the meta data are taken to
  keep the type index in step with the line table.
\<close>

theorem IfcAPI_GetLineIDsWithType_handles:
  assumes "registry modelID = Some s"
    and "for_each (call env) calls (IfcLoader_init st) = Inr s"
    and "list_all (keeps_type_index env) calls"
  shows "IfcAPI_GetLineIDsWithType registry modelID T =
           Inr (map expressID (filter (\<lambda>l. ifcType l = T) (lines (metaData s))))"
  using type_index_GetExpressIDsWithType
    [OF calls_type_index [OF assms(3) IfcLoader_init_type_index assms(2)]]
  by (simp add: IfcAPI_GetLineIDsWithType_def assms(1))

theorem IfcAPI_GetLineIDsWithType_handles_witness:
  "list_all (keeps_type_index stub_collaborators)
     [Call_LoadFile '''', Call_UpdateLineTape 3 7 0 10, Call_UpdateLineTape 5 9 10 20,
      Call_PopulateStyledItemMap, Call_UpdateLineTape 4 7 20 30,
      Call_GetMetaData (\<lambda>md. md\<lparr>linearScalingFactor := 2\<rparr>)] \<and>
   (\<exists>s. for_each (call stub_collaborators)
          [Call_LoadFile '''', Call_UpdateLineTape 3 7 0 10, Call_UpdateLineTape 5 9 10 20,
           Call_PopulateStyledItemMap, Call_UpdateLineTape 4 7 20 30,
           Call_GetMetaData (\<lambda>md. md\<lparr>linearScalingFactor := 2\<rparr>)]
          (IfcLoader_init default_settings) = Inr s \<and>
        map expressID (lines (metaData s)) = [3, 5, 4] \<and>
        map ifcType (lines (metaData s)) = [7, 9, 7] \<and>
        IfcAPI_GetLineIDsWithType (Map.empty(0 \<mapsto> s)) 0 7 = Inr [3, 4] \<and>
        IfcAPI_GetLineIDsWithType (Map.empty(0 \<mapsto> s)) 0 9 = Inr [5] \<and>
        IfcAPI_GetLineIDsWithType (Map.empty(0 \<mapsto> s)) 0 8 = Inr [] \<and>
        IfcAPI_GetLineIDsWithType (Map.empty(0 \<mapsto> s)) 1 7 = Inl BadHandle)"
proof -
  let ?calls = "[Call_LoadFile '''', Call_UpdateLineTape 3 7 0 10, Call_UpdateLineTape 5 9 10 20,
      Call_PopulateStyledItemMap, Call_UpdateLineTape 4 7 20 30,
      Call_GetMetaData (\<lambda>md. md\<lparr>linearScalingFactor := 2\<rparr>)]"
  let ?run = "for_each (call stub_collaborators) ?calls (IfcLoader_init default_settings)"
  have keep: "list_all (keeps_type_index stub_collaborators) ?calls"
    by (simp add: keeps_type_index_def parser_keeps_type_index_def stub_collaborators_def
        type_index_ok_def)
  have ev: "ebind ?run (\<lambda>s. Inr (lines (metaData s))) =
        Inr [\<lparr>expressID = 3, lineIndex = 0, ifcType = 7, tapeOffset = 0, tapeEnd = 10\<rparr>,
             \<lparr>expressID = 5, lineIndex = 1, ifcType = 9, tapeOffset = 10, tapeEnd = 20\<rparr>,
             \<lparr>expressID = 4, lineIndex = 2, ifcType = 7, tapeOffset = 20, tapeEnd = 30\<rparr>]"
    by (simp add: stub_collaborators_def LoadFile_def PopulateRelVoidsMap_def
        PopulateRelAggregatesMap_def PopulateStyledItemMap_def PopulateRelMaterialsMap_def
        ReadLinearScalingFactor_def GetExpressIDsWithType_def index_eval)
  then obtain s where run: "?run = Inr s"
    and "Inr (lines (metaData s)) =
        (Inr [\<lparr>expressID = 3, lineIndex = 0, ifcType = 7, tapeOffset = 0, tapeEnd = 10\<rparr>,
         \<lparr>expressID = 5, lineIndex = 1, ifcType = 9, tapeOffset = 10, tapeEnd = 20\<rparr>,
         \<lparr>expressID = 4, lineIndex = 2, ifcType = 7, tapeOffset = 20, tapeEnd = 30\<rparr>]
          :: error + IfcLine list)"
    by (rule ebind_InrE)
  then have ls: "lines (metaData s) =
        [\<lparr>expressID = 3, lineIndex = 0, ifcType = 7, tapeOffset = 0, tapeEnd = 10\<rparr>,
         \<lparr>expressID = 5, lineIndex = 1, ifcType = 9, tapeOffset = 10, tapeEnd = 20\<rparr>,
         \<lparr>expressID = 4, lineIndex = 2, ifcType = 7, tapeOffset = 20, tapeEnd = 30\<rparr>]"
    by simp
  have reg: "(Map.empty(0 \<mapsto> s)) (0 :: nat) = Some s" by simp
  have "IfcAPI_GetLineIDsWithType (Map.empty(0 \<mapsto> s)) 0 7 = Inr [3, 4]"
    "IfcAPI_GetLineIDsWithType (Map.empty(0 \<mapsto> s)) 0 9 = Inr [5]"
    "IfcAPI_GetLineIDsWithType (Map.empty(0 \<mapsto> s)) 0 8 = Inr []"
    using IfcAPI_GetLineIDsWithType_handles
      [where registry = "Map.empty(0 \<mapsto> s)" and modelID = 0, OF reg run keep]
    by (simp_all add: ls)
  moreover have "IfcAPI_GetLineIDsWithType (Map.empty(0 \<mapsto> s)) 1 7 = Inl BadHandle"
    by (simp add: IfcAPI_GetLineIDsWithType_def)
  ultimately show ?thesis using run ls keep by simp
qed


section \<open>Writing a line object\<close>

text \<open>
  \<^verbatim>\<open>WriteLine\<close> of \<^verbatim>\<open>web-ifc-api.ts\<close> works on JavaScript values. A value is a primitive or
  a reference to an object or an array of the heap; the heap is the sequence of the objects
  allocated so far, and a reference is an index into it. An object is the list of its own
  properties in the order in which \<^verbatim>\<open>Object.keys\<close> enumerates them. A property key is a name
  or an array index.
\<close>

datatype jsval = JUndefined | JNull | JBool bool | JNum int | JStr string | JRef nat

datatype key = Name string | Index nat

datatype jsobj = JObject "(key \<times> jsval) list" | JArray "jsval list"

datatype js_error = TypeError

text \<open>
  The binding \<^verbatim>\<open>wasmModule.WriteLine(modelID, ID, type, arguments)\<close> is not among the sources;
  the calls made to it are recorded in order.
\<close>

record world =
  heap :: "jsobj list"
  wasm_WriteLine :: "(nat \<times> jsval \<times> jsval \<times> jsval list) list"

text \<open>
  The object behind a reference. A JavaScript reference always has its object; an index
  beyond the heap reads as an object without properties.
\<close>

definition cell :: "jsobj list \<Rightarrow> nat \<Rightarrow> jsobj" where
  "cell h a = (if a < length h then h ! a else JObject [])"

fun prop_get :: "jsobj \<Rightarrow> key \<Rightarrow> jsval" where
  "prop_get (JObject ps) k = (case map_of ps k of Some v \<Rightarrow> v | None \<Rightarrow> JUndefined)"
| "prop_get (JArray xs) (Index i) = (if i < length xs then xs ! i else JUndefined)"
| "prop_get (JArray xs) (Name n) =
     (if n = ''length'' then JNum (int (length xs)) else JUndefined)"

text \<open>
  An assignment to a property: an existing property keeps its place, a new one comes
  last, and an array grows to hold a new index.
\<close>

fun prop_set :: "jsobj \<Rightarrow> key \<Rightarrow> jsval \<Rightarrow> jsobj" where
  "prop_set (JObject ps) k v =
     (if k \<in> set (map fst ps) then JObject (map (\<lambda>(k', x). (k', if k' = k then v else x)) ps)
      else JObject (ps @ [(k, v)]))"
| "prop_set (JArray xs) (Index i) v =
     (if i < length xs then JArray (xs[i := v])
      else JArray (xs @ replicate (i - length xs) JUndefined @ [v]))"
| "prop_set (JArray xs) (Name n) v = JArray xs"

fun truthy :: "jsval \<Rightarrow> bool" where
  "truthy JUndefined = False"
| "truthy JNull = False"
| "truthy (JBool b) = b"
| "truthy (JNum n) = (n \<noteq> 0)"
| "truthy (JStr s) = (s \<noteq> [])"
| "truthy (JRef a) = True"

text \<open>The property access \<^verbatim>\<open>v[k]\<close>: it throws for \<^verbatim>\<open>undefined\<close> and \<^verbatim>\<open>null\<close>.\<close>

fun js_member :: "jsobj list \<Rightarrow> jsval \<Rightarrow> key \<Rightarrow> js_error + jsval" where
  "js_member h JUndefined k = Inl TypeError"
| "js_member h JNull k = Inl TypeError"
| "js_member h (JBool b) k = Inr JUndefined"
| "js_member h (JNum n) k = Inr JUndefined"
| "js_member h (JStr s) k =
     Inr (case k of
            Name n \<Rightarrow> if n = ''length'' then JNum (int (length s)) else JUndefined
          | Index i \<Rightarrow> if i < length s then JStr [s ! i] else JUndefined)"
| "js_member h (JRef a) k = Inr (prop_get (cell h a) k)"

text \<open>
  The assignment \<^verbatim>\<open>base[k] = v\<close>. The module is compiled as strict code, where an
  assignment to a property of a primitive throws as it does for \<^verbatim>\<open>undefined\<close> and \<^verbatim>\<open>null\<close>.
\<close>

fun assign :: "jsval \<Rightarrow> key \<Rightarrow> jsval \<Rightarrow> world \<Rightarrow> js_error + world" where
  "assign (JRef a) k v w = Inr (w\<lparr>heap := (heap w)[a := prop_set (cell (heap w) a) k v]\<rparr>)"
| "assign base k v w = Inl TypeError"

fun Object_keys :: "jsobj list \<Rightarrow> jsval \<Rightarrow> js_error + key list" where
  "Object_keys h JUndefined = Inl TypeError"
| "Object_keys h JNull = Inl TypeError"
| "Object_keys h (JBool b) = Inr []"
| "Object_keys h (JNum n) = Inr []"
| "Object_keys h (JStr s) = Inr (map Index [0..<length s])"
| "Object_keys h (JRef a) =
     Inr (case cell h a of
            JObject ps \<Rightarrow> map fst ps
          | JArray xs \<Rightarrow> map Index [0..<length xs])"

fun Array_isArray :: "jsobj list \<Rightarrow> jsval \<Rightarrow> bool" where
  "Array_isArray h (JRef a) = (case cell h a of JArray xs \<Rightarrow> True | JObject ps \<Rightarrow> False)"
| "Array_isArray h v = False"

text \<open>The comparison \<^verbatim>\<open><\<close>, which the function applies to an index and a length.\<close>

fun js_less :: "jsval \<Rightarrow> jsval \<Rightarrow> bool" where
  "js_less (JNum x) (JNum y) = (x < y)"
| "js_less a b = False"

text \<open>An object literal: the new object is put on the heap.\<close>

definition new_object :: "jsobj \<Rightarrow> world \<Rightarrow> jsval \<times> world" where
  "new_object obj w = (JRef (length (heap w)), w\<lparr>heap := heap w @ [obj]\<rparr>)"

text \<open>
  A run ends with a world, or with an exception, or it does not end: \<open>None\<close> is a run
  that needs more than the given number of nested calls or rounds of a loop.
\<close>

type_synonym 'a js = "(js_error + 'a) option"

definition jbind :: "'a js \<Rightarrow> ('a \<Rightarrow> 'b js) \<Rightarrow> 'b js" where
  "jbind m f = (case m of None \<Rightarrow> None | Some (Inl e) \<Rightarrow> Some (Inl e) | Some (Inr x) \<Rightarrow> f x)"

fun forEach :: "('a \<Rightarrow> 's \<Rightarrow> 's js) \<Rightarrow> 'a list \<Rightarrow> 's \<Rightarrow> 's js" where
  "forEach f [] s = Some (Inr s)"
| "forEach f (x # xs) s = jbind (f x s) (forEach f xs)"

definition WriteRawLineData :: "nat \<Rightarrow> jsval \<times> jsval \<times> jsval list \<Rightarrow> world \<Rightarrow> world" where
  "WriteRawLineData modelID data w =
     w\<lparr>wasm_WriteLine := wasm_WriteLine w @ [(modelID, data)]\<rparr>"

text \<open>The object literal \<^verbatim>\<open>{type: 5, value: v}\<close>.\<close>

definition REF_object :: "jsval \<Rightarrow> jsobj" where
  "REF_object v = JObject [(Name ''type'', JNum 5), (Name ''value'', v)]"

text \<open>
  The \<^verbatim>\<open>for\<close> loop over an array-valued property, from the index \<open>i\<close> on; \<open>rec\<close> is the
  recursive call of \<^verbatim>\<open>WriteLine\<close>. The length of the array and the element are read anew
  in every round, and the assignment goes to \<^verbatim>\<open>lineObject[propertyName]\<close> as it is then.
\<close>

primrec WriteLine_array ::
  "(jsval \<Rightarrow> world \<Rightarrow> world js) \<Rightarrow> nat \<Rightarrow> jsval \<Rightarrow> key \<Rightarrow> jsval \<Rightarrow> nat \<Rightarrow> world \<Rightarrow> world js" where
  "WriteLine_array rec 0 lineObject propertyName property i w = None"
| "WriteLine_array rec (Suc fuel) lineObject propertyName property i w =
     jbind (Some (js_member (heap w) property (Name ''length''))) (\<lambda>len.
       if \<not> js_less (JNum (int i)) len then Some (Inr w)
       else
         jbind (Some (js_member (heap w) property (Index i))) (\<lambda>element.
         jbind (Some (js_member (heap w) element (Name ''expressID''))) (\<lambda>expressID.
           if expressID \<noteq> JUndefined then
             jbind (rec element w) (\<lambda>w1.
             jbind (Some (js_member (heap w1) lineObject propertyName)) (\<lambda>target.
             jbind (Some (js_member (heap w1) property (Index i))) (\<lambda>element1.
             jbind (Some (js_member (heap w1) element1 (Name ''expressID''))) (\<lambda>expressID1.
               case new_object (REF_object expressID1) w1 of (ref, w2) \<Rightarrow>
             jbind (Some (assign target (Index i) ref w2)) (\<lambda>w3.
               WriteLine_array rec fuel lineObject propertyName property (Suc i) w3)))))
           else WriteLine_array rec fuel lineObject propertyName property (Suc i) w)))"

text \<open>The callback of \<^verbatim>\<open>forEach\<close>, for one property name.\<close>

definition WriteLine_property ::
  "(jsval \<Rightarrow> world \<Rightarrow> world js) \<Rightarrow> nat \<Rightarrow> jsval \<Rightarrow> key \<Rightarrow> world \<Rightarrow> world js" where
  "WriteLine_property rec fuel lineObject propertyName w =
     jbind (Some (js_member (heap w) lineObject propertyName)) (\<lambda>property.
     jbind (if truthy property
            then jbind (Some (js_member (heap w) property (Name ''expressID'')))
                   (\<lambda>expressID. Some (Inr (expressID \<noteq> JUndefined)))
            else Some (Inr False)) (\<lambda>is_object.
       if is_object then
         jbind (rec property w) (\<lambda>w1.
         jbind (Some (js_member (heap w1) property (Name ''expressID''))) (\<lambda>expressID.
           case new_object (REF_object expressID) w1 of (ref, w2) \<Rightarrow>
             Some (assign lineObject propertyName ref w2)))
       else
         jbind (if Array_isArray (heap w) property
                then jbind (Some (js_member (heap w) property (Name ''length'')))
                       (\<lambda>len. Some (Inr (js_less (JNum 0) len)))
                else Some (Inr False)) (\<lambda>is_array.
           if is_array then WriteLine_array rec fuel lineObject propertyName property 0 w
           else Some (Inr w))))"

text \<open>
  \<^verbatim>\<open>WriteLine\<close>. The method \<^verbatim>\<open>ToTape\<close> of the line object belongs to the generated
  schema classes, which are not among the sources; it is a parameter, given the heap and
  the object, and yields the arguments of the raw line.
\<close>

primrec WriteLine ::
  "(jsobj list \<Rightarrow> jsval \<Rightarrow> js_error + jsval list) \<Rightarrow> nat \<Rightarrow> nat \<Rightarrow> jsval \<Rightarrow> world \<Rightarrow> world js" where
  "WriteLine ToTape 0 modelID lineObject w = None"
| "WriteLine ToTape (Suc fuel) modelID lineObject w =
     jbind (Some (Object_keys (heap w) lineObject)) (\<lambda>keys.
     jbind (forEach (WriteLine_property (WriteLine ToTape fuel modelID) fuel lineObject) keys w) (\<lambda>w1.
     jbind (Some (js_member (heap w1) lineObject (Name ''expressID''))) (\<lambda>ID.
     jbind (Some (js_member (heap w1) lineObject (Name ''type''))) (\<lambda>type.
     jbind (Some (ToTape (heap w1) lineObject)) (\<lambda>arguments.
       Some (Inr (WriteRawLineData modelID (ID, type, arguments) w1)))))))"

subsection \<open>Objects that carry an \<^verbatim>\<open>expressID\<close>\<close>

definition eid_of :: "jsobj list \<Rightarrow> jsval \<Rightarrow> jsval" where
  "eid_of h v = (case v of JRef b \<Rightarrow> prop_get (cell h b) (Name ''expressID'') | _ \<Rightarrow> JUndefined)"

definition carries :: "jsobj list \<Rightarrow> jsval \<Rightarrow> bool" where
  "carries h v \<longleftrightarrow> eid_of h v \<noteq> JUndefined"

fun is_ref :: "jsval \<Rightarrow> bool" where
  "is_ref (JRef b) = True"
| "is_ref v = False"

fun addr :: "jsval \<Rightarrow> nat" where
  "addr (JRef b) = b"
| "addr v = 0"

definition elems :: "jsobj list \<Rightarrow> jsval \<Rightarrow> jsval list" where
  "elems h v =
     (case v of
        JRef r \<Rightarrow> (case cell h r of JArray xs \<Rightarrow> xs | JObject ps \<Rightarrow> [])
      | _ \<Rightarrow> [])"

text \<open>
  The heaps considered. The property names of an object are distinct; the
  \<^verbatim>\<open>expressID\<close> of an object is no object; an array has no \<^verbatim>\<open>undefined\<close> or \<^verbatim>\<open>null\<close>
  element; and the objects do not contain themselves: every object that carries an
  \<^verbatim>\<open>expressID\<close> and is the value of a property of an object \<open>x\<close>, or an element of an
  array-valued property of \<open>x\<close>, has a smaller rank than \<open>x\<close>. Two properties may share
  an object or an array.
\<close>

definition good :: "(nat \<Rightarrow> nat) \<Rightarrow> jsobj list \<Rightarrow> bool" where
  "good rk h \<longleftrightarrow>
     (\<forall>x<length h.
        case h ! x of
          JObject ps \<Rightarrow>
            distinct (map fst ps) \<and>
            \<not> is_ref (prop_get (JObject ps) (Name ''expressID'')) \<and>
            (\<forall>v\<in>set (map snd ps).
               (carries h v \<longrightarrow> rk (addr v) < rk x) \<and>
               (\<forall>el\<in>set (elems h v). carries h el \<longrightarrow> rk (addr el) < rk x))
        | JArray xs \<Rightarrow> (\<forall>el\<in>set xs. el \<noteq> JUndefined \<and> el \<noteq> JNull))"

text \<open>
  What a run does to the heap: an entry (the value of a property, or an element of an
  array) stays, or it held an object that carries an \<^verbatim>\<open>expressID\<close>, of rank below \<open>\<rho>\<close>, and
  now holds a new object \<^verbatim>\<open>{type: 5, value: expressID}\<close>, and a raw line with this ID has
  been written during the run.
\<close>

definition replaced :: "(nat \<Rightarrow> nat) \<Rightarrow> nat \<Rightarrow> world \<Rightarrow> world \<Rightarrow> jsval \<Rightarrow> jsval \<Rightarrow> bool" where
  "replaced rk \<rho> w w' v v' \<longleftrightarrow>
     carries (heap w) v \<and> rk (addr v) < \<rho> \<and>
     (\<exists>c. v' = JRef c \<and> length (heap w) \<le> c \<and> c < length (heap w') \<and>
          heap w' ! c = REF_object (eid_of (heap w) v)) \<and>
     eid_of (heap w) v \<in>
       set (map (\<lambda>l. fst (snd l)) (drop (length (wasm_WriteLine w)) (wasm_WriteLine w')))"

definition entry_rel :: "(nat \<Rightarrow> nat) \<Rightarrow> nat \<Rightarrow> world \<Rightarrow> world \<Rightarrow> jsval \<Rightarrow> jsval \<Rightarrow> bool" where
  "entry_rel rk \<rho> w w' v v' \<longleftrightarrow> v' = v \<or> replaced rk \<rho> w w' v v'"

fun cell_rel :: "(jsval \<Rightarrow> jsval \<Rightarrow> bool) \<Rightarrow> jsobj \<Rightarrow> jsobj \<Rightarrow> bool" where
  "cell_rel R (JObject ps) (JObject ps') \<longleftrightarrow>
     map fst ps' = map fst ps \<and> list_all2 R (map snd ps) (map snd ps')"
| "cell_rel R (JArray xs) (JArray xs') \<longleftrightarrow> list_all2 R xs xs'"
| "cell_rel R (JObject ps) (JArray xs') \<longleftrightarrow> False"
| "cell_rel R (JArray xs) (JObject ps') \<longleftrightarrow> False"

definition evolves :: "(nat \<Rightarrow> nat) \<Rightarrow> nat \<Rightarrow> world \<Rightarrow> world \<Rightarrow> bool" where
  "evolves rk \<rho> w w' \<longleftrightarrow>
     length (heap w) \<le> length (heap w') \<and>
     (\<exists>ws. wasm_WriteLine w' = wasm_WriteLine w @ ws) \<and>
     (\<forall>x<length (heap w). cell_rel (entry_rel rk \<rho> w w') (heap w ! x) (heap w' ! x)) \<and>
     (\<forall>c. length (heap w) \<le> c \<longrightarrow> c < length (heap w') \<longrightarrow>
          (\<exists>e. heap w' ! c = REF_object e \<and> \<not> is_ref e))"

subsection \<open>Reading entries\<close>

lemma member_expressID:
  "v \<noteq> JUndefined \<Longrightarrow> v \<noteq> JNull \<Longrightarrow> js_member h v (Name ''expressID'') = Inr (eid_of h v)"
  by (cases v) (simp_all add: eid_of_def)

lemma truthy_not_null: "truthy v \<Longrightarrow> v \<noteq> JUndefined \<and> v \<noteq> JNull"
  by (cases v) simp_all

lemma carries_ref: "carries h v \<Longrightarrow> \<exists>b. v = JRef b \<and> b < length h"
  by (cases v) (auto simp: carries_def eid_of_def cell_def split: if_splits)

lemma carries_truthy: "carries h v \<Longrightarrow> truthy v"
  by (auto dest: carries_ref)

lemma carries_object: "carries h (JRef b) \<Longrightarrow> \<exists>ps. h ! b = JObject ps \<and> b < length h"
  by (cases "h ! b") (auto simp: carries_def eid_of_def cell_def split: if_splits)

lemma not_is_ref_not_carries: "\<not> is_ref v \<Longrightarrow> \<not> carries h v"
  by (cases v) (simp_all add: carries_def eid_of_def)

lemma REF_object_no_eid [simp]: "prop_get (REF_object e) (Name ''expressID'') = JUndefined"
  by (simp add: REF_object_def)

lemma map_of_rel:
  "map fst ps' = map fst ps \<Longrightarrow> list_all2 R (map snd ps) (map snd ps') \<Longrightarrow>
   rel_option R (map_of ps k) (map_of ps' k)"
proof (induction ps arbitrary: ps')
  case Nil
  then show ?case by simp
next
  case (Cons p ps)
  then obtain p' qs where ps': "ps' = p' # qs" by (cases ps') auto
  then show ?case using Cons by (cases p; cases p') auto
qed

lemma prop_get_rel:
  assumes "cell_rel R c c'" "R JUndefined JUndefined" "\<And>n. R (JNum n) (JNum n)"
  shows "R (prop_get c k) (prop_get c' k)"
proof (cases c)
  case (JObject ps)
  then obtain ps' where c': "c' = JObject ps'" using assms(1) by (cases c') auto
  have "rel_option R (map_of ps k) (map_of ps' k)"
    using assms(1) JObject c' by (auto intro: map_of_rel)
  then show ?thesis using JObject c' assms(2)
    by (cases "map_of ps k"; cases "map_of ps' k") auto
next
  case (JArray xs)
  then obtain xs' where c': "c' = JArray xs'" using assms(1) by (cases c') auto
  have l: "list_all2 R xs xs'" using assms(1) JArray c' by simp
  then have len: "length xs' = length xs" by (simp add: list_all2_lengthD)
  show ?thesis
  proof (cases k)
    case (Name n)
    then show ?thesis using JArray c' len assms(2,3) by simp
  next
    case (Index i)
    then show ?thesis using JArray c' len assms(2) l by (auto simp: list_all2_nthD)
  qed
qed

lemma entry_rel_refl [simp]: "entry_rel rk \<rho> w w' v v"
  by (simp add: entry_rel_def)

lemma evolves_cell:
  "evolves rk \<rho> w w' \<Longrightarrow> x < length (heap w) \<Longrightarrow>
   cell_rel (entry_rel rk \<rho> w w') (cell (heap w) x) (cell (heap w') x)"
  by (auto simp: evolves_def cell_def)

lemma evolves_new_cell:
  "evolves rk \<rho> w w' \<Longrightarrow> length (heap w) \<le> c \<Longrightarrow> c < length (heap w') \<Longrightarrow>
   \<exists>e. cell (heap w') c = REF_object e \<and> \<not> is_ref e"
  by (auto simp: evolves_def cell_def)

lemma evolves_entry:
  "evolves rk \<rho> w w' \<Longrightarrow> x < length (heap w) \<Longrightarrow>
   entry_rel rk \<rho> w w' (prop_get (cell (heap w) x) k) (prop_get (cell (heap w') x) k)"
  by (rule prop_get_rel [OF evolves_cell]) simp_all

text \<open>Which objects carry an \<^verbatim>\<open>expressID\<close>, and which, does not change.\<close>

lemma good_eid_not_ref: "good rk h \<Longrightarrow> \<not> is_ref (eid_of h v)"
proof (cases v)
  case (JRef b)
  assume g: "good rk h"
  show ?thesis
  proof (cases "b < length h")
    case True
    then show ?thesis using g JRef
      by (cases "h ! b") (auto simp: good_def eid_of_def cell_def dest!: spec [of _ b])
  next
    case False
    then show ?thesis using JRef by (simp add: eid_of_def cell_def)
  qed
qed (simp_all add: eid_of_def)

lemma evolves_eid_of:
  assumes "good rk (heap w)" "evolves rk \<rho> w w'"
  shows "eid_of (heap w') v = eid_of (heap w) v"
proof (cases v)
  case (JRef b)
  show ?thesis
  proof (cases "b < length (heap w)")
    case True
    have "entry_rel rk \<rho> w w' (eid_of (heap w) v) (eid_of (heap w') v)"
      using evolves_entry [OF assms(2) True] JRef by (simp add: eid_of_def)
    moreover have "\<not> carries (heap w) (eid_of (heap w) v)"
      using good_eid_not_ref [OF assms(1)] not_is_ref_not_carries by blast
    ultimately show ?thesis by (auto simp: entry_rel_def replaced_def)
  next
    case False
    show ?thesis
    proof (cases "b < length (heap w')")
      case True
      then obtain e where "cell (heap w') b = REF_object e"
        using evolves_new_cell [OF assms(2)] False by (meson not_le)
      then show ?thesis using JRef False by (simp add: eid_of_def cell_def)
    next
      case False
      then show ?thesis using JRef \<open>\<not> b < length (heap w)\<close> by (simp add: eid_of_def cell_def)
    qed
  qed
qed (simp_all add: eid_of_def)

lemma evolves_carries:
  "good rk (heap w) \<Longrightarrow> evolves rk \<rho> w w' \<Longrightarrow> carries (heap w') v = carries (heap w) v"
  by (simp add: carries_def evolves_eid_of)

subsection \<open>How the heap evolves\<close>

lemma REF_object_rel:
  assumes "cell_rel R (REF_object e) c'" "\<And>v'. R (JNum 5) v' \<Longrightarrow> v' = JNum 5"
    "\<And>v'. R e v' \<Longrightarrow> v' = e"
  shows "c' = REF_object e"
proof -
  obtain ps' where c': "c' = JObject ps'" using assms(1) by (cases c') (auto simp: REF_object_def)
  have k: "map fst ps' = [Name ''type'', Name ''value'']"
    and l: "list_all2 R [JNum 5, e] (map snd ps')"
    using assms(1) c' by (simp_all add: REF_object_def)
  from l obtain a b where s: "map snd ps' = [a, b]" "R (JNum 5) a" "R e b"
    by (auto simp: list_all2_Cons1)
  then have "a = JNum 5" "b = e" using assms(2,3) by auto
  then have "ps' = [(Name ''type'', JNum 5), (Name ''value'', e)]"
    using k s(1) by (auto simp: map_eq_Cons_conv)
  then show ?thesis using c' by (simp add: REF_object_def)
qed

lemma entry_rel_not_carries:
  "entry_rel rk \<rho> w w' v v' \<Longrightarrow> \<not> carries (heap w) v \<Longrightarrow> v' = v"
  by (auto simp: entry_rel_def replaced_def)

lemma evolves_REF_object:
  assumes "evolves rk \<rho> w w'" "c < length (heap w)" "heap w ! c = REF_object e" "\<not> is_ref e"
  shows "heap w' ! c = REF_object e"
proof -
  have "cell_rel (entry_rel rk \<rho> w w') (REF_object e) (heap w' ! c)"
    using assms(1,2,3) by (auto simp: evolves_def)
  then show ?thesis
  proof (rule REF_object_rel)
    fix v' assume "entry_rel rk \<rho> w w' (JNum 5) v'"
    then show "v' = JNum 5" by (rule entry_rel_not_carries) (simp add: not_is_ref_not_carries)
  next
    fix v' assume "entry_rel rk \<rho> w w' e v'"
    then show "v' = e" by (rule entry_rel_not_carries) (simp add: not_is_ref_not_carries assms(4))
  qed
qed

lemma evolves_array:
  assumes "evolves rk \<rho> w w'" "cell (heap w) r = JArray xs"
  shows "\<exists>xs'. cell (heap w') r = JArray xs' \<and> list_all2 (entry_rel rk \<rho> w w') xs xs'"
proof -
  have r: "r < length (heap w)" using assms(2) by (auto simp: cell_def split: if_splits)
  have "cell_rel (entry_rel rk \<rho> w w') (JArray xs) (cell (heap w') r)"
    using evolves_cell [OF assms(1) r] assms(2) by simp
  then show ?thesis by (cases "cell (heap w') r") auto
qed

lemma evolves_array_back:
  assumes "evolves rk \<rho> w w'" "cell (heap w') r = JArray xs'"
  shows "\<exists>xs. cell (heap w) r = JArray xs \<and> list_all2 (entry_rel rk \<rho> w w') xs xs'"
proof -
  have r': "r < length (heap w')" using assms(2) by (auto simp: cell_def split: if_splits)
  have r: "r < length (heap w)"
  proof (rule ccontr)
    assume "\<not> r < length (heap w)"
    then obtain e where "cell (heap w') r = REF_object e"
      using evolves_new_cell [OF assms(1) _ r'] by auto
    then show False using assms(2) by (simp add: REF_object_def)
  qed
  have "cell_rel (entry_rel rk \<rho> w w') (cell (heap w) r) (JArray xs')"
    using evolves_cell [OF assms(1) r] assms(2) by simp
  then show ?thesis by (cases "cell (heap w) r") auto
qed

lemma evolves_object:
  assumes "evolves rk \<rho> w w'" "x < length (heap w)" "heap w ! x = JObject ps"
  shows "\<exists>ps'. heap w' ! x = JObject ps' \<and> map fst ps' = map fst ps \<and>
           list_all2 (entry_rel rk \<rho> w w') (map snd ps) (map snd ps')"
proof -
  have "cell_rel (entry_rel rk \<rho> w w') (JObject ps) (heap w' ! x)"
    using assms by (auto simp: evolves_def)
  then show ?thesis by (cases "heap w' ! x") auto
qed

lemma evolves_Array_isArray:
  assumes "evolves rk \<rho> w w'"
  shows "Array_isArray (heap w') v = Array_isArray (heap w) v"
proof (cases v)
  case (JRef r)
  show ?thesis
  proof (cases "cell (heap w) r")
    case (JArray xs)
    then show ?thesis using evolves_array [OF assms JArray] JRef by auto
  next
    case (JObject ps)
    have "\<nexists>xs'. cell (heap w') r = JArray xs'"
      using evolves_array_back [OF assms] JObject by fastforce
    then show ?thesis using JObject JRef by (cases "cell (heap w') r") auto
  qed
qed simp_all

lemma evolves_elems:
  assumes "evolves rk \<rho> w w'"
  shows "list_all2 (entry_rel rk \<rho> w w') (elems (heap w) v) (elems (heap w') v)"
proof (cases v)
  case (JRef r)
  show ?thesis
  proof (cases "cell (heap w) r")
    case (JArray xs)
    then show ?thesis using evolves_array [OF assms JArray] JRef by (auto simp: elems_def)
  next
    case (JObject ps)
    have "\<nexists>xs'. cell (heap w') r = JArray xs'"
      using evolves_array_back [OF assms] JObject by fastforce
    then show ?thesis using JObject JRef by (cases "cell (heap w') r") (auto simp: elems_def)
  qed
qed (simp_all add: elems_def)

lemma replaced_fresh_not_carries:
  assumes "evolves rk \<rho> w w'" "replaced rk \<rho> w w' v v'"
  shows "\<not> carries (heap w') v' \<and> elems (heap w') v' = []"
proof -
  obtain c where c: "v' = JRef c" "length (heap w) \<le> c" "c < length (heap w')"
    "heap w' ! c = REF_object (eid_of (heap w) v)"
    using assms(2) by (auto simp: replaced_def)
  then show ?thesis
    by (simp add: carries_def eid_of_def cell_def elems_def REF_object_def)
qed

lemma list_all2_in_right:
  "list_all2 R xs ys \<Longrightarrow> y \<in> set ys \<Longrightarrow> \<exists>x\<in>set xs. R x y"
  by (induction rule: list_all2_induct) auto

lemma good_objD:
  assumes "good rk h" "x < length h" "h ! x = JObject ps"
  shows "distinct (map fst ps)"
    and "\<not> is_ref (prop_get (JObject ps) (Name ''expressID''))"
    and "\<And>v. v \<in> set (map snd ps) \<Longrightarrow> carries h v \<Longrightarrow> rk (addr v) < rk x"
    and "\<And>v el. v \<in> set (map snd ps) \<Longrightarrow> el \<in> set (elems h v) \<Longrightarrow> carries h el \<Longrightarrow>
           rk (addr el) < rk x"
proof -
  have "case h ! x of
          JObject ps \<Rightarrow>
            distinct (map fst ps) \<and>
            \<not> is_ref (prop_get (JObject ps) (Name ''expressID'')) \<and>
            (\<forall>v\<in>set (map snd ps).
               (carries h v \<longrightarrow> rk (addr v) < rk x) \<and>
               (\<forall>el\<in>set (elems h v). carries h el \<longrightarrow> rk (addr el) < rk x))
        | JArray xs \<Rightarrow> (\<forall>el\<in>set xs. el \<noteq> JUndefined \<and> el \<noteq> JNull)"
    using assms(1,2) unfolding good_def by blast
  then have a: "distinct (map fst ps)"
    and b: "\<not> is_ref (prop_get (JObject ps) (Name ''expressID''))"
    and c: "\<forall>v\<in>set (map snd ps).
               (carries h v \<longrightarrow> rk (addr v) < rk x) \<and>
               (\<forall>el\<in>set (elems h v). carries h el \<longrightarrow> rk (addr el) < rk x)"
    unfolding assms(3) by simp_all
  show "distinct (map fst ps)" by (rule a)
  show "\<not> is_ref (prop_get (JObject ps) (Name ''expressID''))" by (rule b)
  show "\<And>v. v \<in> set (map snd ps) \<Longrightarrow> carries h v \<Longrightarrow> rk (addr v) < rk x"
    using c by blast
  show "\<And>v el. v \<in> set (map snd ps) \<Longrightarrow> el \<in> set (elems h v) \<Longrightarrow> carries h el \<Longrightarrow>
           rk (addr el) < rk x"
    using c by blast
qed

lemma good_arrD:
  assumes "good rk h" "x < length h" "h ! x = JArray xs" "el \<in> set xs"
  shows "el \<noteq> JUndefined" "el \<noteq> JNull"
proof -
  have "case h ! x of
          JObject ps \<Rightarrow>
            distinct (map fst ps) \<and>
            \<not> is_ref (prop_get (JObject ps) (Name ''expressID'')) \<and>
            (\<forall>v\<in>set (map snd ps).
               (carries h v \<longrightarrow> rk (addr v) < rk x) \<and>
               (\<forall>el\<in>set (elems h v). carries h el \<longrightarrow> rk (addr el) < rk x))
        | JArray xs \<Rightarrow> (\<forall>el\<in>set xs. el \<noteq> JUndefined \<and> el \<noteq> JNull)"
    using assms(1,2) unfolding good_def by blast
  then have "\<forall>el\<in>set xs. el \<noteq> JUndefined \<and> el \<noteq> JNull" unfolding assms(3) by simp
  then show "el \<noteq> JUndefined" "el \<noteq> JNull" using assms(4) by blast+
qed

lemma evolves_good:
  assumes g: "good rk (heap w)" and ev: "evolves rk \<rho> w w'"
  shows "good rk (heap w')"
  unfolding good_def
proof (intro allI impI)
  fix x assume x': "x < length (heap w')"
  show "case heap w' ! x of
          JObject ps \<Rightarrow>
            distinct (map fst ps) \<and>
            \<not> is_ref (prop_get (JObject ps) (Name ''expressID'')) \<and>
            (\<forall>v\<in>set (map snd ps).
               (carries (heap w') v \<longrightarrow> rk (addr v) < rk x) \<and>
               (\<forall>el\<in>set (elems (heap w') v). carries (heap w') el \<longrightarrow> rk (addr el) < rk x))
        | JArray xs \<Rightarrow> (\<forall>el\<in>set xs. el \<noteq> JUndefined \<and> el \<noteq> JNull)"
  proof (cases "x < length (heap w)")
    case False
    then obtain e where e: "heap w' ! x = REF_object e" "\<not> is_ref e"
      using evolves_new_cell [OF ev _ x'] x' by (auto simp: cell_def)
    have "\<not> carries (heap w') e" "elems (heap w') e = []"
      using e(2) by (cases e; simp add: not_is_ref_not_carries elems_def)+
    moreover have "\<not> carries (heap w') (JNum 5)" "elems (heap w') (JNum 5) = []"
      by (simp_all add: not_is_ref_not_carries elems_def)
    ultimately show ?thesis using e by (simp add: REF_object_def)
  next
    case True
    show ?thesis
    proof (cases "heap w ! x")
      case (JObject ps)
      obtain ps' where ps': "heap w' ! x = JObject ps'" "map fst ps' = map fst ps"
        "list_all2 (entry_rel rk \<rho> w w') (map snd ps) (map snd ps')"
        using evolves_object [OF ev True JObject] by blast
      note gd = good_objD [OF g True JObject]
      have d: "distinct (map fst ps')" using gd(1) ps'(2) by simp
      have "eid_of (heap w') (JRef x) = eid_of (heap w) (JRef x)"
        by (rule evolves_eid_of [OF g ev])
      then have e: "\<not> is_ref (prop_get (JObject ps') (Name ''expressID''))"
        using gd(2) ps'(1) JObject True x' by (simp add: eid_of_def cell_def)
      have r: "(carries (heap w') v' \<longrightarrow> rk (addr v') < rk x) \<and>
           (\<forall>el\<in>set (elems (heap w') v'). carries (heap w') el \<longrightarrow> rk (addr el) < rk x)"
        if vin: "v' \<in> set (map snd ps')" for v'
      proof -
        obtain v where v: "v \<in> set (map snd ps)" "entry_rel rk \<rho> w w' v v'"
          using list_all2_in_right [OF ps'(3) vin] by blast
        show ?thesis
        proof (cases "v' = v")
          case False
          then have "replaced rk \<rho> w w' v v'" using v(2) by (simp add: entry_rel_def)
          then show ?thesis using replaced_fresh_not_carries [OF ev] by simp
        next
          case True
          have c: "carries (heap w') v \<Longrightarrow> rk (addr v) < rk x"
            using gd(3) [OF v(1)] evolves_carries [OF g ev] by simp
          have "rk (addr el') < rk x"
            if el': "el' \<in> set (elems (heap w') v)" "carries (heap w') el'" for el'
          proof -
            obtain el where el: "el \<in> set (elems (heap w) v)" "entry_rel rk \<rho> w w' el el'"
              using list_all2_in_right [OF evolves_elems [OF ev, of v] el'(1)] by blast
            have "el' = el"
            proof (rule ccontr)
              assume "el' \<noteq> el"
              then have "replaced rk \<rho> w w' el el'" using el(2) by (simp add: entry_rel_def)
              then show False using replaced_fresh_not_carries [OF ev] el'(2) by simp
            qed
            then show ?thesis
              using gd(4) [OF v(1) el(1)] el'(2) evolves_carries [OF g ev] by simp
          qed
          then show ?thesis using c True by blast
        qed
      qed
      show ?thesis using d e r ps'(1) by simp
    next
      case (JArray xs)
      then have cx: "cell (heap w) x = JArray xs" using True by (simp add: cell_def)
      obtain xs' where xs': "cell (heap w') x = JArray xs'"
        "list_all2 (entry_rel rk \<rho> w w') xs xs'"
        using evolves_array [OF ev cx] by blast
      have "el' \<noteq> JUndefined \<and> el' \<noteq> JNull" if ein: "el' \<in> set xs'" for el'
      proof -
        obtain el where el: "el \<in> set xs" "entry_rel rk \<rho> w w' el el'"
          using list_all2_in_right [OF xs'(2) ein] by blast
        show ?thesis using el(2) good_arrD [OF g True JArray el(1)]
          by (auto simp: entry_rel_def replaced_def)
      qed
      then show ?thesis using xs'(1) x' by (simp add: cell_def)
    qed
  qed
qed

lemma cell_rel_mono:
  "cell_rel R a b \<Longrightarrow> (\<And>x y. R x y \<Longrightarrow> R' x y) \<Longrightarrow> cell_rel R' a b"
  by (cases a; cases b) (auto elim: list_all2_mono)

lemma cell_rel_refl: "(\<And>x. R x x) \<Longrightarrow> cell_rel R a a"
  by (cases a) (auto intro: list_all2_refl)

lemma cell_rel_trans:
  assumes "cell_rel R1 a b" "cell_rel R2 b c" "\<And>x y z. R1 x y \<Longrightarrow> R2 y z \<Longrightarrow> R x z"
  shows "cell_rel R a c"
proof (cases a)
  case (JObject ps)
  then obtain ps1 where b: "b = JObject ps1" using assms(1) by (cases b) auto
  then obtain ps2 where c: "c = JObject ps2" using assms(2) by (cases c) auto
  have "list_all2 R (map snd ps) (map snd ps2)"
    using assms(1,2) JObject b c
    by (auto intro: list_all2_trans [where ?P1.0 = R1 and ?P2.0 = R2, OF assms(3)])
  then show ?thesis using assms(1,2) JObject b c by simp
next
  case (JArray xs)
  then obtain xs1 where b: "b = JArray xs1" using assms(1) by (cases b) auto
  then obtain xs2 where c: "c = JArray xs2" using assms(2) by (cases c) auto
  have "list_all2 R xs xs2"
    using assms(1,2) JArray b c
    by (auto intro: list_all2_trans [where ?P1.0 = R1 and ?P2.0 = R2, OF assms(3)])
  then show ?thesis using JArray c by simp
qed

lemma evolves_refl: "evolves rk \<rho> w w"
  by (auto simp: evolves_def intro: cell_rel_refl)

lemma replaced_mono: "\<rho> \<le> \<rho>' \<Longrightarrow> replaced rk \<rho> w w' v v' \<Longrightarrow> replaced rk \<rho>' w w' v v'"
  by (auto simp: replaced_def)

lemma entry_rel_mono: "\<rho> \<le> \<rho>' \<Longrightarrow> entry_rel rk \<rho> w w' v v' \<Longrightarrow> entry_rel rk \<rho>' w w' v v'"
  by (auto simp: entry_rel_def dest: replaced_mono)

lemma evolves_mono:
  assumes "\<rho> \<le> \<rho>'" "evolves rk \<rho> w w'"
  shows "evolves rk \<rho>' w w'"
proof -
  have "cell_rel (entry_rel rk \<rho>' w w') (heap w ! x) (heap w' ! x)" if "x < length (heap w)" for x
    using assms(2) that
    by (auto simp: evolves_def intro: cell_rel_mono [OF _ entry_rel_mono [OF assms(1)]])
  then show ?thesis using assms(2) by (simp add: evolves_def)
qed

lemma evolves_write: "evolves rk \<rho> w (WriteRawLineData modelID data w)"
  by (auto simp: evolves_def WriteRawLineData_def intro: cell_rel_refl)

lemma evolves_log:
  "evolves rk \<rho> w w' \<Longrightarrow> \<exists>ws. wasm_WriteLine w' = wasm_WriteLine w @ ws"
  by (simp add: evolves_def)

lemma evolves_length: "evolves rk \<rho> w w' \<Longrightarrow> length (heap w) \<le> length (heap w')"
  by (simp add: evolves_def)

text \<open>A replacement stays one when the run goes on.\<close>

lemma replaced_later:
  assumes r: "replaced rk \<rho> w w1 v v'"
    and len: "length (heap w1) \<le> length (heap w2)"
    and same: "\<And>c. length (heap w) \<le> c \<Longrightarrow> c < length (heap w1) \<Longrightarrow> heap w2 ! c = heap w1 ! c"
    and l1: "wasm_WriteLine w1 = wasm_WriteLine w @ ws1"
    and l2: "wasm_WriteLine w2 = wasm_WriteLine w1 @ ws2"
  shows "replaced rk \<rho> w w2 v v'"
proof -
  obtain c where c: "v' = JRef c" "length (heap w) \<le> c" "c < length (heap w1)"
    "heap w1 ! c = REF_object (eid_of (heap w) v)"
    using r by (auto simp: replaced_def)
  have "eid_of (heap w) v \<in> set (map (\<lambda>l. fst (snd l)) ws1)"
    using r l1 by (simp add: replaced_def)
  then have "eid_of (heap w) v \<in>
      set (map (\<lambda>l. fst (snd l)) (drop (length (wasm_WriteLine w)) (wasm_WriteLine w2)))"
    using l1 l2 by auto
  moreover have "heap w2 ! c = REF_object (eid_of (heap w) v)" using same [OF c(2,3)] c(4) by simp
  moreover have "c < length (heap w2)" using c(3) len by simp
  ultimately show ?thesis using r c(1,2) by (auto simp: replaced_def)
qed

lemma entry_rel_trans:
  assumes g: "good rk (heap w)" and ev1: "evolves rk \<rho> w w1" and ev2: "evolves rk \<rho> w1 w2"
    and e1: "entry_rel rk \<rho> w w1 v v1" and e2: "entry_rel rk \<rho> w1 w2 v1 v2"
  shows "entry_rel rk \<rho> w w2 v v2"
proof -
  obtain ws1 where l1: "wasm_WriteLine w1 = wasm_WriteLine w @ ws1" using evolves_log [OF ev1] ..
  obtain ws2 where l2: "wasm_WriteLine w2 = wasm_WriteLine w1 @ ws2" using evolves_log [OF ev2] ..
  show ?thesis
  proof (cases "v1 = v")
    case True
    show ?thesis
    proof (cases "v2 = v1")
      case True
      then show ?thesis using \<open>v1 = v\<close> by simp
    next
      case False
      then have r: "replaced rk \<rho> w1 w2 v v2" using e2 True by (simp add: entry_rel_def)
      then obtain c where c: "v2 = JRef c" "length (heap w1) \<le> c" "c < length (heap w2)"
        "heap w2 ! c = REF_object (eid_of (heap w1) v)"
        by (auto simp: replaced_def)
      have eid: "eid_of (heap w1) v = eid_of (heap w) v" by (rule evolves_eid_of [OF g ev1])
      have "eid_of (heap w) v \<in> set (map (\<lambda>l. fst (snd l)) ws2)"
        using r l2 eid by (simp add: replaced_def)
      then have "eid_of (heap w) v \<in>
          set (map (\<lambda>l. fst (snd l)) (drop (length (wasm_WriteLine w)) (wasm_WriteLine w2)))"
        using l1 l2 by auto
      moreover have "carries (heap w) v" using r evolves_carries [OF g ev1] by (simp add: replaced_def)
      moreover have "length (heap w) \<le> c" using c(2) evolves_length [OF ev1] by simp
      ultimately have "replaced rk \<rho> w w2 v v2"
        using r c eid by (auto simp: replaced_def)
      then show ?thesis by (simp add: entry_rel_def)
    qed
  next
    case False
    then have r: "replaced rk \<rho> w w1 v v1" using e1 by (simp add: entry_rel_def)
    have "\<not> carries (heap w1) v1" using replaced_fresh_not_carries [OF ev1 r] by simp
    then have v2: "v2 = v1" using e2 by (rule entry_rel_not_carries [rotated])
    have "replaced rk \<rho> w w2 v v1"
    proof (rule replaced_later [OF r evolves_length [OF ev2] _ l1 l2])
      fix c assume c: "length (heap w) \<le> c" "c < length (heap w1)"
      then obtain e where e: "heap w1 ! c = REF_object e" "\<not> is_ref e"
        using evolves_new_cell [OF ev1 c] by (auto simp: cell_def)
      show "heap w2 ! c = heap w1 ! c"
        using evolves_REF_object [OF ev2 c(2) e] e(1) by simp
    qed
    then show ?thesis using v2 by (simp add: entry_rel_def)
  qed
qed

lemma evolves_trans:
  assumes g: "good rk (heap w)" and ev1: "evolves rk \<rho> w w1" and ev2: "evolves rk \<rho> w1 w2"
  shows "evolves rk \<rho> w w2"
proof -
  obtain ws1 where l1: "wasm_WriteLine w1 = wasm_WriteLine w @ ws1" using evolves_log [OF ev1] ..
  obtain ws2 where l2: "wasm_WriteLine w2 = wasm_WriteLine w1 @ ws2" using evolves_log [OF ev2] ..
  have len: "length (heap w) \<le> length (heap w2)"
    using evolves_length [OF ev1] evolves_length [OF ev2] by simp
  have cells: "cell_rel (entry_rel rk \<rho> w w2) (heap w ! x) (heap w2 ! x)"
    if x: "x < length (heap w)" for x
  proof -
    have x1: "x < length (heap w1)" using x evolves_length [OF ev1] by simp
    have a: "cell_rel (entry_rel rk \<rho> w w1) (heap w ! x) (heap w1 ! x)"
      using ev1 x by (simp add: evolves_def)
    have b: "cell_rel (entry_rel rk \<rho> w1 w2) (heap w1 ! x) (heap w2 ! x)"
      using ev2 x1 by (simp add: evolves_def)
    show ?thesis
      by (rule cell_rel_trans [OF a b]) (rule entry_rel_trans [OF g ev1 ev2])
  qed
  have fresh: "\<exists>e. heap w2 ! c = REF_object e \<and> \<not> is_ref e"
    if c: "length (heap w) \<le> c" "c < length (heap w2)" for c
  proof (cases "c < length (heap w1)")
    case True
    then obtain e where e: "heap w1 ! c = REF_object e" "\<not> is_ref e"
      using evolves_new_cell [OF ev1 c(1)] by (auto simp: cell_def)
    show ?thesis using evolves_REF_object [OF ev2 True e] e(2) by blast
  next
    case False
    then show ?thesis using evolves_new_cell [OF ev2 _ c(2)] c(2) by (auto simp: cell_def)
  qed
  show ?thesis
    unfolding evolves_def using len cells fresh l1 l2 by auto
qed

text \<open>
  The assignment of a new \<^verbatim>\<open>{type: 5, value: expressID}\<close> to an entry that holds an object
  carrying an \<^verbatim>\<open>expressID\<close>, once the raw line of the object is written.
\<close>

lemma replace_step:
  assumes g: "good rk (heap w)" and ev: "evolves rk \<rho> w w1" and t: "t < length (heap w)"
    and cur: "prop_get (cell (heap w1) t) k = v"
    and car: "carries (heap w1) v" and rk: "rk (addr v) < \<rho>"
    and key: "(\<exists>ps. heap w1 ! t = JObject ps \<and> k \<in> set (map fst ps)) \<or>
              (\<exists>xs i. heap w1 ! t = JArray xs \<and> k = Index i \<and> i < length xs)"
    and wr: "eid_of (heap w1) v \<in>
       set (map (\<lambda>l. fst (snd l)) (drop (length (wasm_WriteLine w)) (wasm_WriteLine w1)))"
    and w3: "w3 = w1\<lparr>heap := (heap w1 @ [REF_object (eid_of (heap w1) v)])
                [t := prop_set (cell (heap w1) t) k (JRef (length (heap w1)))]\<rparr>"
  shows "evolves rk \<rho> w w3"
proof -
  let ?h = "heap w" and ?h1 = "heap w1" and ?h3 = "heap w3"
  let ?c0 = "length ?h1"
  let ?e = "eid_of ?h v"
  have g1: "good rk ?h1" by (rule evolves_good [OF g ev])
  have eid: "eid_of ?h1 v = ?e" by (rule evolves_eid_of [OF g ev])
  have carh: "carries ?h v" using car evolves_carries [OF g ev] by simp
  have len1: "length ?h \<le> ?c0" by (rule evolves_length [OF ev])
  have t1: "t < ?c0" using t len1 by simp
  have ct: "cell ?h1 t = ?h1 ! t" using t1 by (simp add: cell_def)
  have len3: "length ?h3 = Suc ?c0" by (simp add: w3)
  have h3t: "?h3 ! t = prop_set (?h1 ! t) k (JRef ?c0)"
    using t1 by (simp add: w3 ct nth_append)
  have h3x: "?h3 ! x = ?h1 ! x" if "x < ?c0" "x \<noteq> t" for x
    using that by (simp add: w3 nth_append)
  have h3c: "?h3 ! ?c0 = REF_object ?e" using t1 by (simp add: w3 eid)
  have log3: "wasm_WriteLine w3 = wasm_WriteLine w1" by (simp add: w3)
  obtain ws1 where l1: "wasm_WriteLine w1 = wasm_WriteLine w @ ws1" using evolves_log [OF ev] ..
  have lift: "entry_rel rk \<rho> w w3 a b" if "entry_rel rk \<rho> w w1 a b" for a b
  proof (cases "b = a")
    case False
    then have r: "replaced rk \<rho> w w1 a b" using that by (simp add: entry_rel_def)
    have "replaced rk \<rho> w w3 a b"
    proof (rule replaced_later [OF r _ _ l1])
      show "length ?h1 \<le> length ?h3" using len3 by simp
      show "wasm_WriteLine w3 = wasm_WriteLine w1 @ []" using log3 by simp
      fix c assume "length ?h \<le> c" "c < ?c0"
      then show "?h3 ! c = ?h1 ! c" using h3x [of c] t by simp
    qed
    then show ?thesis by (simp add: entry_rel_def)
  qed simp
  have new: "replaced rk \<rho> w w3 v (JRef ?c0)"
    unfolding replaced_def using carh rk len1 len3 h3c wr eid log3 by auto
  have old: "a = v" if "entry_rel rk \<rho> w w1 a v" for a
  proof (rule ccontr)
    assume "a \<noteq> v"
    then have "replaced rk \<rho> w w1 a v" using that by (auto simp: entry_rel_def)
    then show False using replaced_fresh_not_carries [OF ev] car by blast
  qed
  have cells: "cell_rel (entry_rel rk \<rho> w w3) (?h ! x) (?h3 ! x)" if x: "x < length ?h" for x
  proof (cases "x = t")
    case False
    have "cell_rel (entry_rel rk \<rho> w w1) (?h ! x) (?h1 ! x)" using ev x by (simp add: evolves_def)
    then have "cell_rel (entry_rel rk \<rho> w w3) (?h ! x) (?h1 ! x)"
      by (rule cell_rel_mono) (rule lift)
    then show ?thesis using h3x [of x] x len1 False by simp
  next
    case True
    have rel1: "cell_rel (entry_rel rk \<rho> w w1) (?h ! t) (?h1 ! t)"
      using ev t by (simp add: evolves_def)
    from key show ?thesis
    proof (elim disjE exE conjE)
      fix ps1 assume ps1: "?h1 ! t = JObject ps1" and kin: "k \<in> set (map fst ps1)"
      obtain ps where ps: "?h ! t = JObject ps" using rel1 ps1 by (cases "?h ! t") auto
      have keys: "map fst ps1 = map fst ps"
        and vals: "list_all2 (entry_rel rk \<rho> w w1) (map snd ps) (map snd ps1)"
        using rel1 ps ps1 by simp_all
      have d1: "distinct (map fst ps1)" using good_objD(1) [OF g1 t1 ps1] .
      let ?ps3 = "map (\<lambda>(k', x). (k', if k' = k then JRef ?c0 else x)) ps1"
      have h3: "?h3 ! t = JObject ?ps3" using h3t ps1 kin by simp
      have k3: "map fst ?ps3 = map fst ps" using keys by (simp add: case_prod_unfold comp_def)
      have lens: "length ps1 = length ps" using keys by (metis length_map)
      have v3: "list_all2 (entry_rel rk \<rho> w w3) (map snd ps) (map snd ?ps3)"
        unfolding list_all2_conv_all_nth
      proof (intro conjI allI impI)
        show "length (map snd ps) = length (map snd ?ps3)" using lens by simp
        fix j assume "j < length (map snd ps)"
        then have j: "j < length ps" "j < length ps1" using lens by simp_all
        have r1: "entry_rel rk \<rho> w w1 (snd (ps ! j)) (snd (ps1 ! j))"
          using list_all2_nthD [OF vals, of j] j by simp
        show "entry_rel rk \<rho> w w3 (map snd ps ! j) (map snd ?ps3 ! j)"
        proof (cases "fst (ps1 ! j) = k")
          case True
          have "(k, snd (ps1 ! j)) \<in> set ps1" using j(2) True by (metis nth_mem prod.collapse)
          then have "map_of ps1 k = Some (snd (ps1 ! j))" using d1 by simp
          then have "snd (ps1 ! j) = v" using cur ct ps1 by simp
          then have "snd (ps ! j) = v" using old r1 by simp
          then show ?thesis using j True new \<open>snd (ps1 ! j) = v\<close>
            by (simp add: case_prod_unfold entry_rel_def)
        next
          case False
          then show ?thesis using j lift [OF r1] by (simp add: case_prod_unfold)
        qed
      qed
      show ?thesis using True ps h3 k3 v3 by simp
    next
      fix xs1 i assume xs1: "?h1 ! t = JArray xs1" and ki: "k = Index i" and i: "i < length xs1"
      obtain xs where xs: "?h ! t = JArray xs" using rel1 xs1 by (cases "?h ! t") auto
      have vals: "list_all2 (entry_rel rk \<rho> w w1) xs xs1" using rel1 xs xs1 by simp
      have h3: "?h3 ! t = JArray (xs1[i := JRef ?c0])" using h3t xs1 ki i by simp
      have "xs1 ! i = v" using cur ct xs1 ki i by simp
      then have "xs ! i = v" using old list_all2_nthD2 [OF vals i] by simp
      have "list_all2 (entry_rel rk \<rho> w w3) xs xs1"
        using vals by (rule list_all2_mono) (rule lift)
      then have "list_all2 (entry_rel rk \<rho> w w3) (xs[i := v]) (xs1[i := JRef ?c0])"
        by (rule list_all2_update_cong) (simp add: entry_rel_def new)
      then have "list_all2 (entry_rel rk \<rho> w w3) xs (xs1[i := JRef ?c0])"
        using \<open>xs ! i = v\<close> by (metis list_update_id)
      then show ?thesis using True xs h3 by simp
    qed
  qed
  have fresh: "\<exists>e. ?h3 ! c = REF_object e \<and> \<not> is_ref e"
    if c: "length ?h \<le> c" "c < length ?h3" for c
  proof (cases "c < ?c0")
    case True
    then obtain e where e: "?h1 ! c = REF_object e" "\<not> is_ref e"
      using evolves_new_cell [OF ev c(1)] by (auto simp: cell_def)
    then show ?thesis using h3x [of c] True c(1) t by auto
  next
    case False
    then have "c = ?c0" using c(2) len3 by simp
    then show ?thesis using h3c good_eid_not_ref [OF g] by blast
  qed
  show ?thesis
    unfolding evolves_def using len1 len3 cells fresh l1 log3 by auto
qed

subsection \<open>The loops and the recursion\<close>

definition flat_entry :: "jsobj list \<Rightarrow> jsval \<Rightarrow> bool" where
  "flat_entry h v \<longleftrightarrow> \<not> carries h v \<and> (\<forall>el\<in>set (elems h v). \<not> carries h el)"

definition flat_object :: "jsobj list \<Rightarrow> nat \<Rightarrow> bool" where
  "flat_object h a \<longleftrightarrow> (\<forall>k. flat_entry h (prop_get (cell h a) k))"

definition short_arrays :: "nat \<Rightarrow> jsobj list \<Rightarrow> bool" where
  "short_arrays L h \<longleftrightarrow> (\<forall>x<length h. case h ! x of JArray xs \<Rightarrow> length xs < L | JObject ps \<Rightarrow> True)"

definition written_in :: "world \<Rightarrow> world \<Rightarrow> jsval \<Rightarrow> bool" where
  "written_in w w' e \<longleftrightarrow>
     e \<in> set (map (\<lambda>l. fst (snd l)) (drop (length (wasm_WriteLine w)) (wasm_WriteLine w')))"

lemma list_all2_same:
  "list_all2 R xs ys \<Longrightarrow> (\<And>x y. x \<in> set xs \<Longrightarrow> R x y \<Longrightarrow> y = x) \<Longrightarrow> ys = xs"
  by (induction rule: list_all2_induct) auto

lemma flat_entry_evolves:
  assumes g: "good rk (heap w)" and ev: "evolves rk \<rho> w w'" and f: "flat_entry (heap w) v"
  shows "flat_entry (heap w') v"
proof -
  have "elems (heap w') v = elems (heap w) v"
    using evolves_elems [OF ev, of v]
  proof (rule list_all2_same)
    fix x y assume "x \<in> set (elems (heap w) v)" "entry_rel rk \<rho> w w' x y"
    then show "y = x" using f by (auto simp: flat_entry_def dest: entry_rel_not_carries)
  qed
  then show ?thesis using f evolves_carries [OF g ev] by (simp add: flat_entry_def)
qed

lemma flat_entry_stays:
  assumes g: "good rk (heap w)" and ev: "evolves rk \<rho> w w'" and x: "x < length (heap w)"
    and f: "flat_entry (heap w) (prop_get (cell (heap w) x) k)"
  shows "prop_get (cell (heap w') x) k = prop_get (cell (heap w) x) k"
    and "flat_entry (heap w') (prop_get (cell (heap w') x) k)"
proof -
  show 1: "prop_get (cell (heap w') x) k = prop_get (cell (heap w) x) k"
    using evolves_entry [OF ev x, of k] f by (auto simp: flat_entry_def dest: entry_rel_not_carries)
  show "flat_entry (heap w') (prop_get (cell (heap w') x) k)"
    unfolding 1 by (rule flat_entry_evolves [OF g ev f])
qed

lemma short_arrays_evolves:
  assumes "short_arrays L (heap w)" "evolves rk \<rho> w w'"
  shows "short_arrays L (heap w')"
  unfolding short_arrays_def
proof (intro allI impI)
  fix x assume x: "x < length (heap w')"
  show "case heap w' ! x of JArray xs \<Rightarrow> length xs < L | JObject ps \<Rightarrow> True"
  proof (cases "heap w' ! x")
    case (JArray xs')
    then have "cell (heap w') x = JArray xs'" using x by (simp add: cell_def)
    then obtain xs where xs: "cell (heap w) x = JArray xs" "list_all2 (entry_rel rk \<rho> w w') xs xs'"
      using evolves_array_back [OF assms(2)] by blast
    then have "x < length (heap w)" "heap w ! x = JArray xs"
      by (auto simp: cell_def split: if_splits)
    then have "length xs < L" using assms(1) by (auto simp: short_arrays_def dest!: spec [of _ x])
    then show ?thesis using JArray xs(2) by (simp add: list_all2_lengthD)
  qed simp
qed

lemma short_arraysD:
  "short_arrays L h \<Longrightarrow> cell h r = JArray xs \<Longrightarrow> length xs < L"
  by (auto simp: short_arrays_def cell_def split: if_splits dest!: spec [of _ r])

lemma array_not_carries: "cell h r = JArray xs \<Longrightarrow> \<not> carries h (JRef r)"
  by (simp add: carries_def eid_of_def)

lemma cell_JArray_in_range: "cell h r = JArray xs \<Longrightarrow> r < length h \<and> h ! r = JArray xs"
  by (auto simp: cell_def split: if_splits)

text \<open>The loop over the elements of an array-valued property.\<close>

lemma WriteLine_array_flattens:
  assumes rec: "\<And>b w. good rk (heap w) \<Longrightarrow> short_arrays L (heap w) \<Longrightarrow>
      carries (heap w) (JRef b) \<Longrightarrow> rk b < rk a \<Longrightarrow>
      \<exists>w1. rec (JRef b) w = Some (Inr w1) \<and> evolves rk (rk b) w w1 \<and>
           written_in w w1 (eid_of (heap w1) (JRef b))"
  shows "good rk (heap w) \<Longrightarrow> short_arrays L (heap w) \<Longrightarrow> a < length (heap w) \<Longrightarrow>
    heap w ! a = JObject ps \<Longrightarrow> prop_get (JObject ps) k = JRef r \<Longrightarrow>
    cell (heap w) r = JArray xs \<Longrightarrow> length xs - i < fuel \<Longrightarrow>
    (\<forall>j<i. j < length xs \<longrightarrow> \<not> carries (heap w) (xs ! j)) \<Longrightarrow>
    \<exists>w'. WriteLine_array rec fuel (JRef a) k (JRef r) i w = Some (Inr w') \<and>
         evolves rk (rk a) w w' \<and>
         (\<forall>el\<in>set (elems (heap w') (JRef r)). \<not> carries (heap w') el)"
proof (induction fuel arbitrary: i w ps xs)
  case 0
  then show ?case by simp
next
  case (Suc fuel)
  let ?h = "heap w"
  note g = Suc.prems(1) and sh = Suc.prems(2) and a = Suc.prems(3) and ha = Suc.prems(4)
    and pk = Suc.prems(5) and cr = Suc.prems(6) and fu = Suc.prems(7) and seen = Suc.prems(8)
  have r: "r < length ?h" "?h ! r = JArray xs" using cell_JArray_in_range [OF cr] by simp_all
  have len: "js_member ?h (JRef r) (Name ''length'') = Inr (JNum (int (length xs)))"
    using cr by simp
  show ?case
  proof (cases "i < length xs")
    case False
    have "\<forall>el\<in>set xs. \<not> carries ?h el"
      using seen False by (auto simp: in_set_conv_nth)
    then show ?thesis using False len cr
      by (auto simp: jbind_def elems_def intro: evolves_refl)
  next
    case True
    let ?el = "xs ! i"
    have elin: "?el \<in> set xs" using True by simp
    have nn: "?el \<noteq> JUndefined" "?el \<noteq> JNull" using good_arrD [OF g r elin] by simp_all
    have el: "js_member ?h (JRef r) (Index i) = Inr ?el" using cr True by simp
    have eid: "js_member ?h ?el (Name ''expressID'') = Inr (eid_of ?h ?el)"
      by (rule member_expressID [OF nn])
    have rin: "JRef r \<in> set (map snd ps)"
      using pk by (auto split: option.splits dest!: map_of_SomeD intro: rev_image_eqI)
    have elems: "elems ?h (JRef r) = xs" using cr by (simp add: elems_def)
    show ?thesis
    proof (cases "carries ?h ?el")
      case False
      have step: "WriteLine_array rec (Suc fuel) (JRef a) k (JRef r) i w =
          WriteLine_array rec fuel (JRef a) k (JRef r) (Suc i) w"
        using True len el eid False by (simp add: jbind_def carries_def)
      have "\<forall>j<Suc i. j < length xs \<longrightarrow> \<not> carries ?h (xs ! j)"
        using seen False by (auto simp: less_Suc_eq)
      moreover have "length xs - Suc i < fuel" using fu True by simp
      ultimately show ?thesis
        unfolding step using Suc.IH [OF g sh a ha pk cr] by blast
    next
      case car: True
      then obtain b where b: "?el = JRef b" using carries_ref by blast
      have rkb: "rk b < rk a"
        using good_objD(4) [OF g a ha rin, of ?el] elems elin car b by simp
      obtain w1 where run1: "rec ?el w = Some (Inr w1)"
        and ev1: "evolves rk (rk b) w w1"
        and wr1: "written_in w w1 (eid_of (heap w1) ?el)"
        using rec [OF g sh _ rkb] car b by auto
      let ?h1 = "heap w1"
      have g1: "good rk ?h1" by (rule evolves_good [OF g ev1])
      have eva: "evolves rk (rk a) w w1" using evolves_mono [OF _ ev1] rkb by simp
      have tgt: "prop_get (cell ?h1 a) k = JRef r"
      proof -
        have "entry_rel rk (rk b) w w1 (JRef r) (prop_get (cell ?h1 a) k)"
          using evolves_entry [OF ev1 a, of k] a ha pk by (simp add: cell_def)
        then show ?thesis by (rule entry_rel_not_carries) (rule array_not_carries [OF cr])
      qed
      obtain xs1 where xs1: "cell ?h1 r = JArray xs1" "list_all2 (entry_rel rk (rk b) w w1) xs xs1"
        using evolves_array [OF ev1 cr] by blast
      have l1: "length xs1 = length xs" using xs1(2) by (simp add: list_all2_lengthD)
      have el1: "xs1 ! i = ?el"
      proof -
        have "entry_rel rk (rk b) w w1 ?el (xs1 ! i)" using list_all2_nthD [OF xs1(2) True] .
        then show ?thesis using b by (auto simp: entry_rel_def replaced_def)
      qed
      have car1: "carries ?h1 ?el" using car evolves_carries [OF g ev1] by simp
      let ?w3 = "w1\<lparr>heap := (?h1 @ [REF_object (eid_of ?h1 ?el)])
                [r := prop_set (cell ?h1 r) (Index i) (JRef (length ?h1))]\<rparr>"
      have r1: "r < length ?h1" using r(1) evolves_length [OF ev1] by simp
      have step: "WriteLine_array rec (Suc fuel) (JRef a) k (JRef r) i w =
          WriteLine_array rec fuel (JRef a) k (JRef r) (Suc i) ?w3"
        using True len el eid car run1 tgt xs1(1) l1 el1 member_expressID [OF nn, of ?h1] r1
        by (simp add: jbind_def carries_def new_object_def cell_def nth_append)
      have ev3: "evolves rk (rk a) w ?w3"
      proof (rule replace_step [OF g eva r(1) _ car1 _ _ _ refl])
        show "prop_get (cell ?h1 r) (Index i) = ?el" using xs1(1) l1 True el1 by simp
        show "rk (addr ?el) < rk a" using b rkb by simp
        show "(\<exists>ps. ?h1 ! r = JObject ps \<and> Index i \<in> set (map fst ps)) \<or>
              (\<exists>xs ia. ?h1 ! r = JArray xs \<and> Index i = Index ia \<and> ia < length xs)"
          using cell_JArray_in_range [OF xs1(1)] l1 True by auto
        show "eid_of ?h1 ?el \<in> set (map (\<lambda>l. fst (snd l))
            (drop (length (wasm_WriteLine w)) (wasm_WriteLine w1)))"
          using wr1 by (simp add: written_in_def)
      qed
      let ?h3 = "heap ?w3"
      have g3: "good rk ?h3" by (rule evolves_good [OF g ev3])
      have sh3: "short_arrays L ?h3" by (rule short_arrays_evolves [OF sh ev3])
      have a3: "a < length ?h3" using a evolves_length [OF ev3] by simp
      obtain ps3 where ha3: "?h3 ! a = JObject ps3" "map fst ps3 = map fst ps"
        using evolves_object [OF ev3 a ha] by blast
      have pk3: "prop_get (JObject ps3) k = JRef r"
      proof -
        have "entry_rel rk (rk a) w ?w3 (JRef r) (prop_get (cell ?h3 a) k)"
          using evolves_entry [OF ev3 a, of k] a ha pk by (simp add: cell_def)
        then have "prop_get (cell ?h3 a) k = JRef r"
          by (rule entry_rel_not_carries) (rule array_not_carries [OF cr])
        then show ?thesis using a3 ha3(1) by (simp add: cell_def)
      qed
      have cr3: "cell ?h3 r = JArray (xs1[i := JRef (length ?h1)])"
        using r1 xs1(1) l1 True by (simp add: cell_def)
      have fu3: "length (xs1[i := JRef (length ?h1)]) - Suc i < fuel" using fu True l1 by simp
      have seen3: "\<forall>j<Suc i. j < length (xs1[i := JRef (length ?h1)]) \<longrightarrow>
          \<not> carries ?h3 ((xs1[i := JRef (length ?h1)]) ! j)"
      proof (intro allI impI)
        fix j assume j: "j < Suc i" "j < length (xs1[i := JRef (length ?h1)])"
        show "\<not> carries ?h3 ((xs1[i := JRef (length ?h1)]) ! j)"
        proof (cases "j = i")
          case True
          have "?h3 ! length ?h1 = REF_object (eid_of ?h1 ?el)" using r1 by simp
          then show ?thesis using True j(2)
            by (simp add: carries_def eid_of_def cell_def)
        next
          case False
          then have ji: "j < i" using j(1) by simp
          then have nc: "\<not> carries ?h (xs ! j)" using seen j(2) l1 by simp
          have "entry_rel rk (rk b) w w1 (xs ! j) (xs1 ! j)"
            using list_all2_nthD [OF xs1(2), of j] j(2) l1 by simp
          then have "xs1 ! j = xs ! j" using nc by (rule entry_rel_not_carries)
          then show ?thesis using False nc evolves_carries [OF g ev3] by simp
        qed
      qed
      obtain w' where run: "WriteLine_array rec fuel (JRef a) k (JRef r) (Suc i) ?w3 = Some (Inr w')"
        and ev': "evolves rk (rk a) ?w3 w'"
        and flat: "\<forall>el\<in>set (elems (heap w') (JRef r)). \<not> carries (heap w') el"
        using Suc.IH [OF g3 sh3 a3 ha3(1) pk3 cr3 fu3 seen3] by blast
      show ?thesis
        unfolding step using run evolves_trans [OF g ev3 ev'] flat by blast
    qed
  qed
qed

lemma prop_get_in_values:
  "k \<in> set (map fst ps) \<Longrightarrow> prop_get (JObject ps) k \<in> set (map snd ps)"
proof -
  assume "k \<in> set (map fst ps)"
  then obtain v where v: "map_of ps k = Some v"
    by (metis domD dom_map_of_conv_image_fst list.set_map)
  then have "(k, v) \<in> set ps" by (rule map_of_SomeD)
  then have "v \<in> set (map snd ps)" by force
  then show ?thesis using v by simp
qed

lemma prop_get_absent: "k \<notin> set (map fst ps) \<Longrightarrow> prop_get (JObject ps) k = JUndefined"
proof -
  assume "k \<notin> set (map fst ps)"
  then have "map_of ps k = None" by (simp add: map_of_eq_None_iff)
  then show ?thesis by simp
qed

lemma map_of_replace:
  "k \<in> set (map fst ps) \<Longrightarrow>
   map_of (map (\<lambda>(k', x). (k', if k' = k then v else x)) ps) k = Some v"
  by (induction ps) auto

lemma prop_get_prop_set:
  "k \<in> set (map fst ps) \<Longrightarrow> prop_get (prop_set (JObject ps) k v) k = v"
  by (simp add: map_of_replace)

lemma not_array_elems: "\<not> Array_isArray h v \<Longrightarrow> elems h v = []"
  by (cases v) (auto simp: elems_def split: jsobj.splits)

lemma is_array_cell: "Array_isArray h v \<Longrightarrow> \<exists>r xs. v = JRef r \<and> cell h r = JArray xs"
  by (cases v) (auto split: jsobj.splits)

lemma flat_entry_undefined [simp]: "flat_entry h JUndefined"
  by (simp add: flat_entry_def carries_def eid_of_def elems_def)

text \<open>The callback, for one property of the line object.\<close>

lemma WriteLine_property_flattens:
  assumes rec: "\<And>b w. good rk (heap w) \<Longrightarrow> short_arrays L (heap w) \<Longrightarrow>
      carries (heap w) (JRef b) \<Longrightarrow> rk b < rk a \<Longrightarrow>
      \<exists>w1. rec (JRef b) w = Some (Inr w1) \<and> evolves rk (rk b) w w1 \<and>
           written_in w w1 (eid_of (heap w1) (JRef b))"
    and g: "good rk (heap w)" and sh: "short_arrays L (heap w)" and a: "a < length (heap w)"
    and ha: "heap w ! a = JObject ps" and kin: "k \<in> set (map fst ps)" and fu: "L \<le> fuel"
  shows "\<exists>w'. WriteLine_property rec fuel (JRef a) k w = Some (Inr w') \<and>
           evolves rk (rk a) w w' \<and>
           flat_entry (heap w') (prop_get (cell (heap w') a) k)"
proof -
  let ?h = "heap w"
  define v where "v = prop_get (JObject ps) k"
  have ca: "cell ?h a = JObject ps" using a ha by (simp add: cell_def)
  have cav: "prop_get (cell ?h a) k = v" using ca by (simp add: v_def)
  have mem: "js_member ?h (JRef a) k = Inr v" using ca by (simp add: v_def)
  have vin: "v \<in> set (map snd ps)" unfolding v_def by (rule prop_get_in_values [OF kin])
  show ?thesis
  proof (cases "carries ?h v")
    case car: True
    then obtain b where b: "v = JRef b" using carries_ref by blast
    have rkb: "rk b < rk a" using good_objD(3) [OF g a ha vin car] b by simp
    obtain w1 where run1: "rec v w = Some (Inr w1)"
      and ev1: "evolves rk (rk b) w w1"
      and wr1: "written_in w w1 (eid_of (heap w1) v)"
      using rec [OF g sh _ rkb] car b by auto
    let ?h1 = "heap w1"
    have eva: "evolves rk (rk a) w w1" using evolves_mono [OF _ ev1] rkb by simp
    have car1: "carries ?h1 v" using car evolves_carries [OF g ev1] by simp
    have a1: "a < length ?h1" using a evolves_length [OF ev1] by simp
    obtain ps1 where ha1: "?h1 ! a = JObject ps1" "map fst ps1 = map fst ps"
      using evolves_object [OF ev1 a ha] by blast
    have kin1: "k \<in> set (map fst ps1)" using kin ha1(2) by simp
    have cur: "prop_get (cell ?h1 a) k = v"
    proof -
      have "entry_rel rk (rk b) w w1 v (prop_get (cell ?h1 a) k)"
        using evolves_entry [OF ev1 a, of k] cav by simp
      then show ?thesis using b by (auto simp: entry_rel_def replaced_def)
    qed
    let ?w3 = "w1\<lparr>heap := (?h1 @ [REF_object (eid_of ?h1 v)])
                [a := prop_set (cell ?h1 a) k (JRef (length ?h1))]\<rparr>"
    have run: "WriteLine_property rec fuel (JRef a) k w = Some (Inr ?w3)"
      unfolding WriteLine_property_def
      using mem car b run1 a1
      by (simp add: jbind_def carries_def eid_of_def new_object_def cell_def nth_append)
    have ev3: "evolves rk (rk a) w ?w3"
    proof (rule replace_step [OF g eva a cur car1 _ _ _ refl])
      show "rk (addr v) < rk a" using b rkb by simp
      show "(\<exists>ps. ?h1 ! a = JObject ps \<and> k \<in> set (map fst ps)) \<or>
            (\<exists>xs i. ?h1 ! a = JArray xs \<and> k = Index i \<and> i < length xs)"
        using ha1(1) kin1 by blast
      show "eid_of ?h1 v \<in> set (map (\<lambda>l. fst (snd l))
          (drop (length (wasm_WriteLine w)) (wasm_WriteLine w1)))"
        using wr1 by (simp add: written_in_def)
    qed
    have "cell (heap ?w3) a = prop_set (JObject ps1) k (JRef (length ?h1))"
      using a1 ha1(1) by (simp add: cell_def)
    then have "prop_get (cell (heap ?w3) a) k = JRef (length ?h1)"
      using prop_get_prop_set [OF kin1] by simp
    moreover have "heap ?w3 ! length ?h1 = REF_object (eid_of ?h1 v)" using a1 by simp
    then have "flat_entry (heap ?w3) (JRef (length ?h1))"
      by (simp add: flat_entry_def carries_def eid_of_def cell_def elems_def REF_object_def)
    ultimately show ?thesis using run ev3 by auto
  next
    case nc: False
    have obj: "(if truthy v
           then jbind (Some (js_member ?h v (Name ''expressID'')))
                  (\<lambda>expressID. Some (Inr (expressID \<noteq> JUndefined)))
           else Some (Inr False)) = Some (Inr False)"
      using nc truthy_not_null [of v] member_expressID [of v ?h]
      by (auto simp: jbind_def carries_def)
    show ?thesis
    proof (cases "Array_isArray ?h v")
      case False
      have run: "WriteLine_property rec fuel (JRef a) k w = Some (Inr w)"
        unfolding WriteLine_property_def using False
        by (simp add: jbind_def mem obj del: js_member.simps)
      have "flat_entry ?h v" using nc not_array_elems [OF False] by (simp add: flat_entry_def)
      then show ?thesis using run cav by (auto intro: evolves_refl)
    next
      case True
      then obtain r xs where r: "v = JRef r" "cell ?h r = JArray xs"
        using is_array_cell by blast
      have len: "js_member ?h v (Name ''length'') = Inr (JNum (int (length xs)))"
        using r by simp
      show ?thesis
      proof (cases "xs = []")
        case True
        have run: "WriteLine_property rec fuel (JRef a) k w = Some (Inr w)"
          unfolding WriteLine_property_def using \<open>Array_isArray ?h v\<close> True
          by (simp add: jbind_def mem obj len del: js_member.simps)
        have "flat_entry ?h v" using nc r True by (simp add: flat_entry_def elems_def)
        then show ?thesis using run cav by (auto intro: evolves_refl)
      next
        case False
        have run: "WriteLine_property rec fuel (JRef a) k w =
            WriteLine_array rec fuel (JRef a) k (JRef r) 0 w"
          unfolding WriteLine_property_def using \<open>Array_isArray ?h v\<close> False
          by (simp add: jbind_def mem obj len r(1) [symmetric] del: js_member.simps)
        have "length xs - 0 < fuel" using short_arraysD [OF sh r(2)] fu by simp
        then obtain w' where run': "WriteLine_array rec fuel (JRef a) k (JRef r) 0 w = Some (Inr w')"
          and ev: "evolves rk (rk a) w w'"
          and flat: "\<forall>el\<in>set (elems (heap w') (JRef r)). \<not> carries (heap w') el"
          using WriteLine_array_flattens [where rec = rec, OF rec g sh a ha r(1) [unfolded v_def] r(2), of 0 fuel]
          by auto
        have same: "prop_get (cell (heap w') a) k = JRef r"
        proof -
          have "entry_rel rk (rk a) w w' (JRef r) (prop_get (cell (heap w') a) k)"
            using evolves_entry [OF ev a, of k] cav r(1) by simp
          then show ?thesis by (rule entry_rel_not_carries) (rule array_not_carries [OF r(2)])
        qed
        have "\<not> carries (heap w') (JRef r)"
          using array_not_carries [OF r(2)] evolves_carries [OF g ev] by simp
        then have "flat_entry (heap w') (JRef r)" using flat by (simp add: flat_entry_def)
        then show ?thesis using run run' ev same by auto
      qed
    qed
  qed
qed

lemma forEach_flattens:
  assumes rec: "\<And>b w. good rk (heap w) \<Longrightarrow> short_arrays L (heap w) \<Longrightarrow>
      carries (heap w) (JRef b) \<Longrightarrow> rk b < rk a \<Longrightarrow>
      \<exists>w1. rec (JRef b) w = Some (Inr w1) \<and> evolves rk (rk b) w w1 \<and>
           written_in w w1 (eid_of (heap w1) (JRef b))"
    and fu: "L \<le> fuel"
  shows "good rk (heap w) \<Longrightarrow> short_arrays L (heap w) \<Longrightarrow> cell (heap w) a = JObject ps \<Longrightarrow>
    set ks \<subseteq> set (map fst ps) \<Longrightarrow>
    \<exists>w'. forEach (WriteLine_property rec fuel (JRef a)) ks w = Some (Inr w') \<and>
         evolves rk (rk a) w w' \<and>
         (\<forall>k\<in>set ks. flat_entry (heap w') (prop_get (cell (heap w') a) k))"
proof (induction ks arbitrary: w ps)
  case Nil
  then show ?case by (auto intro: evolves_refl)
next
  case (Cons k ks)
  note g = Cons.prems(1) and sh = Cons.prems(2) and ca = Cons.prems(3) and sub = Cons.prems(4)
  have kin: "k \<in> set (map fst ps)" using sub by simp
  then have "ps \<noteq> []" by auto
  then have a: "a < length (heap w)" and ha: "heap w ! a = JObject ps"
    using ca by (auto simp: cell_def split: if_splits)
  obtain w1 where run1: "WriteLine_property rec fuel (JRef a) k w = Some (Inr w1)"
    and ev1: "evolves rk (rk a) w w1"
    and flat1: "flat_entry (heap w1) (prop_get (cell (heap w1) a) k)"
    using WriteLine_property_flattens [where rec = rec, OF rec g sh a ha kin fu] by blast
  have g1: "good rk (heap w1)" by (rule evolves_good [OF g ev1])
  have sh1: "short_arrays L (heap w1)" by (rule short_arrays_evolves [OF sh ev1])
  have a1: "a < length (heap w1)" using a evolves_length [OF ev1] by simp
  obtain ps1 where ha1: "heap w1 ! a = JObject ps1" "map fst ps1 = map fst ps"
    using evolves_object [OF ev1 a ha] by blast
  have ca1: "cell (heap w1) a = JObject ps1" using a1 ha1(1) by (simp add: cell_def)
  have sub1: "set ks \<subseteq> set (map fst ps1)" using sub ha1(2) by simp
  obtain w' where run: "forEach (WriteLine_property rec fuel (JRef a)) ks w1 = Some (Inr w')"
    and ev: "evolves rk (rk a) w1 w'"
    and flat: "\<forall>k\<in>set ks. flat_entry (heap w') (prop_get (cell (heap w') a) k)"
    using Cons.IH [OF g1 sh1 ca1 sub1] by blast
  have "flat_entry (heap w') (prop_get (cell (heap w') a) k)"
    by (rule flat_entry_stays(2) [OF g1 ev a1 flat1])
  then show ?case
    using run1 run evolves_trans [OF g ev1 ev] flat by (auto simp: jbind_def)
qed

text \<open>What a call of \<^verbatim>\<open>WriteLine\<close> for the object at \<open>a\<close> has done when it returns.\<close>

definition WriteLine_post ::
  "(nat \<Rightarrow> nat) \<Rightarrow> (jsobj list \<Rightarrow> jsval \<Rightarrow> js_error + jsval list) \<Rightarrow> nat \<Rightarrow> nat \<Rightarrow> world \<Rightarrow> world \<Rightarrow> bool" where
  "WriteLine_post rk ToTape modelID a w w' \<longleftrightarrow>
     (\<exists>w1 arguments.
        evolves rk (rk a) w w1 \<and> flat_object (heap w1) a \<and>
        ToTape (heap w1) (JRef a) = Inr arguments \<and>
        w' = WriteRawLineData modelID
               (eid_of (heap w1) (JRef a), prop_get (cell (heap w1) a) (Name ''type''), arguments) w1)"

lemma WriteLine_post_evolves:
  assumes "good rk (heap w)" "WriteLine_post rk ToTape modelID a w w'"
  shows "evolves rk (rk a) w w'" and "written_in w w' (eid_of (heap w') (JRef a))"
proof -
  obtain w1 arguments where ev: "evolves rk (rk a) w w1"
    and w': "w' = WriteRawLineData modelID
               (eid_of (heap w1) (JRef a), prop_get (cell (heap w1) a) (Name ''type''), arguments) w1"
    using assms(2) by (auto simp: WriteLine_post_def)
  show "evolves rk (rk a) w w'"
    unfolding w' by (rule evolves_trans [OF assms(1) ev evolves_write])
  obtain ws where "wasm_WriteLine w1 = wasm_WriteLine w @ ws" using evolves_log [OF ev] ..
  then show "written_in w w' (eid_of (heap w') (JRef a))"
    by (simp add: w' written_in_def WriteRawLineData_def)
qed

lemma WriteLine_flattens:
  assumes tot: "\<And>h v. \<exists>arguments. ToTape h v = Inr arguments"
  shows "good rk (heap w) \<Longrightarrow> short_arrays L (heap w) \<Longrightarrow> cell (heap w) a = JObject ps \<Longrightarrow>
    rk a + L < n \<Longrightarrow>
    \<exists>w'. WriteLine ToTape n modelID (JRef a) w = Some (Inr w') \<and>
         WriteLine_post rk ToTape modelID a w w'"
proof (induction n arbitrary: a w ps)
  case 0
  then show ?case by simp
next
  case (Suc n)
  note g = Suc.prems(1) and sh = Suc.prems(2) and ca = Suc.prems(3) and fu = Suc.prems(4)
  have rec: "\<exists>w1. WriteLine ToTape n modelID (JRef b) w = Some (Inr w1) \<and>
        evolves rk (rk b) w w1 \<and> written_in w w1 (eid_of (heap w1) (JRef b))"
    if gb: "good rk (heap w)" and sb: "short_arrays L (heap w)"
      and cb: "carries (heap w) (JRef b)" and rb: "rk b < rk a"
    for b w
  proof -
    obtain qs where qs: "cell (heap w) b = JObject qs"
      using carries_object [OF cb] by (auto simp: cell_def)
    have "rk b + L < n" using rb fu by simp
    then obtain w1 where "WriteLine ToTape n modelID (JRef b) w = Some (Inr w1)"
      "WriteLine_post rk ToTape modelID b w w1"
      using Suc.IH [OF gb sb qs] by blast
    then show ?thesis using WriteLine_post_evolves [OF gb] by blast
  qed
  have L: "L \<le> n" using fu by simp
  obtain w1 where run1: "forEach (WriteLine_property (WriteLine ToTape n modelID) n (JRef a))
        (map fst ps) w = Some (Inr w1)"
    and ev1: "evolves rk (rk a) w w1"
    and flat: "\<forall>k\<in>set (map fst ps). flat_entry (heap w1) (prop_get (cell (heap w1) a) k)"
    using forEach_flattens [where rec = "WriteLine ToTape n modelID", OF rec L g sh ca subset_refl]
    by blast
  have keys1: "\<exists>ps1. cell (heap w1) a = JObject ps1 \<and> map fst ps1 = map fst ps"
  proof (cases "ps = []")
    case True
    then have "w1 = w" using run1 by simp
    then show ?thesis using ca by simp
  next
    case False
    then have a: "a < length (heap w)" "heap w ! a = JObject ps"
      using ca by (auto simp: cell_def split: if_splits)
    then show ?thesis
      using evolves_object [OF ev1 a] evolves_length [OF ev1] by (auto simp: cell_def)
  qed
  then obtain ps1 where ps1: "cell (heap w1) a = JObject ps1" "map fst ps1 = map fst ps" by blast
  have fo: "flat_object (heap w1) a"
    unfolding flat_object_def
  proof
    fix k show "flat_entry (heap w1) (prop_get (cell (heap w1) a) k)"
    proof (cases "k \<in> set (map fst ps)")
      case True
      then show ?thesis using flat by blast
    next
      case False
      then show ?thesis using ps1 prop_get_absent [of k ps1] by simp
    qed
  qed
  obtain arguments where args: "ToTape (heap w1) (JRef a) = Inr arguments" using tot by blast
  let ?w' = "WriteRawLineData modelID
      (eid_of (heap w1) (JRef a), prop_get (cell (heap w1) a) (Name ''type''), arguments) w1"
  have "WriteLine ToTape (Suc n) modelID (JRef a) w = Some (Inr ?w')"
    using ca run1 args by (simp add: jbind_def eid_of_def)
  moreover have "WriteLine_post rk ToTape modelID a w ?w'"
    unfolding WriteLine_post_def using ev1 fo args by blast
  ultimately show ?case by blast
qed

subsection \<open>The caller's object after the call\<close>

text \<open>
  What has become of an entry of the caller's object: an entry that held an object
  carrying an \<^verbatim>\<open>expressID\<close> now holds a new object \<^verbatim>\<open>{type: 5, value: expressID}\<close>, and a raw
  line with this ID is among the lines \<open>ids\<close> written before; every other entry is as it was.
\<close>

definition now_REF :: "jsobj list \<Rightarrow> jsobj list \<Rightarrow> jsval \<Rightarrow> jsval \<Rightarrow> bool" where
  "now_REF h h' v v' =
     (case v' of
        JRef c \<Rightarrow> length h \<le> c \<and> cell h' c = REF_object (eid_of h v)
      | _ \<Rightarrow> False)"

definition entry_result :: "jsobj list \<Rightarrow> jsobj list \<Rightarrow> jsval list \<Rightarrow> jsval \<Rightarrow> jsval \<Rightarrow> bool" where
  "entry_result h h' ids v v' =
     (if carries h v then now_REF h h' v v' \<and> eid_of h v \<in> set ids else v' = v)"

lemma replaced_entry_result:
  assumes "replaced rk \<rho> w w1 v v'" "wasm_WriteLine w1 = wasm_WriteLine w @ ws"
  shows "entry_result (heap w) (heap w1) (map (\<lambda>l. fst (snd l)) ws) v v'"
  using assms by (auto simp: replaced_def entry_result_def now_REF_def cell_def)

lemma entry_rel_result:
  assumes "entry_rel rk \<rho> w w1 v v'" "wasm_WriteLine w1 = wasm_WriteLine w @ ws"
    and "carries (heap w) v \<Longrightarrow> v' \<noteq> v"
  shows "entry_result (heap w) (heap w1) (map (\<lambda>l. fst (snd l)) ws) v v'"
proof (cases "v' = v")
  case True
  then show ?thesis using assms(3) by (auto simp: entry_result_def)
next
  case False
  then have "replaced rk \<rho> w w1 v v'" using assms(1) by (simp add: entry_rel_def)
  then show ?thesis using assms(2) by (rule replaced_entry_result)
qed

text \<open>
  C9: \<^verbatim>\<open>WriteLine(modelID, lineObject)\<close> changes the caller's object in place. For a heap
  whose objects do not contain themselves, and with enough room for the nested calls, the
  call returns; every property of the caller's object that held an object carrying an
  \<^verbatim>\<open>expressID\<close>, and every such element of an array-valued property, then holds a new
  object \<^verbatim>\<open>{type: 5, value: expressID}\<close> in the caller's object (or array) itself, and the
  raw line of the nested object has been written to the model before the raw line of the
  caller's object, which is written last. All other properties and elements are as they
  were.
\<close>

theorem WriteLine_mutates_lineObject:
  assumes g: "good rk (heap w)" and sh: "short_arrays L (heap w)"
    and a: "a < length (heap w)" and ha: "heap w ! a = JObject ps"
    and tot: "\<forall>h v. \<exists>arguments. ToTape h v = Inr arguments"
    and fu: "rk a + L < n"
  shows "\<exists>w' ws arguments.
      WriteLine ToTape n modelID (JRef a) w = Some (Inr w') \<and>
      wasm_WriteLine w' = wasm_WriteLine w @ ws @
        [(modelID, eid_of (heap w) (JRef a), prop_get (cell (heap w') a) (Name ''type''), arguments)] \<and>
      ToTape (heap w') (JRef a) = Inr arguments \<and>
      (\<forall>(k, v)\<in>set ps.
         entry_result (heap w) (heap w') (map (\<lambda>l. fst (snd l)) ws) v
           (prop_get (cell (heap w') a) k) \<and>
         list_all2 (entry_result (heap w) (heap w') (map (\<lambda>l. fst (snd l)) ws))
           (elems (heap w) v) (elems (heap w') v))"
proof -
  let ?h = "heap w"
  have ca: "cell ?h a = JObject ps" using a ha by (simp add: cell_def)
  have tot': "\<And>h v. \<exists>arguments. ToTape h v = Inr arguments" using tot by blast
  obtain w' where run: "WriteLine ToTape n modelID (JRef a) w = Some (Inr w')"
    and post: "WriteLine_post rk ToTape modelID a w w'"
    using WriteLine_flattens [where ToTape = ToTape, OF tot' g sh ca fu] by blast
  obtain w1 arguments where ev: "evolves rk (rk a) w w1"
    and flat: "flat_object (heap w1) a"
    and args: "ToTape (heap w1) (JRef a) = Inr arguments"
    and w': "w' = WriteRawLineData modelID
               (eid_of (heap w1) (JRef a), prop_get (cell (heap w1) a) (Name ''type''), arguments) w1"
    using post by (auto simp: WriteLine_post_def)
  let ?h1 = "heap w1"
  have h': "heap w' = ?h1" by (simp add: w' WriteRawLineData_def)
  obtain ws where ws: "wasm_WriteLine w1 = wasm_WriteLine w @ ws" using evolves_log [OF ev] ..
  let ?ids = "map (\<lambda>l. fst (snd l)) ws"
  have log: "wasm_WriteLine w' = wasm_WriteLine w @ ws @
      [(modelID, eid_of ?h (JRef a), prop_get (cell ?h1 a) (Name ''type''), arguments)]"
    using ws evolves_eid_of [OF g ev, of "JRef a"] by (simp add: w' WriteRawLineData_def)
  have car: "carries ?h1 x = carries ?h x" for x by (rule evolves_carries [OF g ev])
  have entries: "entry_result ?h ?h1 ?ids v (prop_get (cell ?h1 a) k) \<and>
      list_all2 (entry_result ?h ?h1 ?ids) (elems ?h v) (elems ?h1 v)"
    if kv: "(k, v) \<in> set ps" for k v
  proof -
    have "map_of ps k = Some v" using good_objD(1) [OF g a ha] kv by simp
    then have v: "prop_get (cell ?h a) k = v" using ca by simp
    let ?v1 = "prop_get (cell ?h1 a) k"
    have rel: "entry_rel rk (rk a) w w1 v ?v1" using evolves_entry [OF ev a, of k] v by simp
    have f1: "flat_entry ?h1 ?v1" using flat by (simp add: flat_object_def)
    have 1: "entry_result ?h ?h1 ?ids v ?v1"
      using rel ws
    proof (rule entry_rel_result)
      assume "carries ?h v"
      then show "?v1 \<noteq> v" using f1 car by (auto simp: flat_entry_def)
    qed
    have 2: "list_all2 (entry_result ?h ?h1 ?ids) (elems ?h v) (elems ?h1 v)"
      using evolves_elems [OF ev, of v]
    proof (rule list.rel_mono_strong)
      fix el el' assume el: "el \<in> set (elems ?h v)" "el' \<in> set (elems ?h1 v)"
        "entry_rel rk (rk a) w w1 el el'"
      have "elems ?h v \<noteq> []" using el(1) by auto
      then obtain r xs where "v = JRef r" "cell ?h r = JArray xs"
        by (cases v) (auto simp: elems_def split: jsobj.splits)
      then have "\<not> carries ?h v" using array_not_carries by simp
      then have "?v1 = v" using rel by (rule entry_rel_not_carries [rotated])
      then have nc: "\<not> carries ?h1 el'" using f1 el(2) by (simp add: flat_entry_def)
      show "entry_result ?h ?h1 ?ids el el'"
        using el(3) ws
      proof (rule entry_rel_result)
        assume "carries ?h el"
        then show "el' \<noteq> el" using nc car by auto
      qed
    qed
    show ?thesis using 1 2 by simp
  qed
  have all: "\<forall>(k, v)\<in>set ps.
         entry_result ?h (heap w') ?ids v (prop_get (cell (heap w') a) k) \<and>
         list_all2 (entry_result ?h (heap w') ?ids) (elems ?h v) (elems (heap w') v)"
    using entries unfolding h' by auto
  have log': "wasm_WriteLine w' = wasm_WriteLine w @ ws @
      [(modelID, eid_of ?h (JRef a), prop_get (cell (heap w') a) (Name ''type''), arguments)]"
    using log unfolding h' .
  have args': "ToTape (heap w') (JRef a) = Inr arguments" using args unfolding h' .
  show ?thesis
  proof (intro exI conjI)
    show "WriteLine ToTape n modelID (JRef a) w = Some (Inr w')" by (rule run)
    show "wasm_WriteLine w' = wasm_WriteLine w @ ws @
      [(modelID, eid_of ?h (JRef a), prop_get (cell (heap w') a) (Name ''type''), arguments)]"
      by (rule log')
    show "ToTape (heap w') (JRef a) = Inr arguments" by (rule args')
    show "\<forall>(k, v)\<in>set ps.
         entry_result ?h (heap w') ?ids v (prop_get (cell (heap w') a) k) \<and>
         list_all2 (entry_result ?h (heap w') ?ids) (elems ?h v) (elems (heap w') v)"
      by (rule all)
  qed
qed

text \<open>
  A caller's object \<^verbatim>\<open>#10\<close> with a nested object \<^verbatim>\<open>#11\<close>, which has a nested object
  \<^verbatim>\<open>#12\<close> of its own, and with an array that holds a nested object \<^verbatim>\<open>#13\<close> and a number.
\<close>

definition example_heap :: "jsobj list" where
  "example_heap =
     [JObject [(Name ''expressID'', JNum 10), (Name ''type'', JNum 99),
               (Name ''Name'', JStr ''w''), (Name ''Owner'', JRef 1), (Name ''Items'', JRef 3)],
      JObject [(Name ''expressID'', JNum 11), (Name ''type'', JNum 98), (Name ''Inner'', JRef 2)],
      JObject [(Name ''expressID'', JNum 12), (Name ''type'', JNum 97)],
      JArray [JRef 4, JNum 7],
      JObject [(Name ''expressID'', JNum 13), (Name ''type'', JNum 96)]]"

definition example_rank :: "nat \<Rightarrow> nat" where
  "example_rank x = (if x = 0 then 2 else if x = 1 then 1 else 0)"

text \<open>A \<^verbatim>\<open>ToTape\<close> that yields the values of the properties of the object.\<close>

definition values_ToTape :: "jsobj list \<Rightarrow> jsval \<Rightarrow> js_error + jsval list" where
  "values_ToTape h v =
     Inr (case v of
            JRef a \<Rightarrow> (case cell h a of JObject ps \<Rightarrow> map snd ps | JArray xs \<Rightarrow> xs)
          | _ \<Rightarrow> [])"

lemma example_good: "good example_rank example_heap"
  unfolding good_def
  by (auto simp: example_heap_def example_rank_def carries_def eid_of_def cell_def elems_def
      less_Suc_eq)

lemma example_short: "short_arrays 3 example_heap"
  unfolding short_arrays_def by (auto simp: example_heap_def less_Suc_eq)

theorem WriteLine_mutates_lineObject_witness:
  "good example_rank example_heap \<and> short_arrays 3 example_heap \<and>
   (\<exists>w' ws arguments.
      WriteLine values_ToTape 6 0 (JRef 0) \<lparr>heap = example_heap, wasm_WriteLine = []\<rparr> =
        Some (Inr w') \<and>
      wasm_WriteLine w' = ws @ [(0, JNum 10, JNum 99, arguments)] \<and>
      now_REF example_heap (heap w') (JRef 1) (prop_get (cell (heap w') 0) (Name ''Owner'')) \<and>
      JNum 11 \<in> set (map (\<lambda>l. fst (snd l)) ws) \<and>
      prop_get (cell (heap w') 0) (Name ''Items'') = JRef 3 \<and>
      list_all2 (entry_result example_heap (heap w') (map (\<lambda>l. fst (snd l)) ws))
        [JRef 4, JNum 7] (elems (heap w') (JRef 3)) \<and>
      prop_get (cell (heap w') 0) (Name ''Name'') = JStr ''w'' \<and>
      cell (heap w') 0 \<noteq> cell example_heap 0)"
proof -
  let ?w = "\<lparr>heap = example_heap, wasm_WriteLine = []\<rparr>"
  let ?ps = "[(Name ''expressID'', JNum 10), (Name ''type'', JNum 99),
               (Name ''Name'', JStr ''w''), (Name ''Owner'', JRef 1), (Name ''Items'', JRef 3)]"
  have g: "good example_rank (heap ?w)" using example_good by simp
  have sh: "short_arrays 3 (heap ?w)" using example_short by simp
  have a: "0 < length (heap ?w)" by (simp add: example_heap_def)
  have ha: "heap ?w ! 0 = JObject ?ps" by (simp add: example_heap_def)
  have tot: "\<forall>h v. \<exists>arguments. values_ToTape h v = Inr arguments"
    by (simp add: values_ToTape_def)
  have fu: "example_rank 0 + 3 < 6" by (simp add: example_rank_def)
  obtain w' ws arguments where
    run: "WriteLine values_ToTape 6 0 (JRef 0) ?w = Some (Inr w')"
    and log: "wasm_WriteLine w' = wasm_WriteLine ?w @ ws @
        [(0, eid_of (heap ?w) (JRef 0), prop_get (cell (heap w') 0) (Name ''type''), arguments)]"
    and all: "\<forall>(k, v)\<in>set ?ps.
         entry_result (heap ?w) (heap w') (map (\<lambda>l. fst (snd l)) ws) v
           (prop_get (cell (heap w') 0) k) \<and>
         list_all2 (entry_result (heap ?w) (heap w') (map (\<lambda>l. fst (snd l)) ws))
           (elems (heap ?w) v) (elems (heap w') v)"
    using WriteLine_mutates_lineObject [OF g sh a ha tot fu, of 0] by blast
  have c1: "carries example_heap (JRef 1)" "eid_of example_heap (JRef 1) = JNum 11"
    "\<not> carries example_heap (JRef 3)" "\<not> carries example_heap (JStr ''w'')"
    "\<not> carries example_heap (JNum 99)"
    "elems example_heap (JRef 3) = [JRef 4, JNum 7]"
    "eid_of example_heap (JRef 0) = JNum 10"
    by (simp_all add: carries_def eid_of_def cell_def elems_def example_heap_def)
  have ty: "prop_get (cell (heap w') 0) (Name ''type'') = JNum 99"
    using all c1 by (simp add: entry_result_def)
  have "prop_get (cell (heap w') 0) (Name ''Owner'') \<noteq> prop_get (cell example_heap 0) (Name ''Owner'')"
    using all c1 by (auto simp: entry_result_def now_REF_def cell_def example_heap_def
        split: jsval.splits)
  then have changed: "cell (heap w') 0 \<noteq> cell example_heap 0" by auto
  show ?thesis
    using example_good example_short run log all c1 ty changed
    by (simp add: entry_result_def)
qed

end
